(* ===== verification/Prelude.thy ===== *)
theory Prelude
  imports Main "HOL-Library.Word" "HOL-Library.Product_Lexorder" "HOL-Library.Multiset"
begin

text \<open>
  Shared vocabulary of the development: the machine types of the Rust sources, results
  with errors and panics as values, the few operations of the Rust standard library that
  every component uses (checked integer arithmetic, slices, \<open>position\<close>), and generic
  lemmas on them.

  Bytes are \<open>char\<close> values (the 256 eight-bit values), so a Rust \<open>&[u8]\<close>, \<open>&str\<close> or
  \<open>String\<close> is a \<open>char list\<close> holding its exact bytes; that a \<open>str\<close> holds valid UTF-8 is
  the predicate of theory \<open>Utf8\<close>.  The integers \<open>u16\<close>, \<open>u32\<close>, \<open>u64\<close> and \<open>u128\<close> are words of
  that width.  A \<open>usize\<close> (lengths and indices in memory) is a natural number, and each
  checked operation on it writes the 64-bit bound out.
\<close>

section \<open>Machine types\<close>

type_synonym bytes = "char list"
type_synonym u16 = "16 word"
type_synonym u32 = "32 word"
type_synonym u64 = "64 word"
type_synonym u128 = "128 word"

text \<open>Rewriting rules that evaluate the model's results, collected for the component proofs.\<close>

named_theorems result_simps

section \<open>Results: errors, panics and the question-mark operator\<close>

text \<open>
  A Rust \<open>Result<A, E>\<close> is \<open>'e + 'a\<close>.  A function whose body holds an operation that
  panics (a slice out of range, an \<open>expect\<close>) has the error type \<open>'e fault\<close>, so that the
  panic is a branch of the model and its absence a theorem.
\<close>

datatype 'e fault = Panic | Err 'e

definition rbind :: "'e + 'a \<Rightarrow> ('a \<Rightarrow> 'e + 'b) \<Rightarrow> 'e + 'b" where
  "rbind m f = (case m of Inl e \<Rightarrow> Inl e | Inr x \<Rightarrow> f x)"

definition map_err :: "('e \<Rightarrow> 'f) \<Rightarrow> 'e + 'a \<Rightarrow> 'f + 'a" where
  "map_err g m = (case m of Inl e \<Rightarrow> Inl (g e) | Inr x \<Rightarrow> Inr x)"

definition ok_or :: "'e \<Rightarrow> 'a option \<Rightarrow> 'e + 'a" where
  "ok_or e m = (case m of None \<Rightarrow> Inl e | Some x \<Rightarrow> Inr x)"

definition ok_opt :: "'e + 'a \<Rightarrow> 'a option" where
  "ok_opt m = (case m of Inl _ \<Rightarrow> None | Inr x \<Rightarrow> Some x)"

definition lift_err :: "'e + 'a \<Rightarrow> 'e fault + 'a" where
  "lift_err m = map_err Err m"

definition expect :: "'a option \<Rightarrow> 'e fault + 'a" where
  "expect m = ok_or Panic m"

definition map_fault :: "('e \<Rightarrow> 'f) \<Rightarrow> 'e fault + 'a \<Rightarrow> 'f fault + 'a" where
  "map_fault g m = (case m of Inl Panic \<Rightarrow> Inl Panic | Inl (Err e) \<Rightarrow> Inl (Err (g e)) | Inr x \<Rightarrow> Inr x)"

lemma rbind_simps [simp, result_simps]:
  "rbind (Inl e) f = Inl e"
  "rbind (Inr x) f = f x"
  by (simp_all add: rbind_def)

lemma map_err_simps [simp, result_simps]:
  "map_err g (Inl e) = Inl (g e)"
  "map_err g (Inr x) = Inr x"
  by (simp_all add: map_err_def)

lemma ok_or_simps [simp, result_simps]:
  "ok_or e None = Inl e"
  "ok_or e (Some x) = Inr x"
  by (simp_all add: ok_or_def)

lemma ok_opt_simps [simp, result_simps]:
  "ok_opt (Inl e) = None"
  "ok_opt (Inr x) = Some x"
  by (simp_all add: ok_opt_def)

lemma lift_err_simps [simp, result_simps]:
  "lift_err (Inl e) = Inl (Err e)"
  "lift_err (Inr x) = Inr x"
  by (simp_all add: lift_err_def)

lemma expect_simps [simp, result_simps]:
  "expect None = Inl Panic"
  "expect (Some x) = Inr x"
  by (simp_all add: expect_def)

lemma map_fault_simps [simp, result_simps]:
  "map_fault g (Inl Panic) = Inl Panic"
  "map_fault g (Inl (Err e)) = Inl (Err (g e))"
  "map_fault g (Inr x) = Inr x"
  by (simp_all add: map_fault_def)

lemma rbind_eq_Inr: "rbind m f = Inr y \<longleftrightarrow> (\<exists>x. m = Inr x \<and> f x = Inr y)"
  by (cases m) auto

lemma rbind_eq_Inl: "rbind m f = Inl e \<longleftrightarrow> m = Inl e \<or> (\<exists>x. m = Inr x \<and> f x = Inl e)"
  by (cases m) auto

lemma map_err_eq_Inr: "map_err g m = Inr y \<longleftrightarrow> m = Inr y"
  by (cases m) auto

lemma map_err_eq_Inl: "map_err g m = Inl e \<longleftrightarrow> (\<exists>e'. m = Inl e' \<and> e = g e')"
  by (cases m) auto

lemma lift_err_eq_Inr: "lift_err m = Inr y \<longleftrightarrow> m = Inr y"
  by (cases m) auto

lemma lift_err_eq_Inl: "lift_err m = Inl e \<longleftrightarrow> (\<exists>e'. m = Inl e' \<and> e = Err e')"
  by (cases m) auto

lemma map_fault_eq_Inr: "map_fault g m = Inr y \<longleftrightarrow> m = Inr y"
  by (cases m) (auto simp: map_fault_def split: fault.splits)

lemma map_fault_eq_Panic: "map_fault g m = Inl Panic \<longleftrightarrow> m = Inl Panic"
  by (cases m) (auto simp: map_fault_def split: fault.splits)

lemma map_fault_eq_Err: "map_fault g m = Inl (Err e) \<longleftrightarrow> (\<exists>e'. m = Inl (Err e') \<and> e = g e')"
  by (cases m) (auto simp: map_fault_def split: fault.splits)

lemma map_fault_lift_err [simp]: "map_fault g (lift_err m) = lift_err (map_err g m)"
  by (cases m) auto

lemma ok_or_eq_Inr: "ok_or e m = Inr y \<longleftrightarrow> m = Some y"
  by (cases m) auto

lemma ok_opt_eq_Some: "ok_opt m = Some y \<longleftrightarrow> m = Inr y"
  by (cases m) auto

lemma ok_opt_eq_None: "ok_opt m = None \<longleftrightarrow> (\<exists>e. m = Inl e)"
  by (cases m) auto

lemma expect_eq_Inr: "expect m = Inr y \<longleftrightarrow> m = Some y"
  by (cases m) auto

lemmas result_iffs =
  rbind_eq_Inr rbind_eq_Inl map_err_eq_Inr map_err_eq_Inl lift_err_eq_Inr lift_err_eq_Inl
  map_fault_eq_Inr map_fault_eq_Panic map_fault_eq_Err ok_or_eq_Inr ok_opt_eq_Some
  ok_opt_eq_None expect_eq_Inr

lemma rbind_cong [fundef_cong]:
  "m = m' \<Longrightarrow> (\<And>x. m' = Inr x \<Longrightarrow> f x = f' x) \<Longrightarrow> rbind m f = rbind m' f'"
  by (cases m') auto

section \<open>Integers\<close>

text \<open>The largest values of the unsigned types, and of \<open>i64\<close>.\<close>

definition usize_max :: nat where
  "usize_max = 18446744073709551615"

text \<open>Conversions between \<open>usize\<close> and \<open>u64\<close> (\<open>try_from\<close>), with their failing branch.\<close>

definition u64_of_usize :: "nat \<Rightarrow> u64 option" where
  "u64_of_usize n = (if n \<le> usize_max then Some (of_nat n) else None)"

definition usize_of_u64 :: "u64 \<Rightarrow> nat option" where
  "usize_of_u64 w = (if unat w \<le> usize_max then Some (unat w) else None)"

definition checked_add_usize :: "nat \<Rightarrow> nat \<Rightarrow> nat option" where
  "checked_add_usize a b = (if a + b \<le> usize_max then Some (a + b) else None)"

definition checked_sub_usize :: "nat \<Rightarrow> nat \<Rightarrow> nat option" where
  "checked_sub_usize a b = (if b \<le> a then Some (a - b) else None)"

definition checked_mul_usize :: "nat \<Rightarrow> nat \<Rightarrow> nat option" where
  "checked_mul_usize a b = (if a * b \<le> usize_max then Some (a * b) else None)"

definition sat_add_usize :: "nat \<Rightarrow> nat \<Rightarrow> nat" where
  "sat_add_usize a b = min (a + b) usize_max"

definition sat_mul_usize :: "nat \<Rightarrow> nat \<Rightarrow> nat" where
  "sat_mul_usize a b = min (a * b) usize_max"

definition checked_add_u64 :: "u64 \<Rightarrow> u64 \<Rightarrow> u64 option" where
  "checked_add_u64 a b = (if unat a + unat b \<le> usize_max then Some (a + b) else None)"

definition checked_sub_u64 :: "u64 \<Rightarrow> u64 \<Rightarrow> u64 option" where
  "checked_sub_u64 a b = (if b \<le> a then Some (a - b) else None)"

definition checked_mul_u64 :: "u64 \<Rightarrow> u64 \<Rightarrow> u64 option" where
  "checked_mul_u64 a b = (if unat a * unat b \<le> usize_max then Some (a * b) else None)"

definition sat_add_u64 :: "u64 \<Rightarrow> u64 \<Rightarrow> u64" where
  "sat_add_u64 a b = (if unat a + unat b \<le> usize_max then a + b else - 1)"

definition sat_sub_u64 :: "u64 \<Rightarrow> u64 \<Rightarrow> u64" where
  "sat_sub_u64 a b = (if b \<le> a then a - b else 0)"

lemma unat_le_usize_max [simp]: "unat (w :: u64) \<le> usize_max"
proof -
  have "unat w < 2 ^ LENGTH(64)" by (rule unsigned_less)
  then show ?thesis by (simp add: usize_max_def)
qed

lemma usize_of_u64_Some [simp, result_simps]: "usize_of_u64 w = Some (unat w)"
  by (simp add: usize_of_u64_def)

lemma unat_of_nat_u64 [simp]: "n \<le> usize_max \<Longrightarrow> unat (of_nat n :: u64) = n"
  by (simp add: usize_max_def unat_of_nat take_bit_nat_eq_self)

lemma u64_of_usize_eq_Some: "u64_of_usize n = Some w \<longleftrightarrow> unat w = n"
  by (auto simp: u64_of_usize_def)

lemma unat_sat_add_u64: "unat (sat_add_u64 a b) = min (unat a + unat b) usize_max"
proof (cases "unat a + unat b \<le> usize_max")
  case True
  then have "unat a + unat b < 2 ^ 64" by (simp add: usize_max_def)
  then have "unat (a + b) = unat a + unat b" by (simp add: unat_word_ariths)
  with True show ?thesis by (simp add: sat_add_u64_def)
next
  case False
  then show ?thesis by (simp add: sat_add_u64_def usize_max_def unsigned_minus_1_eq_mask mask_eq_exp_minus_1)
qed

lemma unat_sat_sub_u64: "unat (sat_sub_u64 a b) = unat a - unat b"
  by (auto simp: sat_sub_u64_def unat_sub word_le_nat_alt)

lemma unat_add_u64: "unat a + unat b \<le> usize_max \<Longrightarrow> unat (a + b :: u64) = unat a + unat b"
  by (simp add: unat_word_ariths usize_max_def)

lemma checked_add_u64_eq_Some: "checked_add_u64 a b = Some c \<longleftrightarrow> unat c = unat a + unat b"
proof
  assume "checked_add_u64 a b = Some c"
  then show "unat c = unat a + unat b"
    by (auto simp: checked_add_u64_def unat_add_u64 split: if_splits)
next
  assume c: "unat c = unat a + unat b"
  then have le: "unat a + unat b \<le> usize_max" by (metis unat_le_usize_max)
  with c have "unat c = unat (a + b)" by (simp add: unat_add_u64)
  then have "c = a + b" by (simp add: word_unat_eq_iff)
  with le show "checked_add_u64 a b = Some c" by (simp add: checked_add_u64_def)
qed

lemma unat_Suc_u64: "unat a < usize_max \<Longrightarrow> unat (a + 1 :: u64) = Suc (unat a)"
  using unat_add_u64 [of a 1] by simp

lemma unat_minus_one_u64: "a \<noteq> 0 \<Longrightarrow> unat (a - 1 :: u64) = unat a - 1"
  by (rule unat_minus_one)

section \<open>Slices and searches\<close>

text \<open>\<open>&xs[a..b]\<close>: \<open>None\<close> is the panic of an index out of range.\<close>

definition slice_of :: "'a list \<Rightarrow> nat \<Rightarrow> nat \<Rightarrow> 'a list option" where
  "slice_of xs a b = (if a \<le> b \<and> b \<le> length xs then Some (take (b - a) (drop a xs)) else None)"

text \<open>\<open>xs.get(i)\<close>.\<close>

definition get_at :: "'a list \<Rightarrow> nat \<Rightarrow> 'a option" where
  "get_at xs i = (if i < length xs then Some (xs ! i) else None)"

text \<open>\<open>xs.iter().position(p)\<close>: the index of the first element that satisfies \<open>p\<close>.\<close>

fun position_of :: "('a \<Rightarrow> bool) \<Rightarrow> 'a list \<Rightarrow> nat option" where
  "position_of p [] = None"
| "position_of p (x # xs) = (if p x then Some 0 else map_option Suc (position_of p xs))"

lemma position_of_None [simp]: "position_of p xs = None \<longleftrightarrow> (\<forall>x\<in>set xs. \<not> p x)"
  by (induction xs) auto

lemma position_of_Some:
  "position_of p xs = Some i \<Longrightarrow> i < length xs \<and> p (xs ! i) \<and> (\<forall>j<i. \<not> p (xs ! j))"
proof (induction xs arbitrary: i)
  case Nil
  then show ?case by simp
next
  case (Cons x xs)
  then show ?case
    by (auto split: if_splits simp: less_Suc_eq_0_disj)
qed

lemma position_of_SomeD: "position_of (\<lambda>x. x = c) xs = Some i \<Longrightarrow> c \<in> set xs"
  by (induction xs arbitrary: i) (auto split: if_splits)

lemma get_at_eq_Some: "get_at xs i = Some x \<longleftrightarrow> i < length xs \<and> xs ! i = x"
  by (auto simp: get_at_def)

lemma slice_eq_Some:
  "slice_of xs a b = Some ys \<longleftrightarrow> a \<le> b \<and> b \<le> length xs \<and> ys = take (b - a) (drop a xs)"
  by (auto simp: slice_of_def)

lemma slice_append_mid:
  "slice_of (xs @ ys @ zs) (length xs) (length xs + length ys) = Some ys"
  by (simp add: slice_of_def)

lemma length_slice: "slice_of xs a b = Some ys \<Longrightarrow> length ys = b - a"
  by (auto simp: slice_eq_Some)

end
