(* ===== verification/Utf8.thy ===== *)
theory Utf8
  imports Prelude
begin

text \<open>
  Strict UTF-8 as the Rust standard library checks it (\<open>std::str::from_utf8\<close>): the
  scan of well-formed sequences, the \<open>valid_up_to\<close> offset of its error, the closure
  properties of valid text (concatenation, cutting after an LF), and the character
  boundaries that \<open>str\<close> slicing requires.
\<close>

section \<open>The scan\<close>

definition code_of :: "char \<Rightarrow> nat" where
  "code_of c = of_char c"

definition is_cont :: "char \<Rightarrow> bool" where
  "is_cont c \<longleftrightarrow> 128 \<le> code_of c \<and> code_of c < 192"

text \<open>The range of the second byte for a three-byte and a four-byte lead.\<close>

definition second3_ok :: "nat \<Rightarrow> char \<Rightarrow> bool" where
  "second3_ok x c \<longleftrightarrow>
     (if x = 224 then 160 \<le> code_of c \<and> code_of c < 192
      else if x = 237 then 128 \<le> code_of c \<and> code_of c < 160
      else is_cont c)"

definition second4_ok :: "nat \<Rightarrow> char \<Rightarrow> bool" where
  "second4_ok x c \<longleftrightarrow>
     (if x = 240 then 144 \<le> code_of c \<and> code_of c < 192
      else if x = 244 then 128 \<le> code_of c \<and> code_of c < 144
      else is_cont c)"

text \<open>The length of the well-formed sequence a byte list starts with.\<close>

fun utf8_seq_len :: "bytes \<Rightarrow> nat option" where
  "utf8_seq_len [] = None"
| "utf8_seq_len (c # r) =
     (let x = code_of c in
      if x < 128 then Some 1
      else if 194 \<le> x \<and> x < 224 then
        (case r of c1 # _ \<Rightarrow> if is_cont c1 then Some 2 else None | _ \<Rightarrow> None)
      else if 224 \<le> x \<and> x < 240 then
        (case r of c1 # c2 # _ \<Rightarrow> if second3_ok x c1 \<and> is_cont c2 then Some 3 else None | _ \<Rightarrow> None)
      else if 240 \<le> x \<and> x < 245 then
        (case r of c1 # c2 # c3 # _ \<Rightarrow>
           if second4_ok x c1 \<and> is_cont c2 \<and> is_cont c3 then Some 4 else None | _ \<Rightarrow> None)
      else None)"

lemma second3_cont: "second3_ok x c \<Longrightarrow> is_cont c"
  by (auto simp: second3_ok_def is_cont_def split: if_splits)

lemma second4_cont: "second4_ok x c \<Longrightarrow> is_cont c"
  by (auto simp: second4_ok_def is_cont_def split: if_splits)

lemma seq_len_shape:
  assumes "utf8_seq_len bs = Some n"
  obtains c r s where "bs = c # r @ s" and "n = Suc (length r)" and "\<not> is_cont c"
    and "\<forall>d\<in>set r. is_cont d" and "\<And>t. utf8_seq_len (c # r @ t) = Some n"
    and "r \<noteq> [] \<Longrightarrow> 128 \<le> code_of c"
proof (cases bs)
  case Nil
  with assms show thesis by simp
next
  case (Cons c q)
  let ?x = "code_of c"
  consider (one) "?x < 128"
    | (two) c1 s where "194 \<le> ?x" "?x < 224" "q = c1 # s" "is_cont c1"
    | (three) c1 c2 s where "224 \<le> ?x" "?x < 240" "q = c1 # c2 # s" "second3_ok ?x c1" "is_cont c2"
    | (four) c1 c2 c3 s where "240 \<le> ?x" "?x < 245" "q = c1 # c2 # c3 # s"
        "second4_ok ?x c1" "is_cont c2" "is_cont c3"
    using assms Cons by (auto simp: Let_def split: if_splits list.splits)
  then show thesis
  proof cases
    case one
    then show thesis using assms Cons that [of c "[]" q] by (simp add: is_cont_def)
  next
    case two
    then show thesis using assms Cons that [of c "[c1]" s] by (simp add: is_cont_def Let_def)
  next
    case three
    then show thesis using assms Cons that [of c "[c1, c2]" s] second3_cont [of ?x c1]
      by (simp add: is_cont_def Let_def)
  next
    case four
    then show thesis using assms Cons that [of c "[c1, c2, c3]" s] second4_cont [of ?x c1]
      by (simp add: is_cont_def Let_def)
  qed
qed

lemma seq_len_bounds: "utf8_seq_len bs = Some n \<Longrightarrow> 0 < n \<and> n \<le> length bs"
  by (erule seq_len_shape) simp

text \<open>
  \<open>valid_up_to\<close> of the error: where the first sequence starts that is not well formed;
  \<open>None\<close> when the bytes are valid.
\<close>

function utf8_error :: "bytes \<Rightarrow> nat option" where
  "utf8_error bs =
     (if bs = [] then None
      else case utf8_seq_len bs of
        None \<Rightarrow> Some 0
      | Some n \<Rightarrow> map_option ((+) n) (utf8_error (drop n bs)))"
  by pat_completeness auto
termination
  by (relation "measure length") (auto dest: seq_len_bounds)

declare utf8_error.simps [simp del]

definition utf8_ok :: "bytes \<Rightarrow> bool" where
  "utf8_ok bs \<longleftrightarrow> utf8_error bs = None"

section \<open>Valid text\<close>

lemma utf8_ok_Nil [simp, intro]: "utf8_ok []"
  by (simp add: utf8_ok_def utf8_error.simps)

lemma utf8_ok_step: "utf8_seq_len bs = Some n \<Longrightarrow> utf8_ok bs \<longleftrightarrow> utf8_ok (drop n bs)"
  by (cases "bs = []") (simp_all add: utf8_ok_def utf8_error.simps [of bs])

lemma utf8_ok_seq: "utf8_ok bs \<Longrightarrow> bs \<noteq> [] \<Longrightarrow> \<exists>n. utf8_seq_len bs = Some n"
  by (cases "utf8_seq_len bs") (auto simp: utf8_ok_def utf8_error.simps [of bs])

lemma utf8_ok_cases:
  assumes "utf8_ok bs" "bs \<noteq> []"
  obtains c r s where "bs = c # r @ s" "\<not> is_cont c" "\<forall>d\<in>set r. is_cont d" "utf8_ok s"
    "\<And>t. utf8_ok (c # r @ t) = utf8_ok t" "r \<noteq> [] \<Longrightarrow> 128 \<le> code_of c"
proof -
  obtain n where n: "utf8_seq_len bs = Some n" using utf8_ok_seq [OF assms] by auto
  obtain c r s where bs: "bs = c # r @ s" and len: "n = Suc (length r)" and c: "\<not> is_cont c"
    and r: "\<forall>d\<in>set r. is_cont d" and seq: "\<And>t. utf8_seq_len (c # r @ t) = Some n"
    and hi: "r \<noteq> [] \<Longrightarrow> 128 \<le> code_of c"
    using seq_len_shape [OF n] by metis
  have step: "utf8_ok (c # r @ t) = utf8_ok t" for t
    using utf8_ok_step [OF seq [of t]] len by simp
  show thesis using that [OF bs c r _ step hi] assms(1) step [of s] bs by simp
qed

lemma utf8_ok_ascii: "code_of c < 128 \<Longrightarrow> utf8_ok (c # s) \<longleftrightarrow> utf8_ok s"
  using utf8_ok_step [of "c # s" 1] by simp

lemma utf8_ok_append: "utf8_ok a \<Longrightarrow> utf8_ok (a @ b) \<longleftrightarrow> utf8_ok b"
proof (induction "length a" arbitrary: a rule: less_induct)
  case less
  show ?case
  proof (cases "a = []")
    case True
    then show ?thesis by simp
  next
    case False
    from utf8_ok_cases [OF less.prems False] obtain c r s
      where a: "a = c # r @ s" "utf8_ok s" "\<And>t. utf8_ok (c # r @ t) = utf8_ok t" by metis
    then have "utf8_ok (s @ b) \<longleftrightarrow> utf8_ok b" using less.hyps [of s] by simp
    with a show ?thesis by simp
  qed
qed

lemma utf8_ok_appendI [intro]: "utf8_ok a \<Longrightarrow> utf8_ok b \<Longrightarrow> utf8_ok (a @ b)"
  by (simp add: utf8_ok_append)

lemma utf8_ok_concat: "(\<And>x. x \<in> set xs \<Longrightarrow> utf8_ok x) \<Longrightarrow> utf8_ok (concat xs)"
  by (induction xs) auto

text \<open>Valid text starts with no continuation byte.\<close>

lemma utf8_ok_hd: "utf8_ok (c # s) \<Longrightarrow> \<not> is_cont c"
  by (erule utf8_ok_cases) auto

text \<open>
  Cutting valid text where the second part does not start with a continuation byte gives
  two valid parts.
\<close>

lemma utf8_ok_split:
  "utf8_ok (a @ b) \<Longrightarrow> b = [] \<or> \<not> is_cont (hd b) \<Longrightarrow> utf8_ok a \<and> utf8_ok b"
proof (induction "length a" arbitrary: a rule: less_induct)
  case less
  show ?case
  proof (cases "a = []")
    case True
    with less.prems show ?thesis by simp
  next
    case False
    then have "a @ b \<noteq> []" by simp
    from utf8_ok_cases [OF less.prems(1) this] obtain c r s
      where ab: "a @ b = c # r @ s" and r: "\<forall>d\<in>set r. is_cont d"
        and s: "utf8_ok s" and ext: "\<And>t. utf8_ok (c # r @ t) = utf8_ok t" by metis
    from ab False obtain a' where a: "a = c # a'" and ab': "a' @ b = r @ s"
      by (cases a) auto
    show ?thesis
    proof (cases "length r \<le> length a'")
      case True
      then obtain a'' where a'': "a' = r @ a''" and "s = a'' @ b"
        using ab' by (auto simp: append_eq_append_conv2)
      with s less.hyps [of a''] less.prems(2) a have "utf8_ok a'' \<and> utf8_ok b" by simp
      with a a'' ext show ?thesis by simp
    next
      case False
      then obtain u where u: "r = a' @ u" "b = u @ s" "u \<noteq> []"
        using ab' by (auto simp: append_eq_append_conv2)
      then have "is_cont (hd b)" using r by (cases u) auto
      moreover have "b \<noteq> []" using u by simp
      ultimately show ?thesis using less.prems(2) by simp
    qed
  qed
qed

lemma utf8_ok_after_ascii:
  assumes "utf8_ok (a @ c # b)" and "code_of c < 128"
  shows "utf8_ok a" and "utf8_ok b"
proof -
  have "\<not> is_cont c" using assms(2) by (simp add: is_cont_def)
  then have "utf8_ok a \<and> utf8_ok (c # b)" using utf8_ok_split [OF assms(1)] by simp
  then show "utf8_ok a" and "utf8_ok b" using utf8_ok_ascii [OF assms(2)] by simp_all
qed

text \<open>The error offset lies inside the bytes, and what precedes it is valid.\<close>

lemma utf8_error_prefix: "utf8_error bs = Some k \<Longrightarrow> k < length bs \<and> utf8_ok (take k bs)"
proof (induction bs arbitrary: k rule: utf8_error.induct)
  case (1 bs)
  from "1.prems" have ne: "bs \<noteq> []" by (auto simp: utf8_error.simps)
  show ?case
  proof (cases "utf8_seq_len bs")
    case None
    with ne "1.prems" show ?thesis by (simp add: utf8_error.simps [of bs])
  next
    case (Some n)
    with ne "1.prems" obtain j where j: "utf8_error (drop n bs) = Some j" and k: "k = n + j"
      by (auto simp: utf8_error.simps [of bs])
    from "1.IH" [OF ne Some j] have IH: "j < length bs - n" "utf8_ok (take j (drop n bs))"
      by simp_all
    obtain c r s where bs: "bs = c # r @ s" and n: "n = Suc (length r)"
      and seq: "\<And>t. utf8_seq_len (c # r @ t) = Some n"
      using seq_len_shape [OF Some] by metis
    have "utf8_ok (c # r @ take j s)"
      using utf8_ok_step [OF seq [of "take j s"]] IH(2) bs n by simp
    then show ?thesis using bs n k IH(1) by simp
  qed
qed

section \<open>Character boundaries\<close>

text \<open>\<open>str::is_char_boundary\<close>, and the two slicing forms of \<open>str\<close>: \<open>get\<close> and the panicking index.\<close>

definition char_boundary :: "bytes \<Rightarrow> nat \<Rightarrow> bool" where
  "char_boundary s i \<longleftrightarrow> i = 0 \<or> i = length s \<or> (i < length s \<and> \<not> is_cont (s ! i))"

definition str_get :: "bytes \<Rightarrow> nat \<Rightarrow> nat \<Rightarrow> bytes option" where
  "str_get s a b =
     (if a \<le> b \<and> b \<le> length s \<and> char_boundary s a \<and> char_boundary s b
      then Some (take (b - a) (drop a s)) else None)"

lemma char_boundary_simps [simp]: "char_boundary s 0" "char_boundary s (length s)"
  by (simp_all add: char_boundary_def)

lemma char_boundary_iff_split:
  assumes "utf8_ok s" "i \<le> length s"
  shows "char_boundary s i \<longleftrightarrow> utf8_ok (take i s) \<and> utf8_ok (drop i s)"
proof
  assume "char_boundary s i"
  then have "drop i s = [] \<or> \<not> is_cont (hd (drop i s)) \<or> i = 0"
    by (auto simp: char_boundary_def hd_drop_conv_nth)
  then show "utf8_ok (take i s) \<and> utf8_ok (drop i s)"
    using utf8_ok_split [of "take i s" "drop i s"] assms by auto
next
  assume R: "utf8_ok (take i s) \<and> utf8_ok (drop i s)"
  show "char_boundary s i"
  proof (cases "i = length s")
    case False
    with assms have "drop i s = s ! i # drop (Suc i) s" by (simp add: Cons_nth_drop_Suc)
    with R False assms show ?thesis using utf8_ok_hd [of "s ! i"] by (auto simp: char_boundary_def)
  qed simp
qed

lemma str_get_ok: "utf8_ok s \<Longrightarrow> str_get s a b = Some t \<Longrightarrow> utf8_ok t"
proof -
  assume s: "utf8_ok s" and "str_get s a b = Some t"
  then have ab: "a \<le> b" "b \<le> length s" "char_boundary s a" "char_boundary s b"
    and t: "t = take (b - a) (drop a s)"
    by (auto simp: str_get_def split: if_splits)
  then have "utf8_ok (take b s)" using char_boundary_iff_split [OF s, of b] by simp
  moreover have "take b s = take a s @ t" using ab t
    by (metis add_diff_inverse_nat linorder_not_less take_add)
  moreover have "utf8_ok (take a s)" using char_boundary_iff_split [OF s, of a] ab by simp
  ultimately show "utf8_ok t" by (simp add: utf8_ok_append)
qed

end
