(* ===== verification/Digits.thy ===== *)
theory Digits
  imports Utf8
begin

text \<open>
  Numerals of the wire formats: positional digits in any base, the decimal \<open>Display\<close> of the
  unsigned integers, the zero-padded lower-case hexadecimal \<open>{:032x}\<close>, and the facts that
  make printing and reading inverse to each other.
\<close>

section \<open>Positional digits\<close>

text \<open>The canonical digits of a number, most significant first; zero is the one digit 0.\<close>

function base_digits :: "nat \<Rightarrow> nat \<Rightarrow> nat list" where
  "base_digits b n = (if b < 2 \<or> n < b then [n] else base_digits b (n div b) @ [n mod b])"
  by pat_completeness auto
termination
  by (relation "measure (\<lambda>(b, n). n)") auto

declare base_digits.simps [simp del]

definition digits_value :: "nat \<Rightarrow> nat list \<Rightarrow> nat" where
  "digits_value b ds = foldl (\<lambda>acc d. acc * b + d) 0 ds"

definition canonical_digits :: "nat \<Rightarrow> nat list \<Rightarrow> bool" where
  "canonical_digits b ds \<longleftrightarrow> ds \<noteq> [] \<and> (\<forall>d\<in>set ds. d < b) \<and> (hd ds = 0 \<longrightarrow> ds = [0])"

lemma digits_value_simps [simp]:
  "digits_value b [] = 0"
  "digits_value b (ds @ [d]) = digits_value b ds * b + d"
  by (simp_all add: digits_value_def)

lemma digits_value_append: "digits_value b (xs @ ys) = digits_value b xs * b ^ length ys + digits_value b ys"
proof (induction ys rule: rev_induct)
  case Nil
  then show ?case by simp
next
  case (snoc y ys)
  then show ?case
    by (simp flip: append_assoc add: algebra_simps)
qed

lemma digits_value_Cons [simp]: "digits_value b (d # ds) = d * b ^ length ds + digits_value b ds"
  using digits_value_append [of b "[d]" ds] digits_value_simps(2) [of b "[]" d] by simp

lemma digits_value_replicate0 [simp]: "digits_value b (replicate k 0) = 0"
proof (induction k)
  case (Suc k)
  then show ?case by (simp flip: replicate_append_same)
qed simp

lemma digits_value_bound: "\<forall>d\<in>set ds. d < b \<Longrightarrow> digits_value b ds < b ^ length ds"
proof (induction ds rule: rev_induct)
  case Nil
  then show ?case by simp
next
  case (snoc d ds)
  then have IH: "digits_value b ds + 1 \<le> b ^ length ds" and d: "d < b" by auto
  have "digits_value b ds * b + d < (digits_value b ds + 1) * b" using d by simp
  also have "\<dots> \<le> b ^ length ds * b" using mult_le_mono1 [OF IH] .
  finally show ?case by (simp add: mult.commute)
qed

lemma digits_value_inj:
  "length xs = length ys \<Longrightarrow> \<forall>d\<in>set xs. d < b \<Longrightarrow> \<forall>d\<in>set ys. d < b
    \<Longrightarrow> digits_value b xs = digits_value b ys \<Longrightarrow> xs = ys"
proof (induction xs arbitrary: ys rule: rev_induct)
  case Nil
  then show ?case by simp
next
  case (snoc x xs)
  then obtain y zs where ys: "ys = zs @ [y]" by (cases ys rule: rev_cases) auto
  with snoc.prems have eq: "digits_value b xs * b + x = digits_value b zs * b + y"
    and lt: "x < b" "y < b" by auto
  then have b: "0 < b" by simp
  from eq have "(digits_value b xs * b + x) div b = (digits_value b zs * b + y) div b"
    and "(digits_value b xs * b + x) mod b = (digits_value b zs * b + y) mod b" by simp_all
  with b lt have "digits_value b xs = digits_value b zs" and "x = y" by simp_all
  with snoc ys show ?case by simp
qed

lemma base_digits_value: "2 \<le> b \<Longrightarrow> digits_value b (base_digits b n) = n"
proof (induction b n rule: base_digits.induct)
  case (1 b n)
  show ?case
  proof (cases "n < b")
    case True
    then show ?thesis by (simp add: base_digits.simps)
  next
    case False
    with 1 show ?thesis by (simp add: base_digits.simps [of b n])
  qed
qed

lemma base_digits_canonical: "2 \<le> b \<Longrightarrow> canonical_digits b (base_digits b n)"
proof (induction b n rule: base_digits.induct)
  case (1 b n)
  show ?case
  proof (cases "n < b")
    case True
    then show ?thesis by (simp add: base_digits.simps canonical_digits_def)
  next
    case False
    with "1.prems" have "0 < n div b" by (simp add: div_greater_zero_iff)
    moreover have "canonical_digits b (base_digits b (n div b))" using 1 False by simp
    ultimately have "base_digits b (n div b) \<noteq> [0]"
      using base_digits_value [of b "n div b"] "1.prems" by auto
    then have "hd (base_digits b (n div b)) \<noteq> 0" "base_digits b (n div b) \<noteq> []"
      "\<forall>d\<in>set (base_digits b (n div b)). d < b"
      using \<open>canonical_digits b (base_digits b (n div b))\<close> by (auto simp: canonical_digits_def)
    with False "1.prems" show ?thesis
      by (auto simp: base_digits.simps [of b n] canonical_digits_def)
  qed
qed

lemma base_digits_unique: "2 \<le> b \<Longrightarrow> canonical_digits b ds \<Longrightarrow> base_digits b (digits_value b ds) = ds"
proof (induction ds rule: rev_induct)
  case Nil
  then show ?case by (simp add: canonical_digits_def)
next
  case (snoc d ds)
  show ?case
  proof (cases "ds = []")
    case True
    with snoc.prems show ?thesis by (simp add: canonical_digits_def base_digits.simps)
  next
    case False
    with snoc.prems have d: "d < b" and can: "canonical_digits b ds" and nz: "hd ds \<noteq> 0"
      by (auto simp: canonical_digits_def split: if_splits)
    have "digits_value b ds \<noteq> 0" using False nz snoc.prems(1) by (cases ds) auto
    then have "b \<le> digits_value b ds * b + d" by (cases "digits_value b ds") auto
    then have "\<not> digits_value b ds * b + d < b" by (simp only: not_less)
    with snoc can d show ?thesis by (simp add: base_digits.simps [of b "digits_value b ds * b + d"])
  qed
qed

lemma base_digits_length:
  assumes "2 \<le> b" "n < b ^ k" "0 < k"
  shows "length (base_digits b n) \<le> k"
proof (rule ccontr)
  assume long: "\<not> ?thesis"
  obtain d ds where ds: "base_digits b n = d # ds"
    using base_digits_canonical [OF assms(1), of n] by (cases "base_digits b n") (auto simp: canonical_digits_def)
  with long assms(3) have "ds \<noteq> []" "k \<le> length ds" by auto
  then have "d \<noteq> 0" using base_digits_canonical [OF assms(1), of n] ds by (auto simp: canonical_digits_def)
  have "b ^ k \<le> b ^ length ds" using assms(1) \<open>k \<le> length ds\<close> by (intro power_increasing) auto
  also have "\<dots> \<le> d * b ^ length ds" using \<open>d \<noteq> 0\<close> by simp
  also have "\<dots> \<le> digits_value b (d # ds)" by simp
  finally show False using assms(2) base_digits_value [OF assms(1), of n] ds by simp
qed

section \<open>Digit characters\<close>

text \<open>Lower-case digit characters, for bases up to 16, and the value of a digit byte.\<close>

definition digit_char :: "nat \<Rightarrow> char" where
  "digit_char d = (if d < 10 then char_of (48 + d) else char_of (87 + d))"

definition is_ascii_digit :: "char \<Rightarrow> bool" where
  "is_ascii_digit c \<longleftrightarrow> 48 \<le> code_of c \<and> code_of c < 58"

definition is_lower_hex :: "char \<Rightarrow> bool" where
  "is_lower_hex c \<longleftrightarrow> is_ascii_digit c \<or> (97 \<le> code_of c \<and> code_of c < 103)"

definition digit_of :: "char \<Rightarrow> nat" where
  "digit_of c = (if code_of c < 58 then code_of c - 48 else code_of c - 87)"

lemma code_of_char_of [simp]: "n < 256 \<Longrightarrow> code_of (char_of n) = n"
  by (simp add: code_of_def)

lemma code_of_inj: "code_of c = code_of d \<Longrightarrow> c = d"
  by (simp add: code_of_def of_char_eq_iff)

lemma digit_char_lower_hex: "d < 16 \<Longrightarrow> is_lower_hex (digit_char d)"
  by (auto simp: digit_char_def is_lower_hex_def is_ascii_digit_def)

lemma digit_char_digit: "d < 10 \<Longrightarrow> is_ascii_digit (digit_char d)"
  by (auto simp: digit_char_def is_ascii_digit_def)

lemma digit_of_char [simp]: "d < 16 \<Longrightarrow> digit_of (digit_char d) = d"
  by (auto simp: digit_char_def digit_of_def)

lemma digit_char_of: "is_lower_hex c \<Longrightarrow> digit_char (digit_of c) = c"
  by (rule code_of_inj)
    (auto simp: digit_char_def digit_of_def is_lower_hex_def is_ascii_digit_def)

lemma digit_of_bound: "is_lower_hex c \<Longrightarrow> digit_of c < 16"
  by (auto simp: digit_of_def is_lower_hex_def is_ascii_digit_def)

lemma digit_of_bound10: "is_ascii_digit c \<Longrightarrow> digit_of c < 10"
  by (auto simp: digit_of_def is_ascii_digit_def)

lemma ascii_digit_lower_hex: "is_ascii_digit c \<Longrightarrow> is_lower_hex c"
  by (simp add: is_lower_hex_def)

section \<open>Decimal and hexadecimal strings\<close>

definition dec_string :: "nat \<Rightarrow> string" where
  "dec_string n = map digit_char (base_digits 10 n)"

definition hex_string_padded :: "nat \<Rightarrow> nat \<Rightarrow> string" where
  "hex_string_padded width n =
     (let ds = map digit_char (base_digits 16 n) in replicate (width - length ds) (digit_char 0) @ ds)"

definition value_of_string :: "nat \<Rightarrow> string \<Rightarrow> nat" where
  "value_of_string b s = digits_value b (map digit_of s)"

definition canonical_decimal :: "string \<Rightarrow> bool" where
  "canonical_decimal s \<longleftrightarrow>
     s \<noteq> [] \<and> (\<forall>c\<in>set s. is_ascii_digit c) \<and> (1 < length s \<longrightarrow> hd s \<noteq> CHR ''0'')"

lemma zero_char: "CHR ''0'' = digit_char 0"
  by (rule code_of_inj) (simp add: digit_char_def code_of_def)

lemma digit_char_inj: "a < 16 \<Longrightarrow> b < 16 \<Longrightarrow> digit_char a = digit_char b \<longleftrightarrow> a = b"
  by (metis digit_of_char)

lemma digit_of_zero_iff: "is_ascii_digit c \<Longrightarrow> digit_of c = 0 \<longleftrightarrow> c = CHR ''0''"
  using digit_char_of [OF ascii_digit_lower_hex, of c] by (metis zero_char digit_of_char zero_less_numeral)

lemma canonical_decimal_digits:
  "canonical_decimal s \<Longrightarrow> canonical_digits 10 (map digit_of s)"
  by (cases s) (auto simp: canonical_decimal_def canonical_digits_def digit_of_bound10 digit_of_zero_iff)

lemma dec_string_canonical: "canonical_decimal (dec_string n)"
proof -
  have can: "canonical_digits 10 (base_digits 10 n)" by (rule base_digits_canonical) simp
  then have lt: "\<forall>d\<in>set (base_digits 10 n). d < 10" by (simp add: canonical_digits_def)
  have "hd (base_digits 10 n) \<noteq> 0" if "1 < length (base_digits 10 n)"
    using can that by (auto simp: canonical_digits_def)
  moreover have "hd (dec_string n) = CHR ''0'' \<longleftrightarrow> hd (base_digits 10 n) = 0"
    using can lt by (cases "base_digits 10 n") (auto simp: dec_string_def canonical_digits_def zero_char digit_char_inj)
  ultimately show ?thesis
    using can lt by (auto simp: canonical_decimal_def dec_string_def canonical_digits_def digit_char_digit)
qed

lemma value_dec_string [simp]: "value_of_string 10 (dec_string n) = n"
proof -
  have "\<forall>d\<in>set (base_digits 10 n). d < 10"
    using base_digits_canonical [of 10 n] by (simp add: canonical_digits_def)
  then have "map digit_of (dec_string n) = base_digits 10 n"
    by (auto simp: dec_string_def intro!: map_idI)
  then show ?thesis by (simp add: value_of_string_def base_digits_value)
qed

lemma dec_string_value: "canonical_decimal s \<Longrightarrow> dec_string (value_of_string 10 s) = s"
  using base_digits_unique [OF _ canonical_decimal_digits, of s]
  by (auto simp: dec_string_def value_of_string_def canonical_decimal_def o_def
      intro!: map_idI digit_char_of ascii_digit_lower_hex)

lemma dec_string_inj [simp]: "dec_string m = dec_string n \<longleftrightarrow> m = n"
  by (metis value_dec_string)

lemma dec_string_nonempty [simp]: "dec_string n \<noteq> []"
  using dec_string_canonical [of n] by (simp add: canonical_decimal_def)

lemma dec_string_digits: "c \<in> set (dec_string n) \<Longrightarrow> is_ascii_digit c"
  using dec_string_canonical [of n] by (simp add: canonical_decimal_def)

lemma hex_string_length: "n < 16 ^ w \<Longrightarrow> 0 < w \<Longrightarrow> length (hex_string_padded w n) = w"
  using base_digits_length [of 16 n w] by (simp add: hex_string_padded_def Let_def)

lemma hex_string_lower_hex: "c \<in> set (hex_string_padded w n) \<Longrightarrow> is_lower_hex c"
  using base_digits_canonical [of 16 n]
  by (auto simp: hex_string_padded_def Let_def canonical_digits_def digit_char_lower_hex)

lemma value_hex_string [simp]: "value_of_string 16 (hex_string_padded w n) = n"
proof -
  have "\<forall>d\<in>set (base_digits 16 n). d < 16"
    using base_digits_canonical [of 16 n] by (simp add: canonical_digits_def)
  then have "map digit_of (map digit_char (base_digits 16 n)) = base_digits 16 n"
    by (auto intro!: map_idI)
  then show ?thesis
    by (simp add: value_of_string_def hex_string_padded_def Let_def digits_value_append base_digits_value)
qed

lemma hex_string_value:
  assumes "\<forall>c\<in>set s. is_lower_hex c" "length s = w" "0 < w"
  shows "hex_string_padded w (value_of_string 16 s) = s"
proof -
  let ?n = "value_of_string 16 s"
  have digs: "\<forall>d\<in>set (map digit_of s). d < 16" using assms(1) digit_of_bound by auto
  then have "?n < 16 ^ w" using digits_value_bound [OF digs] assms(2) by (simp add: value_of_string_def)
  then have len: "length (hex_string_padded w ?n) = w" using assms(3) by (rule hex_string_length)
  have hex: "\<forall>c\<in>set (hex_string_padded w ?n). is_lower_hex c" using hex_string_lower_hex by blast
  then have "\<forall>d\<in>set (map digit_of (hex_string_padded w ?n)). d < 16" using digit_of_bound by auto
  then have "map digit_of (hex_string_padded w ?n) = map digit_of s"
    using value_hex_string [of w ?n] len assms(2) digs
    by (intro digits_value_inj [where b = 16]) (auto simp: value_of_string_def)
  then have "map digit_char (map digit_of (hex_string_padded w ?n)) = map digit_char (map digit_of s)"
    by simp
  moreover have "map digit_char (map digit_of t) = t" if "\<forall>c\<in>set t. is_lower_hex c" for t
    using that by (auto intro!: map_idI digit_char_of)
  ultimately show ?thesis using hex assms(1) by metis
qed

end
