(* ===== verification/Wire_Tokens.thy ===== *)
theory Wire_Tokens
  imports Digits
begin

text \<open>
  The three textual tokens of the protocol (\<open>src/protocol.rs\<close>): the 128-bit snapshot ID of
  32 lower-case hexadecimal characters, the canonical \<open>LINE@BYTE\<close> position, and the
  \<open>expect\<close> token of a write (\<open>absent\<close> or a snapshot ID).  The contract they share, printing
  and parsing being inverse to each other, is the locale \<open>wire_token\<close>; each token
  interprets it with the code's \<open>Display\<close> and \<open>FromStr\<close>.
\<close>

section \<open>The contract of a token\<close>

locale wire_token =
  fixes show_tok :: "'a \<Rightarrow> string"
    and parse_tok :: "string \<Rightarrow> 'e + 'a"
    and valid_tok :: "'a \<Rightarrow> bool"
  assumes parse_show: "valid_tok x \<Longrightarrow> parse_tok (show_tok x) = Inr x"
    and show_parse: "parse_tok s = Inr x \<Longrightarrow> show_tok x = s \<and> valid_tok x"
begin

lemma show_inj: "valid_tok x \<Longrightarrow> valid_tok y \<Longrightarrow> show_tok x = show_tok y \<longleftrightarrow> x = y"
  by (metis parse_show sum.inject(2))

lemma parse_inj: "parse_tok s = Inr x \<Longrightarrow> parse_tok t = Inr x \<Longrightarrow> s = t"
  using show_parse by blast

lemma parse_iff: "parse_tok s = Inr x \<longleftrightarrow> valid_tok x \<and> s = show_tok x"
  using parse_show show_parse by blast

lemma parse_rejects: "(\<exists>e. parse_tok s = Inl e) \<longleftrightarrow> (\<forall>x. valid_tok x \<longrightarrow> s \<noteq> show_tok x)"
proof
  assume "\<exists>e. parse_tok s = Inl e"
  then show "\<forall>x. valid_tok x \<longrightarrow> s \<noteq> show_tok x" using parse_show by force
next
  assume "\<forall>x. valid_tok x \<longrightarrow> s \<noteq> show_tok x"
  then show "\<exists>e. parse_tok s = Inl e" using show_parse by (cases "parse_tok s") auto
qed

end

section \<open>Snapshot IDs\<close>

definition SNAPSHOT_ID_HEX_LEN :: nat where
  "SNAPSHOT_ID_HEX_LEN = 32"

datatype snapshot_id = SnapshotId (as_u128: u128)

text \<open>The derived order of the tuple struct.\<close>

instantiation snapshot_id :: linorder
begin

definition less_eq_snapshot_id :: "snapshot_id \<Rightarrow> snapshot_id \<Rightarrow> bool" where
  "less_eq_snapshot_id a b \<longleftrightarrow> as_u128 a \<le> as_u128 b"

definition less_snapshot_id :: "snapshot_id \<Rightarrow> snapshot_id \<Rightarrow> bool" where
  "less_snapshot_id a b \<longleftrightarrow> as_u128 a < as_u128 b"

instance
  by standard (auto simp: less_eq_snapshot_id_def less_snapshot_id_def snapshot_id.expand)

end

definition snapshot_id_display :: "snapshot_id \<Rightarrow> string" where
  "snapshot_id_display i = hex_string_padded 32 (unat (as_u128 i))"

datatype snapshot_id_parse_error = InvalidLength | InvalidCharacter

text \<open>
  \<open>u128::from_str_radix(_, 16)\<close> on the lower-case digits its one caller has checked: the
  digits accumulate with an overflow check.
\<close>

fun u128_radix16 :: "u128 \<Rightarrow> string \<Rightarrow> u128 option" where
  "u128_radix16 acc [] = Some acc"
| "u128_radix16 acc (c # s) =
     (if unat acc * 16 + digit_of c < 2 ^ 128
      then u128_radix16 (acc * 16 + of_nat (digit_of c)) s else None)"

definition snapshot_id_from_str :: "string \<Rightarrow> snapshot_id_parse_error + snapshot_id" where
  "snapshot_id_from_str input =
     (if length input \<noteq> SNAPSHOT_ID_HEX_LEN then Inl InvalidLength
      else if \<not> list_all is_lower_hex input then Inl InvalidCharacter
      else map_err (\<lambda>_. InvalidCharacter)
             (ok_or () (map_option SnapshotId (u128_radix16 0 input))))"

lemma value_of_string_Cons:
  "value_of_string b (c # s) = digit_of c * b ^ length s + value_of_string b s"
  by (simp add: value_of_string_def)

lemma value_of_string_Nil [simp]: "value_of_string b [] = 0"
  by (simp add: value_of_string_def)

lemma u128_radix16_value:
  "unat acc * 16 ^ length s + value_of_string 16 s < 2 ^ 128 \<Longrightarrow>
    u128_radix16 acc s = Some (of_nat (unat acc * 16 ^ length s + value_of_string 16 s))"
proof (induction s arbitrary: acc)
  case Nil
  then show ?case by simp
next
  case (Cons c s)
  let ?n = "unat acc * 16 + digit_of c"
  have total: "unat acc * 16 ^ length (c # s) + value_of_string 16 (c # s)
      = ?n * 16 ^ length s + value_of_string 16 s"
    by (simp add: value_of_string_Cons algebra_simps)
  have "?n \<le> ?n * 16 ^ length s" by simp
  then have n: "?n < 2 ^ 128" using Cons.prems total by linarith
  have "acc * 16 + of_nat (digit_of c) = (of_nat ?n :: u128)" by simp
  then have "unat (acc * 16 + of_nat (digit_of c)) = ?n"
    using n by (simp add: unat_of_nat take_bit_nat_eq_self del: of_nat_add of_nat_mult)
  with Cons.IH [of "acc * 16 + of_nat (digit_of c)"] Cons.prems n total show ?case by simp
qed

lemma value_lower_hex_bound: "list_all is_lower_hex s \<Longrightarrow> value_of_string 16 s < 16 ^ length s"
  using digits_value_bound [of "map digit_of s" 16] digit_of_bound
  by (auto simp: value_of_string_def list_all_iff)

lemma snapshot_id_from_str_eq:
  assumes "length s = 32" "list_all is_lower_hex s"
  shows "snapshot_id_from_str s = Inr (SnapshotId (of_nat (value_of_string 16 s)))"
proof -
  have "value_of_string 16 s < 2 ^ 128" using value_lower_hex_bound [OF assms(2)] assms(1) by simp
  then show ?thesis
    using u128_radix16_value [of 0 s] assms by (simp add: snapshot_id_from_str_def SNAPSHOT_ID_HEX_LEN_def)
qed

lemma unat_u128_bound: "unat (w :: u128) < 16 ^ 32"
proof -
  have "unat w < 2 ^ LENGTH(128)" by (rule unsigned_less)
  then show ?thesis by simp
qed

interpretation sid: wire_token snapshot_id_display snapshot_id_from_str "\<lambda>_. True"
proof (standard, goal_cases)
  case (1 i)
  let ?s = "snapshot_id_display i"
  have "length ?s = 32" using hex_string_length [OF unat_u128_bound] by (simp add: snapshot_id_display_def)
  moreover have "list_all is_lower_hex ?s"
    using hex_string_lower_hex by (auto simp: snapshot_id_display_def list_all_iff)
  ultimately show ?case by (simp add: snapshot_id_from_str_eq snapshot_id_display_def)
next
  case (2 s i)
  then have s: "length s = 32" "list_all is_lower_hex s"
    by (auto simp: snapshot_id_from_str_def SNAPSHOT_ID_HEX_LEN_def split: if_splits)
  then have "i = SnapshotId (of_nat (value_of_string 16 s))"
    using 2 by (simp add: snapshot_id_from_str_eq)
  moreover have "value_of_string 16 s < 2 ^ 128" using value_lower_hex_bound [OF s(2)] s(1) by simp
  ultimately have "unat (as_u128 i) = value_of_string 16 s"
    by (simp add: unat_of_nat take_bit_nat_eq_self)
  then show ?case
    using hex_string_value [of s 32] s by (simp add: snapshot_id_display_def list_all_iff)
qed

lemma snapshot_id_display_length: "length (snapshot_id_display i) = 32"
  using hex_string_length [OF unat_u128_bound] by (simp add: snapshot_id_display_def)

lemma snapshot_id_display_chars: "c \<in> set (snapshot_id_display i) \<Longrightarrow> is_lower_hex c"
  by (auto simp: snapshot_id_display_def dest: hex_string_lower_hex)

section \<open>Positions\<close>

datatype position = Position (pos_line: u64) (pos_byte: u64)

text \<open>The derived order: the line first, then the byte.\<close>

instantiation position :: linorder
begin

definition less_eq_position :: "position \<Rightarrow> position \<Rightarrow> bool" where
  "less_eq_position p q \<longleftrightarrow> pos_line p < pos_line q \<or> (pos_line p = pos_line q \<and> pos_byte p \<le> pos_byte q)"

definition less_position :: "position \<Rightarrow> position \<Rightarrow> bool" where
  "less_position p q \<longleftrightarrow> pos_line p < pos_line q \<or> (pos_line p = pos_line q \<and> pos_byte p < pos_byte q)"

instance
  by standard (auto simp: less_eq_position_def less_position_def position.expand)

end

datatype position_parse_error =
  MissingSeparator | ExtraSeparator | InvalidLine | ZeroLine | LineOverflow | InvalidByte | ByteOverflow

datatype decimal_component = LineComponent | ByteComponent

definition position_new :: "u64 \<Rightarrow> u64 \<Rightarrow> position_parse_error + position" where
  "position_new line byte = (if line = 0 then Inl ZeroLine else Inr (Position line byte))"

definition position_display :: "position \<Rightarrow> string" where
  "position_display p = dec_string (unat (pos_line p)) @ ''@'' @ dec_string (unat (pos_byte p))"

text \<open>The accumulating loop of \<open>parse_canonical_decimal\<close>.\<close>

fun decimal_loop :: "position_parse_error \<Rightarrow> u64 \<Rightarrow> string \<Rightarrow> position_parse_error + u64" where
  "decimal_loop overflow value [] = Inr value"
| "decimal_loop overflow value (c # s) =
     rbind (ok_or overflow
             (Option.bind (checked_mul_u64 value 10)
               (\<lambda>current. checked_add_u64 current (of_nat (code_of c - 48)))))
       (\<lambda>value'. decimal_loop overflow value' s)"

definition parse_canonical_decimal ::
    "string \<Rightarrow> decimal_component \<Rightarrow> position_parse_error + u64" where
  "parse_canonical_decimal input component =
     (let invalid = (case component of LineComponent \<Rightarrow> InvalidLine | ByteComponent \<Rightarrow> InvalidByte);
          overflow = (case component of LineComponent \<Rightarrow> LineOverflow | ByteComponent \<Rightarrow> ByteOverflow)
      in if input = [] \<or> (1 < length input \<and> hd input = CHR ''0'') \<or> \<not> list_all is_ascii_digit input
         then Inl invalid
         else rbind (decimal_loop overflow 0 input)
           (\<lambda>value. if component = LineComponent \<and> value = 0 then Inl ZeroLine else Inr value))"

text \<open>\<open>str::split_once\<close> at a byte: what precedes its first occurrence and what follows it.\<close>

definition split_once :: "char \<Rightarrow> string \<Rightarrow> (string \<times> string) option" where
  "split_once c s =
     (if c \<in> set s then Some (takeWhile (\<lambda>x. x \<noteq> c) s, tl (dropWhile (\<lambda>x. x \<noteq> c) s)) else None)"

definition position_from_str :: "string \<Rightarrow> position_parse_error + position" where
  "position_from_str input =
     rbind (ok_or MissingSeparator (split_once CHR ''@'' input)) (\<lambda>(line, byte).
       if CHR ''@'' \<in> set byte then Inl ExtraSeparator
       else rbind (parse_canonical_decimal line LineComponent) (\<lambda>l.
            rbind (parse_canonical_decimal byte ByteComponent) (\<lambda>b.
            position_new l b)))"

definition valid_position :: "position \<Rightarrow> bool" where
  "valid_position p \<longleftrightarrow> pos_line p \<noteq> 0"

lemma decimal_loop_value:
  "list_all is_ascii_digit s \<Longrightarrow>
    decimal_loop e v s =
      (if unat v * 10 ^ length s + value_of_string 10 s \<le> usize_max
       then Inr (of_nat (unat v * 10 ^ length s + value_of_string 10 s)) else Inl e)"
proof (induction s arbitrary: v)
  case Nil
  then show ?case by simp
next
  case (Cons c s)
  then have c: "is_ascii_digit c" "digit_of c < 10" "list_all is_ascii_digit s"
    and d: "code_of c - 48 = digit_of c"
    by (simp_all add: digit_of_bound10) (simp add: digit_of_def is_ascii_digit_def)
  let ?n = "unat v * 10 + digit_of c"
  have total: "unat v * 10 ^ length (c # s) + value_of_string 10 (c # s)
      = ?n * 10 ^ length s + value_of_string 10 s"
    by (simp add: value_of_string_Cons algebra_simps)
  have ge: "?n \<le> ?n * 10 ^ length s" by simp
  show ?case
  proof (cases "?n \<le> usize_max")
    case True
    have m: "unat (v * 10) = unat v * 10" "unat (of_nat (digit_of c) :: u64) = digit_of c"
      using True c(2) by (simp_all add: usize_max_def unat_word_ariths)
    have n: "unat (of_nat ?n :: u64) = ?n" using True by (rule unat_of_nat_u64)
    have "checked_mul_u64 v 10 = Some (v * 10)" using True by (simp add: checked_mul_u64_def)
    moreover have "checked_add_u64 (v * 10) (of_nat (digit_of c)) = Some (of_nat ?n)"
      using m n by (simp add: checked_add_u64_eq_Some del: of_nat_add of_nat_mult)
    ultimately show ?thesis
      using Cons.IH [OF c(3), of "of_nat ?n"] n total d by (simp del: of_nat_add of_nat_mult)
  next
    case False
    then have "\<not> unat v * 10 ^ length (c # s) + value_of_string 10 (c # s) \<le> usize_max"
      using ge total by linarith
    moreover have "Option.bind (checked_mul_u64 v 10)
        (\<lambda>w. checked_add_u64 w (of_nat (digit_of c))) = None"
    proof (cases "unat v * 10 \<le> usize_max")
      case True
      then have "unat (v * 10) = unat v * 10" "unat (of_nat (digit_of c) :: u64) = digit_of c"
        using c(2) by (simp_all add: usize_max_def unat_word_ariths)
      with True False show ?thesis by (simp add: checked_mul_u64_def checked_add_u64_def)
    qed (simp add: checked_mul_u64_def)
    ultimately show ?thesis using d by simp
  qed
qed

lemma u64_of_value: "unat (w :: u64) = n \<longleftrightarrow> n \<le> usize_max \<and> w = of_nat n"
  by (auto simp flip: word_unat_eq_iff)

lemma parse_canonical_decimal_eq_Inr:
  "parse_canonical_decimal s part = Inr w \<longleftrightarrow>
    canonical_decimal s \<and> unat w = value_of_string 10 s \<and> \<not> (part = LineComponent \<and> w = 0)"
proof (cases "canonical_decimal s")
  case True
  then have all: "list_all is_ascii_digit s" and ok: "s \<noteq> []" "\<not> (1 < length s \<and> hd s = CHR ''0'')"
    by (simp_all add: canonical_decimal_def list_all_iff)
  have loop: "decimal_loop e 0 s =
      (if value_of_string 10 s \<le> usize_max then Inr (of_nat (value_of_string 10 s)) else Inl e)" for e
    using decimal_loop_value [OF all, of e 0] by simp
  show ?thesis
    using all ok True loop
    by (auto simp: parse_canonical_decimal_def u64_of_value Let_def split: if_splits)
next
  case False
  then show ?thesis
    by (auto simp: parse_canonical_decimal_def canonical_decimal_def list_all_iff)
qed

lemma parse_dec_string [simp]:
  "\<not> (part = LineComponent \<and> w = 0) \<Longrightarrow> parse_canonical_decimal (dec_string (unat w)) part = Inr w"
  by (simp add: parse_canonical_decimal_eq_Inr dec_string_canonical)

lemma dec_string_no_at: "CHR ''@'' \<notin> set (dec_string n)"
  using dec_string_digits [of "CHR ''@''" n] by (auto simp: is_ascii_digit_def code_of_def)

lemma split_once_append: "c \<notin> set a \<Longrightarrow> split_once c (a @ c # b) = Some (a, b)"
  by (induction a) (auto simp: split_once_def)

lemma split_once_eq_Some: "split_once c s = Some (a, b) \<Longrightarrow> s = a @ c # b \<and> c \<notin> set a"
proof -
  assume eq: "split_once c s = Some (a, b)"
  then have "c \<in> set s" by (auto simp: split_once_def split: if_splits)
  then obtain x y where "s = x @ c # y" "c \<notin> set x" by (metis split_list_first)
  with eq split_once_append [of c x y] show ?thesis by simp
qed

lemma position_from_str_eq_Inr:
  "position_from_str s = Inr p \<longleftrightarrow>
    (\<exists>l b. s = l @ ''@'' @ b \<and> parse_canonical_decimal l LineComponent = Inr (pos_line p) \<and>
      parse_canonical_decimal b ByteComponent = Inr (pos_byte p))"
proof
  assume "position_from_str s = Inr p"
  then show "\<exists>l b. s = l @ ''@'' @ b \<and> parse_canonical_decimal l LineComponent = Inr (pos_line p) \<and>
      parse_canonical_decimal b ByteComponent = Inr (pos_byte p)"
    by (auto simp: position_from_str_def result_iffs position_new_def dest!: split_once_eq_Some
        split: if_splits) blast
next
  assume "\<exists>l b. s = l @ ''@'' @ b \<and> parse_canonical_decimal l LineComponent = Inr (pos_line p) \<and>
      parse_canonical_decimal b ByteComponent = Inr (pos_byte p)"
  then obtain l b where s: "s = l @ ''@'' @ b"
    and l: "parse_canonical_decimal l LineComponent = Inr (pos_line p)"
    and b: "parse_canonical_decimal b ByteComponent = Inr (pos_byte p)" by blast
  have digits: "\<forall>c\<in>set l. is_ascii_digit c" "\<forall>c\<in>set b. is_ascii_digit c"
    using l b by (auto simp: parse_canonical_decimal_eq_Inr canonical_decimal_def)
  have at: "\<not> is_ascii_digit CHR ''@''" by (simp add: is_ascii_digit_def code_of_def)
  have "CHR ''@'' \<notin> set l" "CHR ''@'' \<notin> set b" using digits at by auto
  moreover have "pos_line p \<noteq> 0" using l by (auto simp: parse_canonical_decimal_eq_Inr)
  ultimately show "position_from_str s = Inr p"
    using s l b by (simp add: position_from_str_def split_once_append position_new_def)
qed

interpretation posn: wire_token position_display position_from_str valid_position
proof (standard, goal_cases)
  case (1 p)
  then have "parse_canonical_decimal (dec_string (unat (pos_line p))) LineComponent = Inr (pos_line p)"
    and "parse_canonical_decimal (dec_string (unat (pos_byte p))) ByteComponent = Inr (pos_byte p)"
    by (simp_all add: valid_position_def)
  then show ?case unfolding position_from_str_eq_Inr position_display_def by blast
next
  case (2 s p)
  then obtain l b where s: "s = l @ ''@'' @ b"
    and l: "parse_canonical_decimal l LineComponent = Inr (pos_line p)"
    and b: "parse_canonical_decimal b ByteComponent = Inr (pos_byte p)"
    by (auto simp: position_from_str_eq_Inr)
  then show ?case
    by (auto simp: position_display_def valid_position_def parse_canonical_decimal_eq_Inr dec_string_value)
qed

section \<open>Write expectations\<close>

datatype write_expect = Absent | ExpectSnapshot snapshot_id

datatype write_expect_parse_error = InvalidExpect

fun write_expect_display :: "write_expect \<Rightarrow> string" where
  "write_expect_display Absent = ''absent''"
| "write_expect_display (ExpectSnapshot i) = snapshot_id_display i"

definition write_expect_from_str :: "string \<Rightarrow> write_expect_parse_error + write_expect" where
  "write_expect_from_str input =
     (if input = ''absent'' then Inr Absent
      else map_err (\<lambda>_. InvalidExpect)
             (rbind (snapshot_id_from_str input) (\<lambda>i. Inr (ExpectSnapshot i))))"

interpretation wexp: wire_token write_expect_display write_expect_from_str "\<lambda>_. True"
proof (standard, goal_cases)
  case (1 x)
  show ?case
  proof (cases x)
    case (ExpectSnapshot i)
    have "length (snapshot_id_display i) \<noteq> length ''absent''"
      by (simp add: snapshot_id_display_length)
    then have "snapshot_id_display i \<noteq> ''absent''" by metis
    with ExpectSnapshot show ?thesis by (simp add: write_expect_from_str_def sid.parse_show)
  qed (simp add: write_expect_from_str_def)
next
  case (2 s x)
  then show ?case
    by (auto simp: write_expect_from_str_def result_iffs sid.parse_iff split: if_splits)
qed

section \<open>Properties\<close>

text \<open>
  Property C37.  A string is a snapshot token exactly when it is the 32-digit lower-case form of
  an identity: printing and parsing are inverse to each other in both directions.
\<close>

theorem snapshot_token_roundtrip:
  "snapshot_id_from_str s = Inr i \<longleftrightarrow> s = snapshot_id_display i"
  using sid.parse_iff by simp

text \<open>
  Property C38.  A string is a position token exactly when it is the canonical \<open>LINE@BYTE\<close> form
  of a position with a line of at least one: no leading zeros, signs or spaces are accepted, no
  number overflows, and every such position can be written.
\<close>

theorem position_token_roundtrip:
  "position_from_str s = Inr p \<longleftrightarrow> pos_line p \<noteq> 0 \<and> s = position_display p"
  using posn.parse_iff by (simp only: valid_position_def)

text \<open>
  The write expectation reads back what it prints: the word \<open>absent\<close> or a snapshot
  token, and these two never collide.
\<close>

theorem write_expect_roundtrip:
  "write_expect_from_str s = Inr x \<longleftrightarrow> s = write_expect_display x"
  using wexp.parse_iff by simp

end
