(* ===== verification/Errors.thy ===== *)
theory Errors
  imports Wire_Tokens
begin

text \<open>
  Errors of the protocol (\<open>src/protocol.rs\<close>): the stable error codes, the contract errors of
  validation and of the reference model with their diagnostics, the snapshot header, and the
  structured tool errors with their recovery payloads.
\<close>

section \<open>Limits\<close>

definition MAX_PAGE_LINES :: u16 where "MAX_PAGE_LINES = 2000"
definition MAX_GREP_MATCHES :: u16 where "MAX_GREP_MATCHES = 200"
definition MAX_GLOB_RESULTS :: u16 where "MAX_GLOB_RESULTS = 1000"
definition MAX_CONTEXT_LINES :: u16 where "MAX_CONTEXT_LINES = 2000"
definition MAX_EDIT_OPERATIONS :: nat where "MAX_EDIT_OPERATIONS = 1024"
definition MAX_FILE_BYTES :: u64 where "MAX_FILE_BYTES = 9223372036854775807"
definition CONFLICT_CONTEXT_LINES :: nat where "CONFLICT_CONTEXT_LINES = 5"

lemmas limit_defs =
  MAX_PAGE_LINES_def MAX_GREP_MATCHES_def MAX_GLOB_RESULTS_def MAX_CONTEXT_LINES_def
  MAX_EDIT_OPERATIONS_def MAX_FILE_BYTES_def CONFLICT_CONTEXT_LINES_def

section \<open>Error codes\<close>

datatype error_code =
  CodeInvalidRequest | CodeInvalidSnapshot | CodeInvalidPosition | CodeInvalidRange
| CodeOverlappingEdits | CodeInvalidUtf8 | CodeBinaryFile | CodeFileTooLarge
| CodeNotFound | CodeNotAFile | CodePermissionDenied | CodeRootEscape
| CodeSnapshotConflict | CodeAlreadyExists | CodeInvalidPattern | CodeIo

fun code_retryable :: "error_code \<Rightarrow> bool" where
  "code_retryable CodeNotFound = True"
| "code_retryable CodePermissionDenied = True"
| "code_retryable CodeSnapshotConflict = True"
| "code_retryable CodeAlreadyExists = True"
| "code_retryable CodeIo = True"
| "code_retryable _ = False"

section \<open>Contract errors\<close>

datatype contract_error =
  InvalidReadLimit u16
| InvalidGrepLimit u16
| InvalidContextLimit u16
| InvalidGlobLimit u16
| ContextOutsideContentMode
| ZeroStartLine
| StartLineWithCursor
| EmptyEditBatch
| TooManyEdits nat
| NulReplacement nat nat
| NulWriteContent nat
| NulFile u64
| InvalidUtf8 u64
| FileTooLarge u64
| InvalidLineCount
| InvalidPosition position
| ReversedRange position position
| OverlappingEdits nat nat
| OutputLengthOverflow
| TooManyConflictLines nat

fun contract_code :: "contract_error \<Rightarrow> error_code" where
  "contract_code (InvalidReadLimit _) = CodeInvalidRequest"
| "contract_code (InvalidGrepLimit _) = CodeInvalidRequest"
| "contract_code (InvalidContextLimit _) = CodeInvalidRequest"
| "contract_code (InvalidGlobLimit _) = CodeInvalidRequest"
| "contract_code ContextOutsideContentMode = CodeInvalidRequest"
| "contract_code ZeroStartLine = CodeInvalidRequest"
| "contract_code StartLineWithCursor = CodeInvalidRequest"
| "contract_code EmptyEditBatch = CodeInvalidRequest"
| "contract_code (TooManyEdits _) = CodeInvalidRequest"
| "contract_code InvalidLineCount = CodeInvalidRequest"
| "contract_code (TooManyConflictLines _) = CodeInvalidRequest"
| "contract_code (NulReplacement _ _) = CodeBinaryFile"
| "contract_code (NulWriteContent _) = CodeBinaryFile"
| "contract_code (NulFile _) = CodeBinaryFile"
| "contract_code (InvalidUtf8 _) = CodeInvalidUtf8"
| "contract_code (FileTooLarge _) = CodeFileTooLarge"
| "contract_code OutputLengthOverflow = CodeFileTooLarge"
| "contract_code (InvalidPosition _) = CodeInvalidPosition"
| "contract_code (ReversedRange _ _) = CodeInvalidRange"
| "contract_code (OverlappingEdits _ _) = CodeOverlappingEdits"

text \<open>The diagnostics of the \<open>#[error(...)]\<close> attributes.\<close>

fun contract_message :: "contract_error \<Rightarrow> string" where
  "contract_message (InvalidReadLimit limit) =
     ''read limit must be in 1..='' @ dec_string (unat MAX_PAGE_LINES) @ '', got '' @ dec_string (unat limit)"
| "contract_message (InvalidGrepLimit limit) =
     ''grep max_matches must be in 1..='' @ dec_string (unat MAX_GREP_MATCHES) @ '', got '' @ dec_string (unat limit)"
| "contract_message (InvalidContextLimit limit) =
     ''grep context must be <= '' @ dec_string (unat MAX_CONTEXT_LINES) @ '', got '' @ dec_string (unat limit)"
| "contract_message (InvalidGlobLimit limit) =
     ''glob max_results must be in 1..='' @ dec_string (unat MAX_GLOB_RESULTS) @ '', got '' @ dec_string (unat limit)"
| "contract_message ContextOutsideContentMode =
     ''grep context requires output_mode '' @ [CHR 0x22] @ ''content'' @ [CHR 0x22]"
| "contract_message ZeroStartLine = ''read start_line must be at least 1''"
| "contract_message StartLineWithCursor = ''read start_line cannot be combined with a cursor''"
| "contract_message EmptyEditBatch = ''edit batch must contain at least one operation''"
| "contract_message (TooManyEdits operations) =
     ''edit batch has '' @ dec_string operations @ '' operations; maximum is '' @ dec_string MAX_EDIT_OPERATIONS"
| "contract_message (NulReplacement index byte) =
     ''edit '' @ dec_string index @ '' replacement contains NUL at byte '' @ dec_string byte"
| "contract_message (NulWriteContent byte) = ''write content contains NUL at byte '' @ dec_string byte"
| "contract_message (NulFile byte) = ''file contains NUL at byte '' @ dec_string (unat byte)"
| "contract_message (InvalidUtf8 valid_up_to) =
     ''file is invalid UTF-8 at byte '' @ dec_string (unat valid_up_to)"
| "contract_message (FileTooLarge bs) =
     ''file has '' @ dec_string (unat bs) @ '' bytes; maximum is '' @ dec_string (unat MAX_FILE_BYTES)"
| "contract_message InvalidLineCount = ''snapshot line count must be at least one''"
| "contract_message (InvalidPosition p) =
     ''position '' @ position_display p @ '' is not a valid boundary in the snapshot''"
| "contract_message (ReversedRange s e) =
     ''range start '' @ position_display s @ '' follows end '' @ position_display e"
| "contract_message (OverlappingEdits i j) =
     ''edit '' @ dec_string i @ '' overlaps edit '' @ dec_string j"
| "contract_message OutputLengthOverflow = ''edited output length overflowed''"
| "contract_message (TooManyConflictLines n) =
     ''snapshot conflict has '' @ dec_string n @ '' context lines; maximum is '' @ dec_string CONFLICT_CONTEXT_LINES"

definition validate_file_size :: "u64 \<Rightarrow> contract_error + unit" where
  "validate_file_size bs = (if bs > MAX_FILE_BYTES then Inl (FileTooLarge bs) else Inr ())"

text \<open>
  The recurring \<open>u64::try_from(len).map_err(|_| FileTooLarge { bytes: u64::MAX })\<close> followed by
  the size check.
\<close>

definition validate_len :: "nat \<Rightarrow> contract_error + u64" where
  "validate_len n =
     rbind (ok_or (FileTooLarge (- 1)) (u64_of_usize n)) (\<lambda>w.
     rbind (validate_file_size w) (\<lambda>_. Inr w))"

definition max_file_len :: nat where
  "max_file_len = 9223372036854775807"

lemma max_file_len_le [simp]: "n \<le> max_file_len \<Longrightarrow> n \<le> usize_max"
  by (simp add: max_file_len_def usize_max_def)

lemma above_max_file_bytes: "MAX_FILE_BYTES < w \<longleftrightarrow> \<not> unat w \<le> max_file_len"
  by (simp add: MAX_FILE_BYTES_def max_file_len_def word_less_nat_alt not_le)

lemma validate_file_size_eq_Inr [simp]: "validate_file_size w = Inr u \<longleftrightarrow> unat w \<le> max_file_len"
  by (simp add: validate_file_size_def above_max_file_bytes)

lemma validate_len_eq_Inr: "validate_len n = Inr w \<longleftrightarrow> n \<le> max_file_len \<and> w = of_nat n"
  by (auto simp: validate_len_def result_iffs u64_of_usize_def)

lemma validate_len_cases:
  "validate_len n = (if n \<le> max_file_len then Inr (of_nat n)
     else if n \<le> usize_max then Inl (FileTooLarge (of_nat n)) else Inl (FileTooLarge (- 1)))"
proof -
  show ?thesis
    by (auto simp: validate_len_def u64_of_usize_def validate_file_size_def above_max_file_bytes)
qed

section \<open>Snapshot headers and cursors\<close>

record snapshot_header =
  hdr_path :: string
  hdr_snapshot :: snapshot_id
  hdr_lines :: u64
  hdr_bytes :: u64

definition snapshot_header_new ::
    "string \<Rightarrow> snapshot_id \<Rightarrow> u64 \<Rightarrow> u64 \<Rightarrow> contract_error + snapshot_header" where
  "snapshot_header_new path snapshot lines bs =
     (if lines = 0 then Inl InvalidLineCount
      else rbind (validate_file_size bs) (\<lambda>_.
        Inr \<lparr>hdr_path = path, hdr_snapshot = snapshot, hdr_lines = lines, hdr_bytes = bs\<rparr>))"

text \<open>\<open>json\<close> stands for \<open>serde_json::to_string\<close> on a string.\<close>

definition snapshot_header_render :: "(string \<Rightarrow> string) \<Rightarrow> snapshot_header \<Rightarrow> string" where
  "snapshot_header_render json h =
     ''[hashline snapshot='' @ snapshot_id_display (hdr_snapshot h) @
     '' lines='' @ dec_string (unat (hdr_lines h)) @
     '' bytes='' @ dec_string (unat (hdr_bytes h)) @
     '' path='' @ json (hdr_path h) @ '']''"

record page_cursor =
  cur_snapshot :: snapshot_id
  cur_next :: position

definition page_cursor_footer :: "page_cursor \<Rightarrow> string" where
  "page_cursor_footer c =
     ''[hashline next snapshot='' @ snapshot_id_display (cur_snapshot c) @
     '' position='' @ position_display (cur_next c) @ '']''"

section \<open>Tool errors\<close>

record context_line =
  ctx_position :: position
  ctx_content :: string

record snapshot_conflict =
  cf_requested :: snapshot_id
  cf_header :: snapshot_header
  cf_context :: "context_line list"

record existing_file =
  ex_header :: snapshot_header
  ex_context :: "context_line list"

record protocol_error =
  pe_code :: error_code
  pe_message :: string
  pe_retryable :: bool
  pe_conflict :: "snapshot_conflict option"
  pe_existing :: "existing_file option"

definition protocol_error_new :: "error_code \<Rightarrow> string \<Rightarrow> protocol_error" where
  "protocol_error_new code message =
     \<lparr>pe_code = code, pe_message = message, pe_retryable = code_retryable code,
      pe_conflict = None, pe_existing = None\<rparr>"

definition protocol_error_conflict ::
    "snapshot_id \<Rightarrow> snapshot_header \<Rightarrow> context_line list \<Rightarrow> string \<Rightarrow> contract_error + protocol_error" where
  "protocol_error_conflict requested header context message =
     (if length context > CONFLICT_CONTEXT_LINES then Inl (TooManyConflictLines (length context))
      else Inr \<lparr>pe_code = CodeSnapshotConflict, pe_message = message, pe_retryable = True,
        pe_conflict = Some \<lparr>cf_requested = requested, cf_header = header, cf_context = context\<rparr>,
        pe_existing = None\<rparr>)"

definition protocol_error_exists ::
    "snapshot_header \<Rightarrow> context_line list \<Rightarrow> string \<Rightarrow> contract_error + protocol_error" where
  "protocol_error_exists header context message =
     (if length context > CONFLICT_CONTEXT_LINES then Inl (TooManyConflictLines (length context))
      else Inr \<lparr>pe_code = CodeAlreadyExists, pe_message = message, pe_retryable = True,
        pe_conflict = None, pe_existing = Some \<lparr>ex_header = header, ex_context = context\<rparr>\<rparr>)"

text \<open>\<open>impl From<ContractError> for ProtocolError\<close>.\<close>

definition protocol_error_of_contract :: "contract_error \<Rightarrow> protocol_error" where
  "protocol_error_of_contract e = protocol_error_new (contract_code e) (contract_message e)"

text \<open>
  What a structured error promises: the retry flag is that of its code, a conflict payload
  comes only with \<open>snapshot_conflict\<close> and an existing-file payload only with
  \<open>already_exists\<close>, each with at most five context lines.
\<close>

definition wf_protocol_error :: "protocol_error \<Rightarrow> bool" where
  "wf_protocol_error e \<longleftrightarrow>
     pe_retryable e = code_retryable (pe_code e) \<and>
     (case pe_conflict e of None \<Rightarrow> True
      | Some c \<Rightarrow> pe_code e = CodeSnapshotConflict \<and> length (cf_context c) \<le> CONFLICT_CONTEXT_LINES) \<and>
     (case pe_existing e of None \<Rightarrow> True
      | Some x \<Rightarrow> pe_code e = CodeAlreadyExists \<and> length (ex_context x) \<le> CONFLICT_CONTEXT_LINES)"

named_theorems wf_error_intros

lemma wf_protocol_error_new [simp, wf_error_intros]: "wf_protocol_error (protocol_error_new c m)"
  by (simp add: wf_protocol_error_def protocol_error_new_def)

lemma wf_protocol_error_of_contract [simp, wf_error_intros]:
  "wf_protocol_error (protocol_error_of_contract e)"
  by (simp add: protocol_error_of_contract_def)

lemma wf_protocol_error_conflict [wf_error_intros]:
  "protocol_error_conflict r h c m = Inr e \<Longrightarrow> wf_protocol_error e"
  by (auto simp: protocol_error_conflict_def wf_protocol_error_def split: if_splits)

lemma wf_protocol_error_exists [wf_error_intros]:
  "protocol_error_exists h c m = Inr e \<Longrightarrow> wf_protocol_error e"
  by (auto simp: protocol_error_exists_def wf_protocol_error_def split: if_splits)

lemma code_of_contract [simp]: "pe_code (protocol_error_of_contract e) = contract_code e"
  by (simp add: protocol_error_of_contract_def protocol_error_new_def)

lemma contract_code_not_retryable: "\<not> code_retryable (contract_code e)"
  by (cases e) simp_all

section \<open>Headers read back\<close>

lemma digits_prefix_inj:
  "\<forall>x\<in>set xs. is_ascii_digit x \<Longrightarrow> \<forall>y\<in>set ys. is_ascii_digit y \<Longrightarrow> \<not> is_ascii_digit c \<Longrightarrow>
    xs @ c # r = ys @ c # r' \<longleftrightarrow> xs = ys \<and> r = r'"
proof (induction xs arbitrary: ys)
  case Nil
  then show ?case by (cases ys) auto
next
  case (Cons x xs)
  then show ?case by (cases ys) auto
qed

lemma dec_string_prefix_inj:
  "\<not> is_ascii_digit c \<Longrightarrow> dec_string m @ c # r = dec_string n @ c # r' \<longleftrightarrow> m = n \<and> r = r'"
  using digits_prefix_inj [of "dec_string m" "dec_string n" c r r'] dec_string_digits by auto

lemma space_not_digit [simp]: "\<not> is_ascii_digit CHR '' ''"
  by (simp add: is_ascii_digit_def code_of_def)

lemma snapshot_id_display_inj [simp]: "snapshot_id_display i = snapshot_id_display j \<longleftrightarrow> i = j"
  using sid.show_inj by simp

lemma snapshot_header_render_inj:
  assumes "inj json"
  shows "snapshot_header_render json h = snapshot_header_render json h' \<longleftrightarrow> h = h'"
proof
  assume eq: "snapshot_header_render json h = snapshot_header_render json h'"
  then have "snapshot_id_display (hdr_snapshot h) = snapshot_id_display (hdr_snapshot h')"
    and r1: "'' lines='' @ dec_string (unat (hdr_lines h)) @ '' bytes='' @ dec_string (unat (hdr_bytes h)) @
         '' path='' @ json (hdr_path h) @ '']''
       = '' lines='' @ dec_string (unat (hdr_lines h')) @ '' bytes='' @ dec_string (unat (hdr_bytes h')) @
         '' path='' @ json (hdr_path h') @ '']''"
    by (simp_all add: snapshot_header_render_def append_eq_append_conv snapshot_id_display_length)
  then have "hdr_snapshot h = hdr_snapshot h'" by simp
  moreover have "unat (hdr_lines h) = unat (hdr_lines h') \<and> unat (hdr_bytes h) = unat (hdr_bytes h') \<and>
      json (hdr_path h) = json (hdr_path h')"
    using r1 by (simp add: dec_string_prefix_inj)
  ultimately show "h = h'" using assms by (simp add: inj_eq)
qed simp

section \<open>Properties\<close>

text \<open>
  Two rendered headers are equal only for the same path, identity, line count and
  byte count, when the JSON string encoder is injective: a client reads back what was meant.
\<close>

theorem header_unambiguous:
  assumes "inj json"
  shows "snapshot_header_render json h = snapshot_header_render json h' \<longleftrightarrow> h = h'"
  by (rule snapshot_header_render_inj [OF assms])

theorem header_unambiguous_witness:
  "snapshot_header_render id \<lparr>hdr_path = ''a'', hdr_snapshot = SnapshotId 1, hdr_lines = 1, hdr_bytes = 10\<rparr> \<noteq>
   snapshot_header_render id \<lparr>hdr_path = ''a'', hdr_snapshot = SnapshotId 1, hdr_lines = 11, hdr_bytes = 0\<rparr>"
proof -
  have "inj (id :: string \<Rightarrow> string)" by simp
  from header_unambiguous [OF this] show ?thesis by simp
qed

end
