(* ===== verification/Requests.thy ===== *)
theory Requests
  imports Errors "HOL-Library.List_Lexorder"
begin

text \<open>
  Requests and small response types of the protocol (\<open>src/protocol.rs\<close>): the five request
  records with their \<open>validate\<close> methods, the edit operation, the rendered grep lines, the two
  summaries, and the deterministic glob order.  Request decoding (serde) is outside the model: a
  request is the decoded value.
\<close>

section \<open>Read requests\<close>

record read_request =
  rr_path :: string
  rr_limit :: u16
  rr_cursor :: "page_cursor option"
  rr_start_line :: "u64 option"

definition read_request_validate :: "read_request \<Rightarrow> contract_error + unit" where
  "read_request_validate r =
     (if rr_limit r = 0 \<or> rr_limit r > MAX_PAGE_LINES then Inl (InvalidReadLimit (rr_limit r))
      else if rr_start_line r = Some 0 then Inl ZeroStartLine
      else if rr_start_line r \<noteq> None \<and> rr_cursor r \<noteq> None then Inl StartLineWithCursor
      else Inr ())"

section \<open>Grep requests\<close>

datatype grep_output_mode = Content | FilesWithMatches | Count

record grep_request =
  gr_pattern :: string
  gr_path :: "string option"
  gr_glob :: "string option"
  gr_ignore_case :: bool
  gr_before_context :: "u16 option"
  gr_after_context :: "u16 option"
  gr_context :: "u16 option"
  gr_max_matches :: u16
  gr_output_mode :: grep_output_mode

definition effective_context :: "grep_request \<Rightarrow> u16 \<times> u16" where
  "effective_context r =
     (case gr_context r of
        None \<Rightarrow> (case_option 0 id (gr_before_context r), case_option 0 id (gr_after_context r))
      | Some c \<Rightarrow> (c, c))"

text \<open>The loop over the flattened context counts.\<close>

fun check_contexts :: "u16 option list \<Rightarrow> contract_error + unit" where
  "check_contexts [] = Inr ()"
| "check_contexts (None # vs) = check_contexts vs"
| "check_contexts (Some v # vs) =
     (if v > MAX_CONTEXT_LINES then Inl (InvalidContextLimit v) else check_contexts vs)"

definition grep_request_validate :: "grep_request \<Rightarrow> contract_error + unit" where
  "grep_request_validate r =
     (if gr_max_matches r = 0 \<or> gr_max_matches r > MAX_GREP_MATCHES
      then Inl (InvalidGrepLimit (gr_max_matches r))
      else rbind (check_contexts [gr_before_context r, gr_after_context r, gr_context r]) (\<lambda>_.
        if gr_output_mode r \<noteq> Content \<and>
           (gr_before_context r \<noteq> None \<or> gr_after_context r \<noteq> None \<or> gr_context r \<noteq> None)
        then Inl ContextOutsideContentMode
        else Inr ()))"

definition remaining_match_capacity :: "u16 \<Rightarrow> nat \<Rightarrow> contract_error + nat" where
  "remaining_match_capacity max_matches reported =
     (if max_matches = 0 \<or> max_matches > MAX_GREP_MATCHES then Inl (InvalidGrepLimit max_matches)
      else Inr (unat max_matches - reported))"

section \<open>Edit requests\<close>

datatype edit_operation = Replace (op_start: position) (op_end: position) (op_content: string)

record edit_request =
  er_path :: string
  er_snapshot :: snapshot_id
  er_edits :: "edit_operation list"

abbreviation NUL :: char where
  "NUL \<equiv> CHR 0x00"

definition validate_edit_count :: "nat \<Rightarrow> contract_error + unit" where
  "validate_edit_count n =
     (if n = 0 then Inl EmptyEditBatch
      else if n > MAX_EDIT_OPERATIONS then Inl (TooManyEdits n)
      else Inr ())"

text \<open>The loop over \<open>edits.iter().enumerate()\<close>.\<close>

fun check_replacements :: "nat \<Rightarrow> edit_operation list \<Rightarrow> contract_error + unit" where
  "check_replacements index [] = Inr ()"
| "check_replacements index (operation # rest) =
     (case position_of (\<lambda>b. b = NUL) (op_content operation) of
        Some byte \<Rightarrow> Inl (NulReplacement index byte)
      | None \<Rightarrow> check_replacements (Suc index) rest)"

definition edit_request_validate :: "edit_request \<Rightarrow> contract_error + unit" where
  "edit_request_validate r =
     rbind (validate_edit_count (length (er_edits r))) (\<lambda>_. check_replacements 0 (er_edits r))"

section \<open>Write and glob requests\<close>

record write_request =
  wr_path :: string
  wr_content :: string
  wr_expect :: write_expect

definition write_request_validate :: "write_request \<Rightarrow> contract_error + unit" where
  "write_request_validate r =
     (case position_of (\<lambda>b. b = NUL) (wr_content r) of
        Some byte \<Rightarrow> Inl (NulWriteContent byte)
      | None \<Rightarrow>
          rbind (ok_or (FileTooLarge (- 1)) (u64_of_usize (length (wr_content r)))) validate_file_size)"

record glob_request =
  gl_pattern :: string
  gl_path :: "string option"
  gl_max_results :: u16

definition glob_request_validate :: "glob_request \<Rightarrow> contract_error + unit" where
  "glob_request_validate r =
     (if gl_max_results r = 0 \<or> gl_max_results r > MAX_GLOB_RESULTS
      then Inl (InvalidGlobLimit (gl_max_results r)) else Inr ())"

section \<open>Rendered lines and summaries\<close>

datatype grep_line_kind = MatchLine | ContextLine

record grep_line =
  gline_position :: position
  gline_kind :: grep_line_kind
  gline_content :: string

definition grep_line_render :: "grep_line \<Rightarrow> string" where
  "grep_line_render l =
     position_display (gline_position l) @
     (case gline_kind l of MatchLine \<Rightarrow> '':'' | ContextLine \<Rightarrow> ''-'') @ gline_content l"

definition bool_display :: "bool \<Rightarrow> string" where
  "bool_display b = (if b then ''true'' else ''false'')"

record grep_summary =
  gs_matches :: u64
  gs_truncated :: bool
  gs_skipped_binary :: u64
  gs_skipped_invalid_utf8 :: u64

definition grep_summary_render :: "grep_summary \<Rightarrow> string" where
  "grep_summary_render s =
     ''[hashline matches='' @ dec_string (unat (gs_matches s)) @
     '' truncated='' @ bool_display (gs_truncated s) @
     '' skipped_binary='' @ dec_string (unat (gs_skipped_binary s)) @
     '' skipped_invalid_utf8='' @ dec_string (unat (gs_skipped_invalid_utf8 s)) @ '']''"

record glob_summary =
  gls_files :: u64
  gls_truncated :: bool

definition glob_summary_render :: "glob_summary \<Rightarrow> string" where
  "glob_summary_render s =
     ''[hashline files='' @ dec_string (unat (gls_files s)) @
     '' truncated='' @ bool_display (gls_truncated s) @ '']''"

definition render_read_line :: "position \<Rightarrow> string \<Rightarrow> string" where
  "render_read_line p content = position_display p @ ''|'' @ content"

section \<open>Glob order\<close>

text \<open>
  A \<open>SystemTime\<close> is the number of nanoseconds since the epoch.  The stable sort by the code's
  comparator is the stable sort by the key of negated time and path bytes.
\<close>

type_synonym system_time = int

record glob_entry =
  ge_path :: string
  ge_modified :: system_time

definition glob_key :: "glob_entry \<Rightarrow> int \<times> nat list" where
  "glob_key e = (- ge_modified e, map code_of (ge_path e))"

definition sort_reference_glob_entries :: "glob_entry list \<Rightarrow> glob_entry list" where
  "sort_reference_glob_entries entries = sort_key glob_key entries"

section \<open>Facts on the validations\<close>

lemma read_request_validate_ok:
  "read_request_validate r = Inr u \<longleftrightarrow>
    1 \<le> unat (rr_limit r) \<and> unat (rr_limit r) \<le> 2000 \<and> rr_start_line r \<noteq> Some 0 \<and>
    (rr_start_line r = None \<or> rr_cursor r = None)"
  by (auto simp: read_request_validate_def MAX_PAGE_LINES_def word_less_nat_alt unat_gt_0 Suc_le_eq)

lemma grep_request_validate_caps:
  "grep_request_validate r = Inr u \<Longrightarrow> 1 \<le> unat (gr_max_matches r) \<and> unat (gr_max_matches r) \<le> 200"
  by (auto simp: grep_request_validate_def MAX_GREP_MATCHES_def word_less_nat_alt unat_gt_0 Suc_le_eq
      split: if_splits)

lemma glob_request_validate_ok:
  "glob_request_validate r = Inr u \<longleftrightarrow> 1 \<le> unat (gl_max_results r) \<and> unat (gl_max_results r) \<le> 1000"
  by (auto simp: glob_request_validate_def MAX_GLOB_RESULTS_def word_less_nat_alt unat_gt_0 Suc_le_eq)

lemma validate_edit_count_eq_Inr: "validate_edit_count n = Inr u \<longleftrightarrow> 0 < n \<and> n \<le> 1024"
  by (auto simp: validate_edit_count_def MAX_EDIT_OPERATIONS_def)

lemma check_replacements_eq_Inr:
  "check_replacements i ops = Inr u \<longleftrightarrow> (\<forall>operation\<in>set ops. NUL \<notin> set (op_content operation))"
  by (induction ops arbitrary: i) (auto split: option.splits dest: position_of_SomeD)

lemma edit_request_validate_ok:
  "edit_request_validate r = Inr u \<longleftrightarrow>
    0 < length (er_edits r) \<and> length (er_edits r) \<le> 1024 \<and>
    (\<forall>operation\<in>set (er_edits r). NUL \<notin> set (op_content operation))"
  by (auto simp: edit_request_validate_def result_iffs validate_edit_count_eq_Inr check_replacements_eq_Inr)

lemma len_check_eq_Inr:
  "rbind (ok_or e (u64_of_usize n)) validate_file_size = Inr u \<longleftrightarrow> n \<le> max_file_len"
proof (cases "n \<le> usize_max")
  case True
  then show ?thesis by (simp add: u64_of_usize_def)
next
  case False
  then have "\<not> n \<le> max_file_len" using max_file_len_le by blast
  with False show ?thesis by (simp add: u64_of_usize_def)
qed

lemma write_request_validate_ok:
  "write_request_validate r = Inr u \<longleftrightarrow> NUL \<notin> set (wr_content r) \<and> length (wr_content r) \<le> max_file_len"
proof (cases "position_of (\<lambda>b. b = NUL) (wr_content r)")
  case None
  then have "NUL \<notin> set (wr_content r)" by auto
  with None show ?thesis by (simp only: write_request_validate_def option.case len_check_eq_Inr simp_thms)
next
  case (Some i)
  then show ?thesis by (simp add: write_request_validate_def position_of_SomeD)
qed

lemma glob_key_inj: "glob_key d = glob_key e \<longleftrightarrow> d = e"
proof
  assume eq: "glob_key d = glob_key e"
  have "inj code_of" by (intro injI code_of_inj)
  then have "ge_path d = ge_path e" using eq by (simp add: glob_key_def inj_map_eq_map)
  then show "d = e" using eq by (simp add: glob_key_def)
qed simp

lemma sort_glob_mset: "mset (sort_reference_glob_entries es) = mset es"
  by (simp add: sort_reference_glob_entries_def)

lemma sort_glob_sorted: "sorted (map glob_key (sort_reference_glob_entries es))"
  by (simp add: sort_reference_glob_entries_def)

lemma sort_glob_unique:
  "mset es = mset es' \<Longrightarrow> sort_reference_glob_entries es = sort_reference_glob_entries es'"
  unfolding sort_reference_glob_entries_def
  by (rule sort_key_inj_key_eq) (auto simp: inj_on_def glob_key_inj)

section \<open>Properties\<close>

text \<open>
  What the five request validations accept: the caps of each request, the start
  line and cursor rule, the edit count, replacement and write contents without NUL, and the size
  cap.
\<close>

theorem validation_exact:
  "(read_request_validate r = Inr () \<longleftrightarrow>
     1 \<le> unat (rr_limit r) \<and> unat (rr_limit r) \<le> 2000 \<and> rr_start_line r \<noteq> Some 0 \<and>
     (rr_start_line r = None \<or> rr_cursor r = None)) \<and>
   (edit_request_validate er = Inr () \<longleftrightarrow>
     0 < length (er_edits er) \<and> length (er_edits er) \<le> 1024 \<and>
     list_all (\<lambda>operation. NUL \<notin> set (op_content operation)) (er_edits er)) \<and>
   (write_request_validate w = Inr () \<longleftrightarrow> NUL \<notin> set (wr_content w) \<and> length (wr_content w) \<le> max_file_len) \<and>
   (glob_request_validate gl = Inr () \<longleftrightarrow> 1 \<le> unat (gl_max_results gl) \<and> unat (gl_max_results gl) \<le> 1000)"
  unfolding read_request_validate_ok edit_request_validate_ok write_request_validate_ok glob_request_validate_ok
  by (simp add: list_all_iff)

text \<open>
  The glob order: the sort keeps the entries, puts newer ones first and equal
  times in path order, and the result depends only on which entries were found, not on the
  order of the walk.
\<close>

theorem glob_order_deterministic:
  assumes "mset es = mset es'"
  shows "sort_reference_glob_entries es = sort_reference_glob_entries es' \<and>
    mset (sort_reference_glob_entries es) = mset es \<and>
    sorted_wrt (\<lambda>a b. ge_modified a > ge_modified b \<or>
      (ge_modified a = ge_modified b \<and> map code_of (ge_path a) \<le> map code_of (ge_path b)))
      (sort_reference_glob_entries es)"
proof -
  have "sorted_wrt (\<lambda>a b. glob_key a \<le> glob_key b) (sort_reference_glob_entries es)"
    using sort_glob_sorted by (simp only: sorted_map)
  then have "sorted_wrt (\<lambda>a b. ge_modified a > ge_modified b \<or>
      (ge_modified a = ge_modified b \<and> map code_of (ge_path a) \<le> map code_of (ge_path b)))
      (sort_reference_glob_entries es)"
    by (rule sorted_wrt_mono_rel [rotated]) (auto simp: glob_key_def less_eq_prod_def less_prod_def)
  then show ?thesis using sort_glob_unique [OF assms] sort_glob_mset by blast
qed

theorem glob_order_deterministic_witness:
  "sort_reference_glob_entries [\<lparr>ge_path = ''a'', ge_modified = 1\<rparr>, \<lparr>ge_path = ''b'', ge_modified = 2\<rparr>] =
   sort_reference_glob_entries [\<lparr>ge_path = ''b'', ge_modified = 2\<rparr>, \<lparr>ge_path = ''a'', ge_modified = 1\<rparr>]"
  using glob_order_deterministic [of "[\<lparr>ge_path = ''a'', ge_modified = 1\<rparr>, \<lparr>ge_path = ''b'', ge_modified = 2\<rparr>]"
    "[\<lparr>ge_path = ''b'', ge_modified = 2\<rparr>, \<lparr>ge_path = ''a'', ge_modified = 1\<rparr>]"] by simp

end
