(* ===== verification/Reference_Text.thy ===== *)
theory Reference_Text
  imports Requests
begin

text \<open>
  The text policy and the line boundaries of the reference model (\<open>src/protocol.rs\<close>):
  \<open>validate_text\<close>, \<open>reference_line_starts\<close>, \<open>boundary_ordinal\<close> and
  \<open>classify_grep_text\<close>.  The specification is the cut of a text into segments, each ending with
  its LF: boundary \<open>k\<close> is the offset of segment \<open>k\<close>, and the last boundary is the end of the text.
  A \<open>u64::try_from\<close> of a \<open>usize\<close> under \<open>expect\<close> cannot fail where \<open>usize\<close> has 64 bits and is
  the conversion \<open>of_nat\<close>.
\<close>

section \<open>Text policy\<close>

abbreviation LF :: char where
  "LF \<equiv> CHR 0x0A"

abbreviation CR :: char where
  "CR \<equiv> CHR 0x0D"

definition validate_text :: "bytes \<Rightarrow> contract_error + bytes" where
  "validate_text bs =
     rbind (validate_len (length bs)) (\<lambda>_.
     case position_of (\<lambda>b. b = NUL) bs of
       Some byte \<Rightarrow> Inl (NulFile (of_nat byte))
     | None \<Rightarrow>
         (case utf8_error bs of
            None \<Rightarrow> Inr bs
          | Some valid_up_to \<Rightarrow> Inl (InvalidUtf8 (of_nat valid_up_to))))"

definition text_ok :: "bytes \<Rightarrow> bool" where
  "text_ok bs \<longleftrightarrow> length bs \<le> max_file_len \<and> NUL \<notin> set bs \<and> utf8_ok bs"

lemma validate_text_eq_Inr: "validate_text bs = Inr t \<longleftrightarrow> t = bs \<and> text_ok bs"
  by (auto simp: validate_text_def text_ok_def utf8_ok_def result_iffs validate_len_eq_Inr
      split: option.splits dest: position_of_SomeD)

lemma validate_text_ok [simp]: "text_ok bs \<Longrightarrow> validate_text bs = Inr bs"
  by (simp add: validate_text_eq_Inr)

lemma text_ok_parts: "text_ok bs \<Longrightarrow> length bs \<le> max_file_len \<and> length bs \<le> usize_max"
  by (simp add: text_ok_def)

datatype grep_target = ExplicitFile | TreeEntry

datatype grep_text = Search bytes | SkipBinary | SkipInvalidUtf8

definition classify_grep_text :: "bytes \<Rightarrow> grep_target \<Rightarrow> contract_error + grep_text" where
  "classify_grep_text bs target =
     (case validate_text bs of
        Inr text \<Rightarrow> Inr (Search text)
      | Inl (NulFile byte) \<Rightarrow> if target = TreeEntry then Inr SkipBinary else Inl (NulFile byte)
      | Inl (InvalidUtf8 at) \<Rightarrow> if target = TreeEntry then Inr SkipInvalidUtf8 else Inl (InvalidUtf8 at)
      | Inl error \<Rightarrow> Inl error)"

section \<open>Line starts\<close>

text \<open>The loop over \<open>text.bytes().enumerate()\<close>.\<close>

fun line_starts_loop :: "nat \<Rightarrow> bytes \<Rightarrow> u64 list" where
  "line_starts_loop index [] = []"
| "line_starts_loop index (b # bs) =
     (if b = LF then of_nat (sat_add_usize index 1) # line_starts_loop (Suc index) bs
      else line_starts_loop (Suc index) bs)"

definition reference_line_starts :: "bytes \<Rightarrow> u64 list" where
  "reference_line_starts text = 0 # line_starts_loop 0 text"

definition boundary_ordinal :: "bytes \<Rightarrow> u64 list \<Rightarrow> position \<Rightarrow> contract_error + u64" where
  "boundary_ordinal text starts p =
     (let line_count = (of_nat (length starts) :: u64) in
      if pos_line p \<le> line_count then
        (if get_at starts (unat (pos_line p - 1)) = Some (pos_byte p) then Inr (pos_line p - 1)
         else Inl (InvalidPosition p))
      else if pos_line p = sat_add_u64 line_count 1 \<and> pos_byte p = of_nat (length text)
        then Inr line_count
      else Inl (InvalidPosition p))"

definition validate_reference_position :: "bytes \<Rightarrow> position \<Rightarrow> contract_error + unit" where
  "validate_reference_position bs p =
     rbind (validate_text bs) (\<lambda>text.
     let starts = reference_line_starts text in
     rbind (boundary_ordinal text starts p) (\<lambda>_. Inr ()))"

section \<open>Segments: the specification of line boundaries\<close>

fun segments :: "bytes \<Rightarrow> bytes list" where
  "segments [] = [[]]"
| "segments (b # bs) =
     (if b = LF then [b] # segments bs
      else (case segments bs of [] \<Rightarrow> [[b]] | s # ss \<Rightarrow> (b # s) # ss))"

definition seg_count :: "bytes \<Rightarrow> nat" where
  "seg_count text = length (segments text)"

definition seg_off :: "bytes \<Rightarrow> nat \<Rightarrow> nat" where
  "seg_off text k = length (concat (take k (segments text)))"

lemma segments_nonempty [simp]: "segments bs \<noteq> []"
  by (cases bs) (auto split: list.splits)

lemma concat_segments [simp]: "concat (segments bs) = bs"
  by (induction bs) (auto split: list.splits)

lemma seg_count_pos [simp]: "0 < seg_count bs"
  by (simp add: seg_count_def)

lemma seg_count_newlines: "seg_count bs = Suc (length (filter (\<lambda>b. b = LF) bs))"
  by (induction bs) (auto simp: seg_count_def split: list.splits)

lemma seg_count_le: "seg_count bs \<le> Suc (length bs)"
  by (simp add: seg_count_newlines)

lemma seg_off_0 [simp]: "seg_off bs 0 = 0"
  by (simp add: seg_off_def)

lemma seg_off_end [simp]: "seg_count bs \<le> k \<Longrightarrow> seg_off bs k = length bs"
  by (simp add: seg_off_def seg_count_def)

lemma seg_off_Suc: "k < seg_count bs \<Longrightarrow> seg_off bs (Suc k) = seg_off bs k + length (segments bs ! k)"
  by (simp add: seg_off_def seg_count_def take_Suc_conv_app_nth)

lemma seg_off_mono: "j \<le> k \<Longrightarrow> seg_off bs j \<le> seg_off bs k"
proof -
  assume "j \<le> k"
  then have "take k (segments bs) = take j (segments bs) @ take (k - j) (drop j (segments bs))"
    by (metis le_add_diff_inverse take_add)
  then show ?thesis by (simp add: seg_off_def)
qed

lemma seg_off_le [simp]: "seg_off bs k \<le> length bs"
  using seg_off_mono [of k "max k (seg_count bs)" bs] by simp

lemma take_seg_off: "take (seg_off bs k) bs = concat (take k (segments bs))"
proof -
  have "bs = concat (take k (segments bs)) @ concat (drop k (segments bs))"
    by (metis append_take_drop_id concat_append concat_segments)
  then show ?thesis by (metis append_eq_conv_conj seg_off_def)
qed

lemma drop_seg_off: "drop (seg_off bs k) bs = concat (drop k (segments bs))"
proof -
  have "bs = concat (take k (segments bs)) @ concat (drop k (segments bs))"
    by (metis append_take_drop_id concat_append concat_segments)
  then show ?thesis by (metis append_eq_conv_conj seg_off_def)
qed

lemma slice_seg_off:
  assumes "j \<le> k"
  shows "slice_of bs (seg_off bs j) (seg_off bs k) = Some (concat (map ((!) (segments bs)) [j..<min k (seg_count bs)]))"
proof -
  have split: "take k (segments bs) = take j (segments bs) @ drop j (take k (segments bs))"
    by (metis append_take_drop_id assms min.absorb1 take_take)
  have "take (seg_off bs k) bs = take (seg_off bs j) bs @ concat (drop j (take k (segments bs)))"
    by (metis concat_append split take_seg_off)
  then have "drop (seg_off bs j) (take (seg_off bs k) bs) = concat (drop j (take k (segments bs)))"
    by (simp add: append_eq_conv_conj)
  moreover have "drop j (take k (segments bs)) = map ((!) (segments bs)) [j..<min k (seg_count bs)]"
  proof (rule nth_equalityI)
    fix i assume "i < length (drop j (take k (segments bs)))"
    then have "i < min (length (segments bs)) k - j" by simp
    then have "j + i < min k (seg_count bs)" unfolding seg_count_def by linarith
    then have "[j..<min k (seg_count bs)] ! i = j + i" "i < length [j..<min k (seg_count bs)]"
      by (simp_all only: nth_upt length_upt)
    then show "drop j (take k (segments bs)) ! i = map ((!) (segments bs)) [j..<min k (seg_count bs)] ! i"
      using \<open>j + i < min k (seg_count bs)\<close> by (simp only: nth_map) (simp add: seg_count_def)
  qed (simp add: seg_count_def)
  ultimately show ?thesis
    using seg_off_mono [OF assms] by (simp add: slice_of_def drop_take)
qed

lemma segments_shape: "s \<in> set (butlast (segments bs)) \<Longrightarrow> \<exists>t. s = t @ [LF] \<and> LF \<notin> set t"
proof (induction bs arbitrary: s)
  case Nil
  then show ?case by simp
next
  case (Cons b bs)
  show ?case
  proof (cases "b = LF")
    case True
    with Cons show ?thesis by auto
  next
    case False
    obtain t ts where ts: "segments bs = t # ts" by (cases "segments bs") auto
    with Cons.prems False consider "s = b # t" "ts \<noteq> []" | "s \<in> set (butlast ts)" "ts \<noteq> []"
      by (auto split: if_splits)
    then show ?thesis
    proof cases
      case 1
      then have "t \<in> set (butlast (segments bs))" using ts by simp
      with Cons.IH obtain u where "t = u @ [LF]" "LF \<notin> set u" by blast
      with 1 False show ?thesis by (intro exI [of _ "b # u"]) auto
    next
      case 2
      then show ?thesis using Cons.IH ts by simp
    qed
  qed
qed

lemma segments_last: "LF \<notin> set (last (segments bs))"
  by (induction bs) (auto split: list.splits)

text \<open>The line starts of the code are the offsets of the segments.\<close>

lemma line_starts_loop_segments:
  "i + length bs \<le> usize_max \<Longrightarrow>
    line_starts_loop i bs =
      map (\<lambda>k. of_nat (i + length (concat (take k (segments bs))))) [1..<length (segments bs)]"
proof (induction bs arbitrary: i)
  case Nil
  then show ?case by simp
next
  case (Cons b bs)
  have IH: "line_starts_loop (Suc i) bs =
      map (\<lambda>k. of_nat (Suc i + length (concat (take k (segments bs))))) [1..<length (segments bs)]"
    using Cons by simp
  show ?case
  proof (cases "b = LF")
    case True
    have upt: "[1..<length (segments (b # bs))] = 1 # map Suc [1..<length (segments bs)]"
    proof -
      obtain m where "length (segments bs) = Suc m" by (cases "segments bs") auto
      with True show ?thesis by (simp add: upt_conv_Cons map_Suc_upt del: upt_Suc)
    qed
    have step: "i + length (concat (take (Suc k) (segments (b # bs)))) = Suc i + length (concat (take k (segments bs)))" for k
      using True by simp
    show ?thesis
      using True IH Cons.prems unfolding upt
      by (simp add: sat_add_usize_def o_def del: of_nat_add of_nat_Suc upt_Suc)
  next
    case False
    obtain t ts where ts: "segments bs = t # ts" by (cases "segments bs") auto
    then have step: "Suc i + length (concat (take k (segments bs))) = i + length (concat (take k (segments (b # bs))))"
      if "0 < k" for k using that False by (cases k) auto
    have "map (\<lambda>k. of_nat (Suc i + length (concat (take k (segments bs)))) :: u64) [1..<length (segments bs)] =
        map (\<lambda>k. of_nat (i + length (concat (take k (segments (b # bs)))))) [1..<length (segments bs)]"
      by (rule map_cong [OF refl]) (simp only: step set_upt atLeastLessThan_iff One_nat_def Suc_le_eq)
    moreover have "length (segments (b # bs)) = length (segments bs)" using False ts by simp
    ultimately show ?thesis using False IH by (simp only: line_starts_loop.simps if_False)
  qed
qed

lemma reference_line_starts_segments:
  assumes "length text \<le> usize_max"
  shows "reference_line_starts text = map (\<lambda>k. of_nat (seg_off text k)) [0..<seg_count text]"
proof -
  have "[0..<seg_count text] = 0 # [1..<seg_count text]" by (simp add: upt_conv_Cons)
  then show ?thesis
    using line_starts_loop_segments [of 0 "text"] assms
    by (simp add: reference_line_starts_def seg_off_def seg_count_def del: upt_Suc)
qed

lemma length_reference_line_starts [simp]: "text_ok text \<Longrightarrow> length (reference_line_starts text) = seg_count text"
  using text_ok_parts by (simp add: reference_line_starts_segments)

lemma nth_reference_line_starts:
  "text_ok text \<Longrightarrow> k < seg_count text \<Longrightarrow> reference_line_starts text ! k = of_nat (seg_off text k)"
  using text_ok_parts by (simp add: reference_line_starts_segments)

section \<open>Boundaries\<close>

text \<open>Position \<open>p\<close> is the token of boundary \<open>k\<close> of the text.\<close>

definition boundary_at :: "bytes \<Rightarrow> position \<Rightarrow> nat \<Rightarrow> bool" where
  "boundary_at text p k \<longleftrightarrow>
     k \<le> seg_count text \<and> unat (pos_line p) = Suc k \<and> unat (pos_byte p) = seg_off text k"

text \<open>
  The contract of a boundary resolver: on a well-formed source it accepts exactly the tokens
  of boundaries and returns their ordinal.
\<close>

locale boundary_resolver =
  fixes text_of :: "'s \<Rightarrow> bytes"
    and wf_source :: "'s \<Rightarrow> bool"
    and resolve :: "'s \<Rightarrow> position \<Rightarrow> u64 option"
  assumes source_ok: "wf_source s \<Longrightarrow> text_ok (text_of s)"
    and resolve_iff: "wf_source s \<Longrightarrow> resolve s p = Some w \<longleftrightarrow> boundary_at (text_of s) p (unat w)"
begin

lemma resolve_byte: "wf_source s \<Longrightarrow> resolve s p = Some w \<Longrightarrow> unat (pos_byte p) = seg_off (text_of s) (unat w)"
  by (simp add: resolve_iff boundary_at_def)

lemma resolve_bounds:
  "wf_source s \<Longrightarrow> resolve s p = Some w \<Longrightarrow> unat w \<le> seg_count (text_of s) \<and> unat (pos_byte p) \<le> length (text_of s)"
  by (simp add: resolve_iff boundary_at_def)

lemma resolve_mono:
  "wf_source s \<Longrightarrow> resolve s p = Some v \<Longrightarrow> resolve s q = Some w \<Longrightarrow> v \<le> w \<Longrightarrow> pos_byte p \<le> pos_byte q"
  by (simp add: resolve_iff boundary_at_def word_le_nat_alt seg_off_mono)

lemma resolve_order:
  "wf_source s \<Longrightarrow> resolve s p = Some v \<Longrightarrow> resolve s q = Some w \<Longrightarrow> v \<le> w \<longleftrightarrow> p \<le> q"
  by (auto simp: resolve_iff boundary_at_def word_le_nat_alt word_less_nat_alt less_eq_position_def
      word_unat_eq_iff)

lemma resolve_inj:
  "wf_source s \<Longrightarrow> resolve s p = Some w \<Longrightarrow> resolve s q = Some w \<Longrightarrow> p = q"
  by (rule position.expand) (simp add: resolve_iff boundary_at_def word_unat_eq_iff)

end

lemma seg_count_usize: "text_ok text \<Longrightarrow> Suc (seg_count text) \<le> usize_max"
  using seg_count_le [of "text"] by (simp add: text_ok_def max_file_len_def usize_max_def)

lemma boundary_ordinal_eq_Inr:
  assumes "text_ok text"
  shows "boundary_ordinal text (reference_line_starts text) p = Inr w \<longleftrightarrow> boundary_at text p (unat w)"
proof -
  let ?n = "seg_count text"
  have n: "Suc ?n \<le> usize_max" by (rule seg_count_usize [OF assms])
  have cnt: "unat (of_nat ?n :: u64) = ?n" using n by simp
  have succ: "unat (sat_add_u64 (of_nat ?n) 1) = Suc ?n" using n cnt by (simp add: unat_sat_add_u64)
  have off: "unat (of_nat (seg_off text k) :: u64) = seg_off text k" for k
    using seg_off_le [of "text" k] text_ok_parts [OF assms] by (intro unat_of_nat_u64) linarith
  have len: "unat (of_nat (length text) :: u64) = length text" using text_ok_parts [OF assms] by simp
  show ?thesis
  proof (cases "pos_line p \<le> of_nat ?n")
    case True
    then have le: "unat (pos_line p) \<le> ?n" by (simp add: word_le_nat_alt cnt)
    show ?thesis
    proof (cases "pos_line p = 0")
      case True
      then have "\<not> unat (pos_line p - 1) < ?n"
        using n by (simp add: unsigned_minus_1_eq_mask mask_eq_exp_minus_1 usize_max_def)
      with True le show ?thesis using assms
        by (simp add: boundary_ordinal_def Let_def get_at_eq_Some boundary_at_def)
    next
      case False
      then have m: "unat (pos_line p - 1) = unat (pos_line p) - 1" "0 < unat (pos_line p)"
        by (simp_all add: unat_minus_one_u64 unat_gt_0)
      then have lt: "unat (pos_line p) - 1 < ?n" using le by linarith
      then have "get_at (reference_line_starts text) (unat (pos_line p - 1)) = Some (pos_byte p)
          \<longleftrightarrow> unat (pos_byte p) = seg_off text (unat (pos_line p) - 1)"
        using assms m by (auto simp: get_at_eq_Some nth_reference_line_starts off word_unat_eq_iff)
      with True m lt show ?thesis using assms
        by (auto simp: boundary_ordinal_def Let_def boundary_at_def word_unat_eq_iff)
    qed
  next
    case False
    then have gt: "?n < unat (pos_line p)" by (simp add: word_le_nat_alt cnt)
    then show ?thesis using False assms succ len cnt
      by (auto simp: boundary_ordinal_def Let_def boundary_at_def word_unat_eq_iff)
  qed
qed

lemma boundary_ordinal_Inl: "boundary_ordinal text starts p = Inl e \<Longrightarrow> e = InvalidPosition p"
  by (auto simp: boundary_ordinal_def Let_def split: if_splits)

interpretation refb: boundary_resolver
  "\<lambda>text. text" text_ok "\<lambda>text p. ok_opt (boundary_ordinal text (reference_line_starts text) p)"
  by standard (simp_all add: ok_opt_eq_Some boundary_ordinal_eq_Inr)

text \<open>A boundary is a character boundary: it is 0, the end, or follows an LF.\<close>

lemma text_prefix_ok: "utf8_ok bs \<Longrightarrow> k \<le> seg_count bs \<Longrightarrow> utf8_ok (take (seg_off bs k) bs)"
proof (cases "k = 0 \<or> k = seg_count bs")
  case True
  then show "utf8_ok bs \<Longrightarrow> k \<le> seg_count bs \<Longrightarrow> ?thesis" by auto
next
  case False
  assume ok: "utf8_ok bs" and "k \<le> seg_count bs"
  with False have k: "k - 1 < length (butlast (segments bs))" "0 < k" by (auto simp: seg_count_def)
  then have "butlast (segments bs) ! (k - 1) \<in> set (butlast (segments bs))" by (intro nth_mem)
  then obtain t where "butlast (segments bs) ! (k - 1) = t @ [LF]" using segments_shape by blast
  then have t: "segments bs ! (k - 1) = t @ [LF]" using k by (simp add: nth_butlast)
  have "take k (segments bs) = take (k - 1) (segments bs) @ [t @ [LF]]"
    using k t take_Suc_conv_app_nth [of "k - 1" "segments bs"] by simp
  then have pre: "take (seg_off bs k) bs = (concat (take (k - 1) (segments bs)) @ t) @ [LF]"
    by (simp add: take_seg_off)
  have "utf8_ok ((concat (take (k - 1) (segments bs)) @ t) @ LF # drop (seg_off bs k) bs)"
    using ok append_take_drop_id [of "seg_off bs k" bs] unfolding pre by simp
  then have "utf8_ok (concat (take (k - 1) (segments bs)) @ t)"
    by (rule utf8_ok_after_ascii) (simp add: code_of_def)
  moreover have "utf8_ok [LF]" by (simp add: utf8_ok_ascii code_of_def)
  ultimately show ?thesis unfolding pre by (rule utf8_ok_appendI)
qed

lemma seg_off_char_boundary: "utf8_ok bs \<Longrightarrow> k \<le> seg_count bs \<Longrightarrow> char_boundary bs (seg_off bs k)"
  using text_prefix_ok [of bs k] char_boundary_iff_split [of bs "seg_off bs k"]
  by (metis append_take_drop_id seg_off_le utf8_ok_append)

lemma segment_ok: "utf8_ok bs \<Longrightarrow> k < seg_count bs \<Longrightarrow> utf8_ok (segments bs ! k)"
proof -
  assume ok: "utf8_ok bs" and k: "k < seg_count bs"
  have "take (seg_off bs (Suc k)) bs = take (seg_off bs k) bs @ segments bs ! k"
    using k by (simp add: take_seg_off seg_count_def take_Suc_conv_app_nth)
  moreover have "utf8_ok (take (seg_off bs (Suc k)) bs)" "utf8_ok (take (seg_off bs k) bs)"
    using text_prefix_ok [OF ok] k by simp_all
  ultimately show ?thesis by (simp add: utf8_ok_append)
qed

end
