(* ===== verification/Reference_Edits.thy ===== *)
theory Reference_Edits
  imports Reference_Text
begin

text \<open>
  The edit engine of the reference model (\<open>apply_reference_edits\<close> of \<open>src/protocol.rs\<close>):
  validation of each operation, the pairwise overlap check, the checked output length, the
  stable sort and the splice loop.
\<close>

section \<open>Validated operations\<close>

record validated_edit =
  ve_index :: nat
  ve_start_ordinal :: u64
  ve_end_ordinal :: u64
  ve_start_byte :: nat
  ve_end_byte :: nat
  ve_content :: string

definition is_insertion :: "validated_edit \<Rightarrow> bool" where
  "is_insertion v \<longleftrightarrow> ve_start_ordinal v = ve_end_ordinal v"

definition edits_overlap :: "validated_edit \<Rightarrow> validated_edit \<Rightarrow> bool" where
  "edits_overlap l r =
     (case (is_insertion l, is_insertion r) of
        (False, False) \<Rightarrow> ve_start_ordinal l < ve_end_ordinal r \<and> ve_start_ordinal r < ve_end_ordinal l
      | (True, False) \<Rightarrow> ve_start_ordinal r < ve_start_ordinal l \<and> ve_start_ordinal l < ve_end_ordinal r
      | (False, True) \<Rightarrow> ve_start_ordinal l < ve_start_ordinal r \<and> ve_start_ordinal r < ve_end_ordinal l
      | (True, True) \<Rightarrow> False)"

text \<open>One round of the validation loop, and the loop over \<open>operations.iter().enumerate()\<close>.\<close>

definition validate_operation ::
    "bytes \<Rightarrow> u64 list \<Rightarrow> nat \<Rightarrow> edit_operation \<Rightarrow> contract_error + validated_edit" where
  "validate_operation text starts index operation =
     (case position_of (\<lambda>b. b = NUL) (op_content operation) of
        Some byte \<Rightarrow> Inl (NulReplacement index byte)
      | None \<Rightarrow>
          (let start = op_start operation; end = op_end operation in
           rbind (boundary_ordinal text starts start) (\<lambda>start_ordinal.
           rbind (boundary_ordinal text starts end) (\<lambda>end_ordinal.
           if start_ordinal > end_ordinal then Inl (ReversedRange start end)
           else rbind (ok_or (FileTooLarge (pos_byte start)) (usize_of_u64 (pos_byte start))) (\<lambda>start_byte.
                rbind (ok_or (FileTooLarge (pos_byte end)) (usize_of_u64 (pos_byte end))) (\<lambda>end_byte.
                Inr \<lparr>ve_index = index, ve_start_ordinal = start_ordinal, ve_end_ordinal = end_ordinal,
                  ve_start_byte = start_byte, ve_end_byte = end_byte,
                  ve_content = op_content operation\<rparr>))))))"

fun validate_operations ::
    "bytes \<Rightarrow> u64 list \<Rightarrow> nat \<Rightarrow> edit_operation list \<Rightarrow> contract_error + validated_edit list" where
  "validate_operations text starts index [] = Inr []"
| "validate_operations text starts index (operation # rest) =
     rbind (validate_operation text starts index operation) (\<lambda>v.
     rbind (validate_operations text starts (Suc index) rest) (\<lambda>vs. Inr (v # vs)))"

text \<open>The two nested loops over pairs \<open>left < right\<close>: the first pair that overlaps.\<close>

fun first_overlap :: "validated_edit list \<Rightarrow> (nat \<times> nat) option" where
  "first_overlap [] = None"
| "first_overlap (l # rest) =
     (case find (edits_overlap l) rest of
        Some r \<Rightarrow> Some (ve_index l, ve_index r)
      | None \<Rightarrow> first_overlap rest)"

text \<open>
  The two \<open>try_fold\<close>s.  The subtraction of two \<open>usize\<close> panics on underflow.
\<close>

fun sum_removed :: "nat \<Rightarrow> validated_edit list \<Rightarrow> contract_error fault + nat" where
  "sum_removed acc [] = Inr acc"
| "sum_removed acc (v # vs) =
     rbind (expect (checked_sub_usize (ve_end_byte v) (ve_start_byte v))) (\<lambda>d.
     rbind (ok_or (Err OutputLengthOverflow) (checked_add_usize acc d)) (\<lambda>acc'.
     sum_removed acc' vs))"

fun sum_added :: "nat \<Rightarrow> validated_edit list \<Rightarrow> contract_error + nat" where
  "sum_added acc [] = Inr acc"
| "sum_added acc (v # vs) =
     rbind (ok_or OutputLengthOverflow (checked_add_usize acc (length (ve_content v)))) (\<lambda>acc'.
     sum_added acc' vs)"

definition edit_sort_key :: "validated_edit \<Rightarrow> u64 \<times> nat \<times> nat" where
  "edit_sort_key v = (ve_start_ordinal v, if is_insertion v then 0 else 1, ve_index v)"

text \<open>The output loop: \<open>cursor\<close> is the source offset copied so far; slices panic out of range.\<close>

fun splice_loop :: "bytes \<Rightarrow> nat \<Rightarrow> bytes \<Rightarrow> validated_edit list \<Rightarrow> contract_error fault + bytes" where
  "splice_loop source cursor output [] =
     rbind (expect (slice_of source cursor (length source))) (\<lambda>rest. Inr (output @ rest))"
| "splice_loop source cursor output (v # vs) =
     rbind (if ve_start_byte v > cursor
            then rbind (expect (slice_of source cursor (ve_start_byte v)))
                   (\<lambda>chunk. Inr (output @ chunk, ve_start_byte v))
            else Inr (output, cursor))
       (\<lambda>(output', cursor').
          splice_loop source (if \<not> is_insertion v then ve_end_byte v else cursor')
            (output' @ ve_content v) vs)"

definition apply_reference_edits :: "bytes \<Rightarrow> edit_operation list \<Rightarrow> contract_error fault + bytes" where
  "apply_reference_edits source operations =
     rbind (lift_err (validate_edit_count (length operations))) (\<lambda>_.
     rbind (lift_err (validate_text source)) (\<lambda>text.
     let starts = reference_line_starts text in
     rbind (lift_err (validate_operations text starts 0 operations)) (\<lambda>validated.
     case first_overlap validated of
       Some (first, second) \<Rightarrow> Inl (Err (OverlappingEdits first second))
     | None \<Rightarrow>
         rbind (sum_removed 0 validated) (\<lambda>removed.
         rbind (lift_err (sum_added 0 validated)) (\<lambda>added.
         rbind (ok_or (Err OutputLengthOverflow)
                 (Option.bind (checked_sub_usize (length source) removed)
                   (\<lambda>len. checked_add_usize len added))) (\<lambda>final_length.
         rbind (lift_err (validate_len final_length)) (\<lambda>_.
         splice_loop source 0 [] (sort_key edit_sort_key validated))))))))"

section \<open>The specification: edits on segments\<close>

text \<open>
  An edit on the segments of a text: the ordinals of its two boundaries and its content.  The
  output is described boundary by boundary: first the contents inserted at the boundary in
  request order, then the content that replaces a range starting there, then the segment itself
  unless some range covers it.
\<close>

type_synonym line_edit = "nat \<times> nat \<times> bytes"

definition line_edit_of :: "edit_operation \<Rightarrow> line_edit" where
  "line_edit_of operation =
     (unat (pos_line (op_start operation)) - 1, unat (pos_line (op_end operation)) - 1, op_content operation)"

definition inserted_at :: "line_edit list \<Rightarrow> nat \<Rightarrow> bytes" where
  "inserted_at es k = concat (map (\<lambda>(s, e, c). c) (filter (\<lambda>(s, e, c). s = k \<and> e = k) es))"

definition replaced_at :: "line_edit list \<Rightarrow> nat \<Rightarrow> bytes" where
  "replaced_at es k = concat (map (\<lambda>(s, e, c). c) (filter (\<lambda>(s, e, c). s = k \<and> e \<noteq> k) es))"

definition covered :: "line_edit list \<Rightarrow> nat \<Rightarrow> bool" where
  "covered es k \<longleftrightarrow> list_ex (\<lambda>(s, e, c). s \<le> k \<and> k < e) es"

definition piece :: "bytes \<Rightarrow> line_edit list \<Rightarrow> nat \<Rightarrow> bytes" where
  "piece text es k =
     inserted_at es k @ replaced_at es k @
     (if k < seg_count text \<and> \<not> covered es k then segments text ! k else [])"

definition edit_spec :: "bytes \<Rightarrow> line_edit list \<Rightarrow> bytes" where
  "edit_spec text es = concat (map (piece text es) [0..<Suc (seg_count text)])"

text \<open>Two line edits conflict when they share a segment or one inserts strictly inside the other.\<close>

definition line_conflict :: "line_edit \<Rightarrow> line_edit \<Rightarrow> bool" where
  "line_conflict a b =
     (case (a, b) of ((s, e, _), (s', e', _)) \<Rightarrow>
       (s < e \<and> s' < e' \<and> max s s' < min e e') \<or>
       (s = e \<and> s' < s \<and> s < e') \<or> (s' = e' \<and> s < s' \<and> s' < e))"

definition is_boundary :: "bytes \<Rightarrow> position \<Rightarrow> bool" where
  "is_boundary text p \<longleftrightarrow> boundary_at text p (unat (pos_line p) - 1)"

definition operation_ok :: "bytes \<Rightarrow> edit_operation \<Rightarrow> bool" where
  "operation_ok text operation \<longleftrightarrow>
     NUL \<notin> set (op_content operation) \<and>
     is_boundary text (op_start operation) \<and> is_boundary text (op_end operation) \<and>
     pos_line (op_start operation) \<le> pos_line (op_end operation)"

definition batch_ok :: "bytes \<Rightarrow> edit_operation list \<Rightarrow> bool" where
  "batch_ok source operations \<longleftrightarrow>
     0 < length operations \<and> length operations \<le> 1024 \<and> text_ok source \<and>
     (\<forall>operation\<in>set operations. operation_ok source operation) \<and>
     sorted_wrt (\<lambda>a b. \<not> line_conflict a b) (map line_edit_of operations) \<and>
     length (edit_spec source (map line_edit_of operations)) \<le> max_file_len"

section \<open>What validation yields\<close>

definition validated_of :: "nat \<Rightarrow> edit_operation \<Rightarrow> validated_edit" where
  "validated_of index operation =
     \<lparr>ve_index = index, ve_start_ordinal = pos_line (op_start operation) - 1,
      ve_end_ordinal = pos_line (op_end operation) - 1,
      ve_start_byte = unat (pos_byte (op_start operation)),
      ve_end_byte = unat (pos_byte (op_end operation)), ve_content = op_content operation\<rparr>"

fun validated_list :: "nat \<Rightarrow> edit_operation list \<Rightarrow> validated_edit list" where
  "validated_list i [] = []"
| "validated_list i (operation # rest) = validated_of i operation # validated_list (Suc i) rest"

definition line_of_validated :: "validated_edit \<Rightarrow> line_edit" where
  "line_of_validated v = (unat (ve_start_ordinal v), unat (ve_end_ordinal v), ve_content v)"

text \<open>A validated edit of a text: ordered ordinals of boundaries, with their offsets.\<close>

definition ve_ok :: "bytes \<Rightarrow> validated_edit \<Rightarrow> bool" where
  "ve_ok text v \<longleftrightarrow>
     ve_start_ordinal v \<le> ve_end_ordinal v \<and> unat (ve_end_ordinal v) \<le> seg_count text \<and>
     ve_start_byte v = seg_off text (unat (ve_start_ordinal v)) \<and>
     ve_end_byte v = seg_off text (unat (ve_end_ordinal v))"

lemma boundary_atD: "boundary_at text p k \<Longrightarrow> is_boundary text p \<and> k = unat (pos_line p) - 1"
  by (simp add: is_boundary_def boundary_at_def)

lemma is_boundary_line: "is_boundary text p \<Longrightarrow> pos_line p \<noteq> 0 \<and> unat (pos_line p - 1) = unat (pos_line p) - 1"
proof -
  assume "is_boundary text p"
  then have "unat (pos_line p) \<noteq> 0" by (auto simp: is_boundary_def boundary_at_def)
  then have "pos_line p \<noteq> 0" by auto
  then show ?thesis by (simp add: unat_minus_one_u64)
qed

lemma boundary_ordinal_line:
  "text_ok text \<Longrightarrow> boundary_ordinal text (reference_line_starts text) p = Inr w \<longleftrightarrow>
    is_boundary text p \<and> w = pos_line p - 1"
  by (auto simp: boundary_ordinal_eq_Inr word_unat_eq_iff is_boundary_line
      dest!: boundary_atD) (simp add: is_boundary_def is_boundary_line)

lemma line_pred_le:
  "is_boundary text p \<Longrightarrow> is_boundary text q \<Longrightarrow> pos_line p - 1 \<le> pos_line q - 1 \<longleftrightarrow> pos_line p \<le> pos_line q"
  using is_boundary_line [of "text" p] is_boundary_line [of "text" q]
  by (auto simp: word_le_nat_alt is_boundary_def boundary_at_def)

lemma validate_operation_eq_Inr:
  assumes ok: "text_ok text"
  shows "validate_operation text (reference_line_starts text) i operation = Inr v \<longleftrightarrow>
    operation_ok text operation \<and> v = validated_of i operation"
proof (cases "NUL \<in> set (op_content operation)")
  case False
  then have nul: "position_of (\<lambda>b. b = NUL) (op_content operation) = None" by auto
  let ?s = "op_start operation" and ?e = "op_end operation"
  let ?starts = "reference_line_starts text"
  show ?thesis
  proof (cases "is_boundary text ?s \<and> is_boundary text ?e")
    case True
    then have s: "boundary_ordinal text ?starts ?s = Inr (pos_line ?s - 1)"
      and e: "boundary_ordinal text ?starts ?e = Inr (pos_line ?e - 1)"
      by (simp_all add: boundary_ordinal_line [OF ok])
    have le: "pos_line ?e - 1 < pos_line ?s - 1 \<longleftrightarrow> \<not> pos_line ?s \<le> pos_line ?e"
      using line_pred_le [of "text" ?s ?e] True not_le by blast
    have "validate_operation text ?starts i operation =
        (if pos_line ?s \<le> pos_line ?e then Inr (validated_of i operation) else Inl (ReversedRange ?s ?e))"
      unfolding validate_operation_def nul Let_def option.case s e rbind_simps le
      by (simp add: validated_of_def)
    then show ?thesis using False True by (auto simp: operation_ok_def)
  next
    case no: False
    have "validate_operation text ?starts i operation \<noteq> Inr v"
      unfolding validate_operation_def nul Let_def option.case
      using no by (auto simp: rbind_eq_Inr boundary_ordinal_line [OF ok])
    then show ?thesis using no by (auto simp: operation_ok_def)
  qed
next
  case True
  then obtain k where "position_of (\<lambda>b. b = NUL) (op_content operation) = Some k"
    by (cases "position_of (\<lambda>b. b = NUL) (op_content operation)") auto
  with True show ?thesis by (simp add: validate_operation_def operation_ok_def)
qed

lemma validate_operations_eq_Inr:
  "text_ok text \<Longrightarrow> validate_operations text (reference_line_starts text) i ops = Inr vs \<longleftrightarrow>
    (\<forall>operation\<in>set ops. operation_ok text operation) \<and> vs = validated_list i ops"
  by (induction ops arbitrary: i vs)
    (auto simp: result_iffs validate_operation_eq_Inr)

lemma operation_lines:
  "operation_ok text operation \<Longrightarrow>
    unat (pos_line (op_start operation) - 1) = unat (pos_line (op_start operation)) - 1 \<and>
    unat (pos_line (op_end operation) - 1) = unat (pos_line (op_end operation)) - 1"
  using is_boundary_line [of "text" "op_start operation"] is_boundary_line [of "text" "op_end operation"]
  by (simp add: operation_ok_def)

lemma validated_of_ok: "operation_ok text operation \<Longrightarrow> ve_ok text (validated_of i operation)"
  using line_pred_le [of "text" "op_start operation" "op_end operation"] operation_lines [of "text" operation]
  by (simp add: operation_ok_def ve_ok_def validated_of_def is_boundary_def boundary_at_def)

lemma line_of_validated_of: "operation_ok text operation \<Longrightarrow> line_of_validated (validated_of i operation) = line_edit_of operation"
  using operation_lines [of "text" operation]
  by (simp add: line_of_validated_def validated_of_def line_edit_of_def)

lemma set_validated_list: "v \<in> set (validated_list i ops) \<Longrightarrow> \<exists>k. \<exists>operation\<in>set ops. v = validated_of k operation"
proof (induction ops arbitrary: i)
  case (Cons a ops)
  then consider "v = validated_of i a" | "v \<in> set (validated_list (Suc i) ops)" by auto
  then show ?case using Cons.IH by cases (auto, metis)
qed simp

lemma lines_of_validated_list:
  "\<forall>operation\<in>set ops. operation_ok text operation \<Longrightarrow>
    map line_of_validated (validated_list i ops) = map line_edit_of ops"
  by (induction ops arbitrary: i) (auto simp: line_of_validated_of)

lemma index_validated_list: "map ve_index (validated_list i ops) = [i..<i + length ops]"
proof (induction ops arbitrary: i)
  case (Cons operation ops)
  have "[i..<i + length (operation # ops)] = i # [Suc i..<Suc i + length ops]" by (simp add: upt_conv_Cons del: upt_Suc)
  with Cons show ?case by (simp add: validated_of_def del: upt_Suc)
qed simp

section \<open>The overlap check\<close>

lemma edits_overlap_sym: "edits_overlap l r \<longleftrightarrow> edits_overlap r l"
  by (auto simp: edits_overlap_def split: bool.splits)

lemma edits_overlap_conflict:
  "ve_start_ordinal l \<le> ve_end_ordinal l \<Longrightarrow> ve_start_ordinal r \<le> ve_end_ordinal r \<Longrightarrow>
    edits_overlap l r \<longleftrightarrow> line_conflict (line_of_validated l) (line_of_validated r)"
  by (auto simp: edits_overlap_def line_conflict_def line_of_validated_def is_insertion_def
      word_le_nat_alt word_less_nat_alt word_unat_eq_iff split: bool.splits)

lemma find_SomeD: "find P xs = Some x \<Longrightarrow> x \<in> set xs \<and> P x"
  by (induction xs) (auto split: if_splits)

lemma first_overlap_None: "first_overlap vs = None \<longleftrightarrow> sorted_wrt (\<lambda>l r. \<not> edits_overlap l r) vs"
  by (induction vs) (auto simp: find_None_iff split: option.splits dest: find_SomeD)

lemma sorted_wrt_sym_sort:
  assumes sym: "\<And>x y. R x y \<longleftrightarrow> R y x" and "distinct xs" and "sorted_wrt R xs"
  shows "sorted_wrt R (sort_key f xs)"
proof -
  have any: "sorted_wrt R ys" if "\<And>x y. x \<in> set ys \<Longrightarrow> y \<in> set ys \<Longrightarrow> x \<noteq> y \<Longrightarrow> R x y" "distinct ys" for ys
    using that by (induction ys) auto
  have "R x y" if "x \<in> set xs" "y \<in> set xs" "x \<noteq> y" for x y
    using assms that by (induction xs) (auto dest: sym [THEN iffD1])
  then show ?thesis using assms(2) by (intro any) auto
qed

end
