(* ===== verification/Edit_Refinement.thy ===== *)
theory Edit_Refinement
  imports Reference_Edits
begin

text \<open>
  The reference edit engine refines the boundary-by-boundary specification \<open>edit_spec\<close>: the
  sorted batch forms a chain of disjoint ranges, the splice loop outputs the chain, the chain is
  the specification, the checked length is the length of the output, no slice panics, and the
  output is valid text.
\<close>

section \<open>The chain of a sorted batch\<close>

fun chain_ready :: "bytes \<Rightarrow> nat \<Rightarrow> validated_edit list \<Rightarrow> bool" where
  "chain_ready text c [] \<longleftrightarrow> c \<le> seg_count text"
| "chain_ready text c (v # vs) \<longleftrightarrow>
     c \<le> unat (ve_start_ordinal v) \<and> ve_ok text v \<and> chain_ready text (unat (ve_end_ordinal v)) vs"

fun chain_out :: "bytes \<Rightarrow> nat \<Rightarrow> validated_edit list \<Rightarrow> bytes" where
  "chain_out text c [] = concat (drop c (segments text))"
| "chain_out text c (v # vs) =
     concat (map ((!) (segments text)) [c..<min (unat (ve_start_ordinal v)) (seg_count text)]) @
     ve_content v @ chain_out text (unat (ve_end_ordinal v)) vs"

lemma splice_loop_chain:
  "chain_ready text c vs \<Longrightarrow> splice_loop text (seg_off text c) out vs = Inr (out @ chain_out text c vs)"
proof (induction vs arbitrary: c out)
  case Nil
  have "slice_of text (seg_off text c) (length text) = Some (drop (seg_off text c) text)"
    by (simp add: slice_of_def)
  then show ?case by (simp add: drop_seg_off)
next
  case (Cons v vs)
  let ?s = "unat (ve_start_ordinal v)" and ?e = "unat (ve_end_ordinal v)"
  from Cons.prems have c: "c \<le> ?s" and v: "ve_ok text v" and ready: "chain_ready text ?e vs" by auto
  let ?chunk = "concat (map ((!) (segments text)) [c..<min ?s (seg_count text)])"
  have slice: "slice_of text (seg_off text c) (seg_off text ?s) = Some ?chunk" by (rule slice_seg_off [OF c])
  have start: "ve_start_byte v = seg_off text ?s" using v by (simp add: ve_ok_def)
  have empty: "?chunk = []" if "\<not> seg_off text ?s > seg_off text c"
    using that length_slice [OF slice] by simp
  have next_cursor: "(if \<not> is_insertion v then ve_end_byte v else seg_off text ?s) = seg_off text ?e"
    using v by (simp add: is_insertion_def ve_ok_def)
  have same: "seg_off text c = seg_off text ?s" if "\<not> seg_off text ?s > seg_off text c"
    using that seg_off_mono [OF c, of "text"] by simp
  show ?case
  proof (cases "seg_off text ?s > seg_off text c")
    case True
    then show ?thesis using slice start next_cursor Cons.IH [OF ready, of "out @ ?chunk @ ve_content v"] by simp
  next
    case False
    then show ?thesis
      using start next_cursor Cons.IH [OF ready, of "out @ ve_content v"] empty [OF False] same [OF False] by simp
  qed
qed

lemma chain_lengths:
  "chain_ready text c vs \<Longrightarrow>
    length (chain_out text c vs) + sum_list (map (\<lambda>v. ve_end_byte v - ve_start_byte v) vs) =
      length text - seg_off text c + sum_list (map (\<lambda>v. length (ve_content v)) vs) \<and>
    sum_list (map (\<lambda>v. ve_end_byte v - ve_start_byte v) vs) \<le> length text - seg_off text c"
proof (induction vs arbitrary: c)
  case Nil
  have "length (concat (drop c (segments text))) = length text - seg_off text c"
    by (metis drop_seg_off length_drop)
  then show ?case by simp
next
  case (Cons v vs)
  let ?s = "unat (ve_start_ordinal v)" and ?e = "unat (ve_end_ordinal v)"
  from Cons.prems have c: "c \<le> ?s" and v: "ve_ok text v" and ready: "chain_ready text ?e vs" by auto
  have bytes: "ve_start_byte v = seg_off text ?s" "ve_end_byte v = seg_off text ?e" "?s \<le> ?e"
    using v by (simp_all add: ve_ok_def word_le_nat_alt)
  have "length (concat (map ((!) (segments text)) [c..<min ?s (seg_count text)])) = seg_off text ?s - seg_off text c"
    using length_slice [OF slice_seg_off [OF c]] .
  moreover have "seg_off text c \<le> seg_off text ?s" "seg_off text ?s \<le> seg_off text ?e" "seg_off text ?e \<le> length text"
    using seg_off_mono [OF c] seg_off_mono [OF bytes(3)] seg_off_le by blast+
  moreover note Cons.IH [OF ready]
  ultimately show ?case
    unfolding chain_out.simps length_append list.map sum_list.Cons bytes(1,2) by linarith
qed

section \<open>A sorted batch without overlaps is a chain\<close>

lemma ve_ok_le: "ve_ok text v \<Longrightarrow> unat (ve_start_ordinal v) \<le> unat (ve_end_ordinal v)"
  by (simp add: ve_ok_def word_le_nat_alt)

lemma sort_key_step:
  assumes "ve_ok text v" "ve_ok text w" "edit_sort_key v \<le> edit_sort_key w" "\<not> edits_overlap v w"
  shows "unat (ve_end_ordinal v) \<le> unat (ve_start_ordinal w)"
proof -
  have ord: "unat (ve_start_ordinal v) < unat (ve_start_ordinal w) \<or>
      (unat (ve_start_ordinal v) = unat (ve_start_ordinal w) \<and> (is_insertion v \<or> \<not> is_insertion w))"
    using assms(3) by (auto simp: edit_sort_key_def less_eq_prod_def less_prod_def word_less_nat_alt word_le_nat_alt word_unat_eq_iff split: if_splits)
  have ins: "is_insertion x \<longleftrightarrow> unat (ve_start_ordinal x) = unat (ve_end_ordinal x)" for x
    by (simp add: is_insertion_def word_unat_eq_iff)
  note le = ve_ok_le [OF assms(1)] ve_ok_le [OF assms(2)]
  show ?thesis
    using ord le assms(4) ins [of v] ins [of w]
    by (cases "is_insertion v"; cases "is_insertion w") (auto simp: edits_overlap_def word_less_nat_alt)
qed

lemma chain_ready_sorted:
  "\<forall>v\<in>set vs. ve_ok text v \<Longrightarrow> sorted (map edit_sort_key vs) \<Longrightarrow> sorted_wrt (\<lambda>l r. \<not> edits_overlap l r) vs \<Longrightarrow>
    \<forall>v\<in>set vs. c \<le> unat (ve_start_ordinal v) \<Longrightarrow> c \<le> seg_count text \<Longrightarrow> chain_ready text c vs"
proof (induction vs arbitrary: c)
  case Nil
  then show ?case by simp
next
  case (Cons v vs)
  have "\<forall>w\<in>set vs. unat (ve_end_ordinal v) \<le> unat (ve_start_ordinal w)"
    using Cons.prems sort_key_step [of "text" v] by auto
  moreover have "unat (ve_end_ordinal v) \<le> seg_count text" using Cons.prems(1) by (simp add: ve_ok_def)
  ultimately show ?case using Cons by simp
qed

section \<open>The chain is the specification\<close>

lemma inserted_at_simps [simp]:
  "inserted_at [] k = []"
  "inserted_at ((s, e, c) # es) k = (if s = k \<and> e = k then c @ inserted_at es k else inserted_at es k)"
  by (simp_all add: inserted_at_def)

lemma replaced_at_simps [simp]:
  "replaced_at [] k = []"
  "replaced_at ((s, e, c) # es) k = (if s = k \<and> e \<noteq> k then c @ replaced_at es k else replaced_at es k)"
  by (simp_all add: replaced_at_def)

lemma covered_simps [simp]:
  "covered [] k \<longleftrightarrow> False"
  "covered ((s, e, c) # es) k \<longleftrightarrow> (s \<le> k \<and> k < e) \<or> covered es k"
  by (simp_all add: covered_def)

lemma nothing_before:
  "\<forall>(s, e, c)\<in>set es. k < s \<Longrightarrow> inserted_at es k = [] \<and> replaced_at es k = [] \<and> \<not> covered es k"
  by (induction es) auto

lemma piece_before: "\<forall>(s, e, c)\<in>set es. k < s \<Longrightarrow> piece text es k = (if k < seg_count text then segments text ! k else [])"
  using nothing_before [of es k] by (simp add: piece_def)

lemma chain_ready_starts:
  "chain_ready text c vs \<Longrightarrow> c \<le> seg_count text \<and> (\<forall>v\<in>set vs. c \<le> unat (ve_start_ordinal v) \<and> ve_ok text v)"
proof (induction vs arbitrary: c)
  case (Cons v vs)
  then have "unat (ve_end_ordinal v) \<le> seg_count text \<and>
      (\<forall>w\<in>set vs. unat (ve_end_ordinal v) \<le> unat (ve_start_ordinal w) \<and> ve_ok text w)"
    and "c \<le> unat (ve_start_ordinal v)" "ve_ok text v" by auto
  moreover from this ve_ok_le [of "text" v] have "c \<le> unat (ve_end_ordinal v)" by simp
  ultimately show ?case by force
qed simp

lemma upt_split: "a \<le> b \<Longrightarrow> b \<le> c \<Longrightarrow> [a..<c] = [a..<b] @ [b..<c]"
  using upt_add_eq_append [of a b "c - b"] by simp

lemma pieces_before:
  assumes "\<forall>(s, e, c)\<in>set es. b \<le> s"
  shows "concat (map (piece text es) [a..<b]) = concat (map ((!) (segments text)) [a..<min b (seg_count text)])"
proof -
  have below: "piece text es k = (if k < seg_count text then segments text ! k else [])" if "k < b" for k
    using that assms by (intro piece_before) force
  show ?thesis
  proof (cases "b \<le> seg_count text")
    case True
    have "map (piece text es) [a..<b] = map ((!) (segments text)) [a..<b]"
      using True by (intro map_cong) (auto simp: below)
    then show ?thesis using True by (simp only: min_absorb1)
  next
    case False
    let ?n = "seg_count text"
    show ?thesis
    proof (cases "a \<le> b")
      case True
      then have "[a..<b] = [a..<max a ?n] @ [max a ?n..<b]" using False by (intro upt_split) auto
      moreover have "concat (map (piece text es) [max a ?n..<b]) = []" by (auto simp: below)
      moreover have "concat (map (piece text es) [a..<max a ?n]) = concat (map ((!) (segments text)) [a..<max a ?n])"
        using False by (intro arg_cong [of _ _ concat] map_cong) (auto simp: below max_def split: if_splits)
      moreover have "[a..<max a ?n] = [a..<min b ?n]" using False by (simp add: max_def)
      ultimately show ?thesis by (simp only: map_append concat_append append_Nil2)
    qed simp
  qed
qed

lemma chain_out_pieces:
  "chain_ready text c vs \<Longrightarrow>
    chain_out text c vs = concat (map (piece text (map line_of_validated vs)) [c..<Suc (seg_count text)])"
proof (induction vs arbitrary: c)
  case Nil
  have "drop c (segments text) = map ((!) (segments text)) [c..<seg_count text]"
    by (rule nth_equalityI) (auto simp: seg_count_def)
  then show ?case using Nil pieces_before [of "[]" "Suc (seg_count text)" "text" c] by simp
next
  case (Cons v vs)
  let ?n = "seg_count text" and ?s = "unat (ve_start_ordinal v)" and ?e = "unat (ve_end_ordinal v)"
  let ?rest = "map line_of_validated vs"
  let ?all = "map line_of_validated (v # vs)"
  from Cons.prems have c: "c \<le> ?s" and v: "ve_ok text v" and ready: "chain_ready text ?e vs" by auto
  have se: "?s \<le> ?e" "?e \<le> ?n" using v by (simp_all add: ve_ok_def word_le_nat_alt)
  have later: "\<forall>(s, e, ct)\<in>set ?rest. ?e \<le> s"
    using chain_ready_starts [OF ready] by (auto simp: line_of_validated_def)
  have all: "\<forall>(s, e, ct)\<in>set ?all. ?s \<le> s" using later se by (auto simp: line_of_validated_def)
  have abs_v: "?all = (?s, ?e, ve_content v) # ?rest" by (simp add: line_of_validated_def)
  have split: "[c..<Suc ?n] = [c..<?s] @ [?s..<?e] @ [?e..<Suc ?n]"
    using upt_split [of c ?s "Suc ?n"] upt_split [of ?s ?e "Suc ?n"] c se by (simp del: upt_Suc)
  have upper: "concat (map (piece text ?all) [?s..<?e] @ map (piece text ?all) [?e..<Suc ?n]) =
      ve_content v @ concat (map (piece text ?rest) [?e..<Suc ?n])"
  proof (cases "?s = ?e")
    case True
    have "[?e..<Suc ?n] = ?e # [Suc ?e..<Suc ?n]" using se(2) by (simp add: upt_conv_Cons del: upt_Suc)
    moreover have "piece text ?all ?e = ve_content v @ piece text ?rest ?e"
      using True unfolding abs_v by (simp add: piece_def)
    moreover have "concat (map (piece text ?all) [Suc ?e..<Suc ?n]) = concat (map (piece text ?rest) [Suc ?e..<Suc ?n])"
      using True unfolding abs_v by (intro arg_cong [of _ _ concat] map_cong) (auto simp: piece_def)
    ultimately show ?thesis using True by (simp del: upt_Suc)
  next
    case False
    then have lt: "?s < ?e" using se by simp
    have "[?s..<?e] = ?s # [Suc ?s..<?e]" using lt by (rule upt_conv_Cons)
    moreover have "piece text ?all ?s = ve_content v"
      using lt later nothing_before [of ?rest ?s] unfolding abs_v by (force simp: piece_def)
    moreover have "concat (map (piece text ?all) [Suc ?s..<?e]) = []"
    proof -
      have "piece text ?all k = []" if "Suc ?s \<le> k" "k < ?e" for k
        using that later nothing_before [of ?rest k] unfolding abs_v by (force simp: piece_def)
      then show ?thesis by auto
    qed
    moreover have "concat (map (piece text ?all) [?e..<Suc ?n]) = concat (map (piece text ?rest) [?e..<Suc ?n])"
      using lt unfolding abs_v by (intro arg_cong [of _ _ concat] map_cong) (auto simp: piece_def)
    ultimately show ?thesis by (simp del: upt_Suc)
  qed
  show ?case
    using pieces_before [OF all, of "text" c] upper Cons.IH [OF ready]
    by (simp only: chain_out.simps split map_append concat_append)
qed

section \<open>The sort does not change the specification\<close>

lemma filter_sorted_batch:
  assumes "sorted (map ve_index vs)" "\<And>v w. P v \<Longrightarrow> P w \<Longrightarrow> fst (edit_sort_key v) = fst (edit_sort_key w) \<and>
      fst (snd (edit_sort_key v)) = fst (snd (edit_sort_key w))"
  shows "filter P (sort_key edit_sort_key vs) = filter P vs"
proof -
  have "sorted (map edit_sort_key (filter P vs))"
    using assms(1)
  proof (induction vs)
    case (Cons v vs)
    have "edit_sort_key v \<le> edit_sort_key w" if "P v" "w \<in> set vs" "P w" for w
      using assms(2) [OF that(1,3)] Cons.prems that(2) by (auto simp: edit_sort_key_def less_eq_prod_def)
    with Cons show ?case by auto
  qed simp
  then show ?thesis by (simp add: filter_sort sort_key_id_if_sorted)
qed

lemma inserted_at_lines:
  "inserted_at (map line_of_validated vs) k =
    concat (map ve_content (filter (\<lambda>v. unat (ve_start_ordinal v) = k \<and> unat (ve_end_ordinal v) = k) vs))"
  by (induction vs) (auto simp: line_of_validated_def)

lemma replaced_at_lines:
  "replaced_at (map line_of_validated vs) k =
    concat (map ve_content (filter (\<lambda>v. unat (ve_start_ordinal v) = k \<and> unat (ve_end_ordinal v) \<noteq> k) vs))"
  by (induction vs) (auto simp: line_of_validated_def)

lemma covered_set: "set es = set fs \<Longrightarrow> covered es k \<longleftrightarrow> covered fs k"
  by (simp add: covered_def list_ex_iff)

lemma piece_sorted_batch:
  assumes "sorted (map ve_index vs)"
  shows "piece text (map line_of_validated (sort_key edit_sort_key vs)) k = piece text (map line_of_validated vs) k"
proof -
  let ?sorted = "sort_key edit_sort_key vs"
  have ins: "is_insertion x \<longleftrightarrow> unat (ve_start_ordinal x) = unat (ve_end_ordinal x)" for x
    by (simp add: is_insertion_def word_unat_eq_iff)
  have "inserted_at (map line_of_validated ?sorted) k = inserted_at (map line_of_validated vs) k"
    unfolding inserted_at_lines
    by (subst filter_sorted_batch [OF assms]) (auto simp: edit_sort_key_def word_unat_eq_iff ins)
  moreover have "replaced_at (map line_of_validated ?sorted) k = replaced_at (map line_of_validated vs) k"
    unfolding replaced_at_lines
    by (subst filter_sorted_batch [OF assms]) (auto simp: edit_sort_key_def word_unat_eq_iff ins)
  moreover have "covered (map line_of_validated ?sorted) k \<longleftrightarrow> covered (map line_of_validated vs) k"
    by (rule covered_set) simp
  ultimately show ?thesis by (simp add: piece_def)
qed

section \<open>The checked lengths\<close>

lemma sum_added_eq_Inr:
  "acc \<le> usize_max \<Longrightarrow> sum_added acc vs = Inr n \<longleftrightarrow>
    n = acc + sum_list (map (\<lambda>v. length (ve_content v)) vs) \<and> n \<le> usize_max"
proof (induction vs arbitrary: acc)
  case (Cons v vs)
  show ?case
  proof (cases "acc + length (ve_content v) \<le> usize_max")
    case True
    then show ?thesis using Cons.IH [OF True] by (simp add: checked_add_usize_def add.assoc)
  next
    case False
    then show ?thesis by (simp add: checked_add_usize_def)
  qed
qed auto

lemma sum_removed_eq:
  "\<forall>v\<in>set vs. ve_start_byte v \<le> ve_end_byte v \<Longrightarrow>
    acc + sum_list (map (\<lambda>v. ve_end_byte v - ve_start_byte v) vs) \<le> usize_max \<Longrightarrow>
    sum_removed acc vs = Inr (acc + sum_list (map (\<lambda>v. ve_end_byte v - ve_start_byte v) vs))"
proof (induction vs arbitrary: acc)
  case (Cons v vs)
  let ?d = "ve_end_byte v - ve_start_byte v"
  from Cons.prems have d: "ve_start_byte v \<le> ve_end_byte v" and
    fits: "acc + ?d + sum_list (map (\<lambda>v. ve_end_byte v - ve_start_byte v) vs) \<le> usize_max" by simp_all
  then have "acc + ?d \<le> usize_max" by linarith
  then show ?case using Cons.IH [OF _ fits] Cons.prems(1) d
    by (simp add: checked_add_usize_def checked_sub_usize_def add.assoc)
qed simp

lemma sum_list_sort:
  fixes g :: "'a \<Rightarrow> nat"
  shows "sum_list (map g (sort_key f xs)) = sum_list (map g xs)"
  by (metis mset_map mset_sort sum_mset_sum_list)

section \<open>The refinement\<close>

text \<open>The facts every accepted batch provides, before the length checks.\<close>

definition batch_valid :: "bytes \<Rightarrow> edit_operation list \<Rightarrow> bool" where
  "batch_valid source operations \<longleftrightarrow>
     0 < length operations \<and> length operations \<le> 1024 \<and> text_ok source \<and>
     (\<forall>operation\<in>set operations. operation_ok source operation) \<and>
     sorted_wrt (\<lambda>a b. \<not> line_conflict a b) (map line_edit_of operations)"

lemma batch_ok_valid:
  "batch_ok source operations \<longleftrightarrow> batch_valid source operations \<and>
    length (edit_spec source (map line_edit_of operations)) \<le> max_file_len"
  by (auto simp: batch_ok_def batch_valid_def)

lemma validated_list_ok:
  "\<forall>operation\<in>set ops. operation_ok text operation \<Longrightarrow> v \<in> set (validated_list i ops) \<Longrightarrow> ve_ok text v"
  using set_validated_list [of v i ops] validated_of_ok by blast

lemma overlaps_are_conflicts:
  assumes "\<forall>v\<in>set vs. ve_ok text v"
  shows "sorted_wrt (\<lambda>l r. \<not> edits_overlap l r) vs \<longleftrightarrow>
    sorted_wrt (\<lambda>a b. \<not> line_conflict a b) (map line_of_validated vs)"
  using assms by (induction vs) (auto simp: edits_overlap_conflict ve_ok_def)

lemma batch_chain:
  assumes "batch_valid source ops"
  defines "vs \<equiv> sort_key edit_sort_key (validated_list 0 ops)"
  shows "chain_ready source 0 vs"
    and "chain_out source 0 vs = edit_spec source (map line_edit_of ops)"
proof -
  let ?val = "validated_list 0 ops"
  have ops: "\<forall>operation\<in>set ops. operation_ok source operation"
    and conflicts: "sorted_wrt (\<lambda>a b. \<not> line_conflict a b) (map line_edit_of ops)"
    using assms(1) by (simp_all add: batch_valid_def)
  have ok: "\<forall>v\<in>set ?val. ve_ok source v" using validated_list_ok [OF ops] by blast
  have index: "map ve_index ?val = [0..<length ops]" using index_validated_list [of 0 ops] by simp
  have "distinct ?val" using index distinct_map [of ve_index ?val] by simp
  moreover have "sorted_wrt (\<lambda>l r. \<not> edits_overlap l r) ?val"
    using conflicts overlaps_are_conflicts [OF ok] lines_of_validated_list [OF ops] by simp
  ultimately have "sorted_wrt (\<lambda>l r. \<not> edits_overlap l r) vs"
    unfolding vs_def by (intro sorted_wrt_sym_sort) (auto simp: edits_overlap_sym)
  moreover have "\<forall>v\<in>set vs. ve_ok source v" using ok by (simp add: vs_def)
  moreover have "sorted (map edit_sort_key vs)" by (simp add: vs_def)
  ultimately show ready: "chain_ready source 0 vs" by (intro chain_ready_sorted) auto
  have "piece source (map line_of_validated vs) = piece source (map line_of_validated ?val)"
    unfolding vs_def by (intro ext piece_sorted_batch) (simp only: index sorted_upt)
  then show "chain_out source 0 vs = edit_spec source (map line_edit_of ops)"
    using chain_out_pieces [OF ready] lines_of_validated_list [OF ops]
    by (simp only: edit_spec_def)
qed

text \<open>What the engine does with a valid batch: only the length checks remain.\<close>

lemma apply_valid_batch:
  assumes valid: "batch_valid source ops"
  defines "out \<equiv> edit_spec source (map line_edit_of ops)"
  shows "if length out \<le> max_file_len then apply_reference_edits source ops = Inr out
    else \<exists>e. apply_reference_edits source ops = Inl (Err e)"
proof -
  let ?val = "validated_list 0 ops" and ?starts = "reference_line_starts source"
  let ?vs = "sort_key edit_sort_key ?val"
  define removed where "removed = sum_list (map (\<lambda>v. ve_end_byte v - ve_start_byte v) ?val)"
  define added where "added = sum_list (map (\<lambda>v. length (ve_content v)) ?val)"
  have count: "validate_edit_count (length ops) = Inr ()" and src: "text_ok source"
    and ops: "\<forall>operation\<in>set ops. operation_ok source operation"
    and conflicts: "sorted_wrt (\<lambda>a b. \<not> line_conflict a b) (map line_edit_of ops)"
    using valid by (simp_all add: batch_valid_def validate_edit_count_eq_Inr)
  have ok: "\<forall>v\<in>set ?val. ve_ok source v" using validated_list_ok [OF ops] by blast
  have val: "validate_operations source ?starts 0 ops = Inr ?val"
    using validate_operations_eq_Inr [OF src] ops by blast
  have overlap: "first_overlap ?val = None"
    using conflicts overlaps_are_conflicts [OF ok] lines_of_validated_list [OF ops] first_overlap_None by simp
  have ready: "chain_ready source 0 ?vs" and chain: "chain_out source 0 ?vs = out"
    using batch_chain [OF valid] by (simp_all add: out_def)
  have lengths: "length out + removed = length source + added" "removed \<le> length source"
    using chain_lengths [OF ready] by (simp_all add: chain sum_list_sort removed_def added_def)
  have small: "length source \<le> usize_max" using text_ok_parts [OF src] by simp
  have bytes: "\<forall>v\<in>set ?val. ve_start_byte v \<le> ve_end_byte v"
    using ok by (simp add: ve_ok_def word_le_nat_alt seg_off_mono)
  have rem: "sum_removed 0 ?val = Inr removed"
    using sum_removed_eq [OF bytes, of 0] lengths(2) small by (simp add: removed_def)
  have splice: "splice_loop source 0 [] ?vs = Inr out"
    using splice_loop_chain [OF ready, of "[]"] chain by simp
  have run: "apply_reference_edits source ops =
      rbind (lift_err (sum_added 0 ?val)) (\<lambda>added.
        rbind (ok_or (Err OutputLengthOverflow)
          (Option.bind (checked_sub_usize (length source) removed) (\<lambda>len. checked_add_usize len added)))
          (\<lambda>n. rbind (lift_err (validate_len n)) (\<lambda>_. Inr out)))"
    unfolding apply_reference_edits_def Let_def
    by (simp add: count src val overlap rem splice)
  show ?thesis
  proof (cases "added \<le> usize_max")
    case True
    then have add: "sum_added 0 ?val = Inr added" using sum_added_eq_Inr [of 0] by (simp add: added_def)
    have final: "Option.bind (checked_sub_usize (length source) removed) (\<lambda>len. checked_add_usize len added) =
        (if length out \<le> usize_max then Some (length out) else None)"
    proof -
      have "length source - removed + added = length out" using lengths by linarith
      then show ?thesis using lengths(2) by (simp add: checked_sub_usize_def checked_add_usize_def)
    qed
    show ?thesis
    proof (cases "length out \<le> max_file_len")
      case True
      then have "validate_len (length out) = Inr (of_nat (length out))" by (simp add: validate_len_cases)
      with True show ?thesis by (simp add: run add final)
    next
      case False
      then show ?thesis by (simp add: run add final validate_len_cases)
    qed
  next
    case False
    then have "sum_added 0 ?val \<noteq> Inr n" for n using sum_added_eq_Inr [of 0 ?val n] by (auto simp: added_def)
    then obtain e where "sum_added 0 ?val = Inl e" by (cases "sum_added 0 ?val") auto
    moreover have "\<not> length out \<le> max_file_len" using False lengths max_file_len_le [of "length out"] by linarith
    ultimately show ?thesis by (simp add: run)
  qed
qed

text \<open>An invalid batch is refused with a contract error before anything is copied.\<close>

lemma apply_invalid_batch:
  assumes "\<not> batch_valid source ops"
  shows "\<exists>e. apply_reference_edits source ops = Inl (Err e)"
proof (cases "0 < length ops \<and> length ops \<le> 1024")
  case False
  then have "validate_edit_count (length ops) \<noteq> Inr u" for u by (simp add: validate_edit_count_eq_Inr)
  then obtain e where "validate_edit_count (length ops) = Inl e" by (cases "validate_edit_count (length ops)") auto
  then show ?thesis by (simp add: apply_reference_edits_def)
next
  case True
  then have count: "validate_edit_count (length ops) = Inr ()" by (simp add: validate_edit_count_eq_Inr)
  show ?thesis
  proof (cases "text_ok source")
    case False
    then have "validate_text source \<noteq> Inr t" for t by (simp add: validate_text_eq_Inr)
    then obtain e where "validate_text source = Inl e" by (cases "validate_text source") auto
    then show ?thesis by (simp add: apply_reference_edits_def count)
  next
    case src: True
    let ?val = "validate_operations source (reference_line_starts source) 0 ops"
    show ?thesis
    proof (cases "\<forall>operation\<in>set ops. operation_ok source operation")
      case False
      then have "?val \<noteq> Inr vs" for vs by (simp add: validate_operations_eq_Inr [OF src])
      then obtain e where "?val = Inl e" by (cases ?val) auto
      then show ?thesis by (simp add: apply_reference_edits_def count src)
    next
      case ops: True
      then have val: "?val = Inr (validated_list 0 ops)" using validate_operations_eq_Inr [OF src] by blast
      have "\<not> sorted_wrt (\<lambda>a b. \<not> line_conflict a b) (map line_edit_of ops)"
        using assms True src ops by (simp add: batch_valid_def)
      then have "first_overlap (validated_list 0 ops) \<noteq> None"
        using overlaps_are_conflicts [of "validated_list 0 ops" source] validated_list_ok [OF ops]
          lines_of_validated_list [OF ops] first_overlap_None by metis
      then obtain a b where "first_overlap (validated_list 0 ops) = Some (a, b)" by auto
      then show ?thesis by (simp add: apply_reference_edits_def count src val)
    qed
  qed
qed

lemma apply_reference_edits_cases:
  "(batch_ok source ops \<and> apply_reference_edits source ops = Inr (edit_spec source (map line_edit_of ops))) \<or>
   (\<not> batch_ok source ops \<and> (\<exists>e. apply_reference_edits source ops = Inl (Err e)))"
proof (cases "batch_valid source ops")
  case True
  then show ?thesis using apply_valid_batch [OF True] batch_ok_valid [of source ops]
    by (cases "length (edit_spec source (map line_edit_of ops)) \<le> max_file_len") simp_all
next
  case False
  then show ?thesis using apply_invalid_batch [OF False] batch_ok_valid [of source ops] by blast
qed

lemma apply_reference_edits_eq_Inr:
  "apply_reference_edits source ops = Inr out \<longleftrightarrow>
    batch_ok source ops \<and> out = edit_spec source (map line_edit_of ops)"
  using apply_reference_edits_cases [of source ops] by auto

lemma apply_reference_edits_no_panic: "apply_reference_edits source ops \<noteq> Inl Panic"
  using apply_reference_edits_cases [of source ops] by auto

section \<open>The output is valid text\<close>

lemma set_edit_spec:
  "set (edit_spec text es) \<subseteq> set text \<union> (\<Union>(s, e, c)\<in>set es. set c)"
proof -
  have "set (piece text es k) \<subseteq> set text \<union> (\<Union>(s, e, c)\<in>set es. set c)" for k
  proof -
    have "set (inserted_at es k) \<subseteq> (\<Union>(s, e, c)\<in>set es. set c)" by (auto simp: inserted_at_def)
    moreover have "set (replaced_at es k) \<subseteq> (\<Union>(s, e, c)\<in>set es. set c)" by (auto simp: replaced_at_def)
    moreover have "set (segments text ! k) \<subseteq> set text" if "k < seg_count text"
    proof -
      have "segments text ! k \<in> set (segments text)" using that by (simp add: seg_count_def)
      then have "set (segments text ! k) \<subseteq> set (concat (segments text))" by (auto simp del: concat_segments)
      then show ?thesis by simp
    qed
    ultimately show ?thesis by (auto simp: piece_def)
  qed
  then show ?thesis by (force simp: edit_spec_def)
qed

lemma edit_spec_utf8:
  assumes "utf8_ok text" "\<forall>(s, e, c)\<in>set es. utf8_ok c"
  shows "utf8_ok (edit_spec text es)"
proof -
  have "utf8_ok (inserted_at es k)" for k
    unfolding inserted_at_def using assms(2) by (intro utf8_ok_concat) auto
  moreover have "utf8_ok (replaced_at es k)" for k
    unfolding replaced_at_def using assms(2) by (intro utf8_ok_concat) auto
  moreover have "utf8_ok (segments text ! k)" if "k < seg_count text" for k
    using segment_ok [OF assms(1) that] .
  ultimately have "utf8_ok (piece text es k)" for k
    by (auto simp: piece_def intro!: utf8_ok_appendI)
  then show ?thesis unfolding edit_spec_def by (intro utf8_ok_concat) auto
qed

lemma edited_text_ok:
  assumes run: "apply_reference_edits source ops = Inr out"
    and contents: "\<forall>operation\<in>set ops. utf8_ok (op_content operation)"
  shows "text_ok out"
proof -
  have ok: "batch_ok source ops" and out: "out = edit_spec source (map line_edit_of ops)"
    using run by (simp_all add: apply_reference_edits_eq_Inr)
  have nul: "NUL \<notin> set (op_content operation)" if "operation \<in> set ops" for operation
    using ok that by (simp add: batch_ok_def operation_ok_def)
  have "NUL \<notin> set out"
    using set_edit_spec [of source "map line_edit_of ops"] ok nul
    by (auto simp: out batch_ok_def text_ok_def line_edit_of_def)
  moreover have "utf8_ok out"
    using ok contents unfolding out by (intro edit_spec_utf8) (auto simp: batch_ok_def text_ok_def line_edit_of_def)
  moreover have "length out \<le> max_file_len" using ok by (simp add: batch_ok_def out)
  ultimately show ?thesis by (simp add: text_ok_def)
qed

section \<open>Request order matters only for insertions at one boundary\<close>

lemma distinct_edits_order:
  assumes same: "mset es = mset fs"
    and starts: "\<forall>k. length (filter (\<lambda>(s, e, c). s = k \<and> e = k) es) \<le> 1 \<and>
      length (filter (\<lambda>(s, e, c). s = k \<and> e \<noteq> k) es) \<le> 1"
  shows "edit_spec text es = edit_spec text fs"
proof -
  have one: "filter P es = filter P fs" if "length (filter P es) \<le> 1" for P
  proof -
    have "mset (filter P es) = mset (filter P fs)" using same by simp
    moreover have "length (filter P es) = length (filter P fs)"
      using calculation by (metis size_mset)
    ultimately show ?thesis using that
      by (cases "filter P es"; cases "filter P fs") (auto simp: length_Suc_conv)
  qed
  have "inserted_at es k = inserted_at fs k" "replaced_at es k = replaced_at fs k" for k
    unfolding inserted_at_def replaced_at_def using starts one by presburger+
  moreover have "covered es k = covered fs k" for k
    using same by (intro covered_set) (rule mset_eq_setD)
  ultimately have "piece text es = piece text fs" by (intro ext) (simp add: piece_def)
  then show ?thesis by (simp add: edit_spec_def)
qed

section \<open>Properties\<close>

text \<open>
  Property C1.  The edit engine refines the boundary-by-boundary specification: a batch succeeds
  exactly when every operation names boundaries of the text in order, no two operations conflict
  and the result fits, and the output is then the specified text.
\<close>

theorem edit_engine_refines:
  "apply_reference_edits source ops = Inr out \<longleftrightarrow>
    batch_ok source ops \<and> out = edit_spec source (map line_edit_of ops)"
  by (rule apply_reference_edits_eq_Inr)

text \<open>
  Property C40.  The edit engine never panics: on every input, valid or not, it returns a text or
  a contract error; no subtraction underflows and no slice is out of range.
\<close>

theorem edit_engine_total:
  "(\<exists>out. apply_reference_edits source ops = Inr out) \<or> (\<exists>e. apply_reference_edits source ops = Inl (Err e))"
  using apply_reference_edits_cases by blast

text \<open>
  Property C23.  Edited text is valid text: with replacement contents that are UTF-8, the output
  of a successful batch is UTF-8, free of NUL and within the size cap, which is what the
  unchecked constructor of the edit path relies on.
\<close>

theorem edit_keeps_text_valid:
  assumes "apply_reference_edits source ops = Inr out"
    and "\<forall>operation\<in>set ops. utf8_ok (op_content operation)"
  shows "text_ok out"
  by (rule edited_text_ok [OF assms])

theorem edit_keeps_text_valid_witness:
  "text_ok (edit_spec (''a'' @ [LF]) [(0, 1, ''b'')])"
proof -
  let ?ops = "[Replace (Position 1 0) (Position 2 2) ''b'']"
  have "text_ok (''a'' @ [LF])" by (simp add: text_ok_def max_file_len_def utf8_ok_ascii code_of_def)
  moreover have "edit_spec (''a'' @ [LF]) [(0, 1, ''b'')] = ''b''"
    by (simp add: edit_spec_def piece_def seg_count_def upt_rec)
  ultimately have "apply_reference_edits (''a'' @ [LF]) ?ops = Inr (edit_spec (''a'' @ [LF]) [(0, 1, ''b'')])"
    by (simp add: apply_reference_edits_eq_Inr batch_ok_def operation_ok_def is_boundary_def boundary_at_def
        seg_count_def seg_off_def line_edit_of_def max_file_len_def)
  from edit_keeps_text_valid [OF this] show ?thesis by (simp add: utf8_ok_ascii code_of_def)
qed

text \<open>
  Property C36.  The order of a batch matters only where two operations start at one boundary in
  the same way: two acceptable batches with the same operations and no such pair give the same
  text.
\<close>

theorem edit_order_irrelevant:
  assumes "mset ops = mset ops'"
    and "\<forall>k. length (filter (\<lambda>(s, e, c). s = k \<and> e = k) (map line_edit_of ops)) \<le> 1 \<and>
      length (filter (\<lambda>(s, e, c). s = k \<and> e \<noteq> k) (map line_edit_of ops)) \<le> 1"
    and "apply_reference_edits source ops = Inr out" and "apply_reference_edits source ops' = Inr out'"
  shows "out = out'"
proof -
  have "mset (map line_edit_of ops) = mset (map line_edit_of ops')" using assms(1) by simp
  from distinct_edits_order [OF this assms(2)] show ?thesis
    using assms(3,4) by (simp add: apply_reference_edits_eq_Inr)
qed

theorem edit_order_irrelevant_witness:
  "apply_reference_edits (''a'' @ [LF]) [Replace (Position 1 0) (Position 1 0) ''x'', Replace (Position 2 2) (Position 2 2) ''y''] =
   apply_reference_edits (''a'' @ [LF]) [Replace (Position 2 2) (Position 2 2) ''y'', Replace (Position 1 0) (Position 1 0) ''x'']"
proof -
  let ?a = "Replace (Position 1 0) (Position 1 0) ''x''" and ?b = "Replace (Position 2 2) (Position 2 2) ''y''"
  have t: "text_ok (''a'' @ [LF])" by (simp add: text_ok_def max_file_len_def utf8_ok_ascii code_of_def)
  have spec: "edit_spec (''a'' @ [LF]) (map line_edit_of [?a, ?b]) = ''xa'' @ [LF] @ ''y''"
    "edit_spec (''a'' @ [LF]) (map line_edit_of [?b, ?a]) = ''xa'' @ [LF] @ ''y''"
    by (simp_all add: edit_spec_def piece_def seg_count_def line_edit_of_def)
  have ab: "apply_reference_edits (''a'' @ [LF]) [?a, ?b] = Inr (''xa'' @ [LF] @ ''y'')"
    and ba: "apply_reference_edits (''a'' @ [LF]) [?b, ?a] = Inr (''xa'' @ [LF] @ ''y'')"
    unfolding apply_reference_edits_eq_Inr batch_ok_def spec using t
    by (simp_all add: operation_ok_def is_boundary_def boundary_at_def seg_count_def seg_off_def
        line_edit_of_def line_conflict_def max_file_len_def)
  have "\<forall>k. length (filter (\<lambda>(s, e, c). s = k \<and> e = k) (map line_edit_of [?a, ?b])) \<le> 1 \<and>
      length (filter (\<lambda>(s, e, c). s = k \<and> e \<noteq> k) (map line_edit_of [?a, ?b])) \<le> 1"
    by (auto simp: line_edit_of_def)
  from edit_order_irrelevant [OF _ this ab ba] show ?thesis unfolding ab ba by simp
qed

end
