(* ===== verification/Reference_Versioned.thy ===== *)
theory Reference_Versioned
  imports Edit_Refinement
begin

text \<open>
  The versioned entry points of the reference model (\<open>src/protocol.rs\<close>): the header and the
  context window of a conflict, the edit request against a snapshot, the read cursor and the
  write decision.  The last section proves the context window against its specification.
\<close>

section \<open>The code\<close>

definition SNAPSHOT_CONFLICT_MESSAGE :: string where
  "SNAPSHOT_CONFLICT_MESSAGE = ''the file no longer matches the requested snapshot''"

definition ALREADY_EXISTS_MESSAGE :: string where
  "ALREADY_EXISTS_MESSAGE = ''the destination file already exists''"

definition reference_header :: "string \<Rightarrow> snapshot_id \<Rightarrow> bytes \<Rightarrow> contract_error fault + snapshot_header" where
  "reference_header path snapshot bytes =
     rbind (lift_err (validate_text bytes)) (\<lambda>text.
     rbind (expect (u64_of_usize (length (reference_line_starts text)))) (\<lambda>lines.
     rbind (ok_or (Err (FileTooLarge (- 1))) (u64_of_usize (length bytes))) (\<lambda>byte_count.
     lift_err (snapshot_header_new path snapshot lines byte_count))))"

text \<open>\<open>u64::clamp\<close> panics when its bounds are crossed.\<close>

definition clamp_u64 :: "u64 \<Rightarrow> u64 \<Rightarrow> u64 \<Rightarrow> u64 option" where
  "clamp_u64 x lo hi = (if lo \<le> hi then Some (if x < lo then lo else if x > hi then hi else x) else None)"

text \<open>The two guarded decrements of \<open>content_end\<close>; each indexed byte may be out of range.\<close>

definition strip_terminator :: "bytes \<Rightarrow> nat \<Rightarrow> nat \<Rightarrow> 'e fault + nat" where
  "strip_terminator text start raw_end =
     (if raw_end > start
      then rbind (expect (get_at text (raw_end - 1))) (\<lambda>b.
        if b = LF then
          (if raw_end - 1 > start
           then rbind (expect (get_at text (raw_end - 1 - 1))) (\<lambda>c.
             Inr (if c = CR then raw_end - 1 - 1 else raw_end - 1))
           else Inr (raw_end - 1))
        else Inr raw_end)
      else Inr raw_end)"

definition reference_context_line :: "bytes \<Rightarrow> u64 list \<Rightarrow> u64 \<Rightarrow> contract_error fault + context_line" where
  "reference_context_line text starts line =
     rbind (expect (Option.bind (checked_sub_u64 line 1) usize_of_u64)) (\<lambda>index.
     rbind (expect (get_at starts index)) (\<lambda>start_offset.
     rbind (expect (usize_of_u64 start_offset)) (\<lambda>start.
     rbind (case get_at starts (index + 1) of
              None \<Rightarrow> Inr (length text)
            | Some offset \<Rightarrow> expect (usize_of_u64 offset)) (\<lambda>raw_end.
     rbind (strip_terminator text start raw_end) (\<lambda>content_end.
     rbind (expect (str_get text start content_end)) (\<lambda>content.
     Inr \<lparr>ctx_position = Position line start_offset, ctx_content = content\<rparr>))))))"

fun traverse :: "('a \<Rightarrow> 'e + 'b) \<Rightarrow> 'a list \<Rightarrow> 'e + 'b list" where
  "traverse f [] = Inr []"
| "traverse f (x # xs) = rbind (f x) (\<lambda>y. rbind (traverse f xs) (\<lambda>ys. Inr (y # ys)))"

text \<open>The inclusive range \<open>start_line..=end_line\<close>.\<close>

definition line_range :: "u64 \<Rightarrow> u64 \<Rightarrow> u64 list" where
  "line_range start_line end_line = map of_nat [unat start_line..<Suc (unat end_line)]"

definition reference_context :: "bytes \<Rightarrow> u64 \<Rightarrow> contract_error fault + context_line list" where
  "reference_context bytes center_line =
     rbind (lift_err (validate_text bytes)) (\<lambda>text.
     let starts = reference_line_starts text in
     rbind (expect (u64_of_usize (length starts))) (\<lambda>line_count.
     rbind (expect (clamp_u64 center_line 1 line_count)) (\<lambda>center.
     let start_line = max (sat_sub_u64 center 2) 1;
         end_line = min (sat_add_u64 center 2) line_count;
         start_line = max start_line (max (sat_sub_u64 end_line 4) 1) in
     traverse (reference_context_line text starts) (line_range start_line end_line))))"

text \<open>
  Every \<open>map_err(ProtocolError::from)\<close>; and the conflict constructor, whose own contract error
  the code converts the same way before it is returned as the error.
\<close>

definition as_protocol_error :: "contract_error fault + 'a \<Rightarrow> protocol_error fault + 'a" where
  "as_protocol_error m = map_fault protocol_error_of_contract m"

definition conflict_result :: "contract_error + protocol_error \<Rightarrow> protocol_error fault + 'a" where
  "conflict_result m = rbind (as_protocol_error (lift_err m)) (\<lambda>e. Inl (Err e))"

definition apply_versioned_reference_edits ::
    "bytes \<Rightarrow> snapshot_id \<Rightarrow> edit_request \<Rightarrow> protocol_error fault + bytes" where
  "apply_versioned_reference_edits source current_snapshot request =
     rbind (as_protocol_error (lift_err (edit_request_validate request))) (\<lambda>_.
     rbind (as_protocol_error (reference_header (er_path request) current_snapshot source)) (\<lambda>current_header.
     if er_snapshot request \<noteq> current_snapshot then
       let center_line = (case er_edits request of [] \<Rightarrow> 1 | operation # _ \<Rightarrow> pos_line (op_start operation)) in
       rbind (as_protocol_error (reference_context source center_line)) (\<lambda>context.
       conflict_result
         (protocol_error_conflict (er_snapshot request) current_header context SNAPSHOT_CONFLICT_MESSAGE))
     else as_protocol_error (apply_reference_edits source (er_edits request))))"

definition validate_reference_cursor ::
    "string \<Rightarrow> bytes \<Rightarrow> snapshot_id \<Rightarrow> page_cursor \<Rightarrow> protocol_error fault + position" where
  "validate_reference_cursor path source current_snapshot cursor =
     rbind (as_protocol_error (reference_header path current_snapshot source)) (\<lambda>current_header.
     if cur_snapshot cursor \<noteq> current_snapshot then
       rbind (as_protocol_error (reference_context source (pos_line (cur_next cursor)))) (\<lambda>context.
       conflict_result
         (protocol_error_conflict (cur_snapshot cursor) current_header context SNAPSHOT_CONFLICT_MESSAGE))
     else rbind (as_protocol_error (lift_err (validate_reference_position source (cur_next cursor)))) (\<lambda>_.
       Inr (cur_next cursor)))"

definition write_not_found :: "string \<Rightarrow> protocol_error" where
  "write_not_found path = protocol_error_new CodeNotFound
     (''no file exists at '' @ path @ ''; use expect \"absent\" to create it'')"

definition validate_reference_write ::
    "(bytes \<times> snapshot_id) option \<Rightarrow> write_request \<Rightarrow> protocol_error fault + bool" where
  "validate_reference_write current request =
     rbind (as_protocol_error (lift_err (write_request_validate request))) (\<lambda>_.
     case (wr_expect request, current) of
       (Absent, None) \<Rightarrow> Inr True
     | (Absent, Some (bytes, snapshot)) \<Rightarrow>
         rbind (as_protocol_error (reference_header (wr_path request) snapshot bytes)) (\<lambda>header.
         rbind (as_protocol_error (reference_context bytes 1)) (\<lambda>context.
         conflict_result (protocol_error_exists header context ALREADY_EXISTS_MESSAGE)))
     | (ExpectSnapshot _, None) \<Rightarrow> Inl (Err (write_not_found (wr_path request)))
     | (ExpectSnapshot requested, Some (bytes, current_snapshot)) \<Rightarrow>
         if requested \<noteq> current_snapshot then
           rbind (as_protocol_error (reference_header (wr_path request) current_snapshot bytes)) (\<lambda>header.
           rbind (as_protocol_error (reference_context bytes 1)) (\<lambda>context.
           conflict_result (protocol_error_conflict requested header context SNAPSHOT_CONFLICT_MESSAGE)))
         else Inr False)"

section \<open>The lines of a text, specified\<close>

text \<open>A segment without its line terminator: a final LF and a CR right before it.\<close>

definition strip_line_end :: "bytes \<Rightarrow> bytes" where
  "strip_line_end s =
     (if s \<noteq> [] \<and> last s = LF
      then (let t = butlast s in if t \<noteq> [] \<and> last t = CR then butlast t else t)
      else s)"

definition text_line :: "bytes \<Rightarrow> nat \<Rightarrow> bytes" where
  "text_line text k = strip_line_end (segments text ! k)"

definition line_position :: "bytes \<Rightarrow> nat \<Rightarrow> position" where
  "line_position text k = Position (of_nat (Suc k)) (of_nat (seg_off text k))"

lemma split_at_segment:
  assumes "k < seg_count text"
  shows "\<exists>rest. text = take (seg_off text k) text @ segments text ! k @ rest"
proof -
  have "drop (seg_off text k) text = segments text ! k @ concat (drop (Suc k) (segments text))"
    using assms by (simp add: drop_seg_off seg_count_def Cons_nth_drop_Suc [symmetric])
  then show ?thesis by (metis append_take_drop_id)
qed

lemma strip_line_end_cases:
  obtains "s = strip_line_end s" "s = [] \<or> last s \<noteq> LF"
  | "s = strip_line_end s @ [LF]" "strip_line_end s = [] \<or> last (strip_line_end s) \<noteq> CR"
  | "s = strip_line_end s @ [CR, LF]"
proof (cases "s \<noteq> [] \<and> last s = LF")
  case True
  then have s: "s = butlast s @ [LF]" by (metis append_butlast_last_id)
  show ?thesis
  proof (cases "butlast s \<noteq> [] \<and> last (butlast s) = CR")
    case cr: True
    then have "butlast s = butlast (butlast s) @ [CR]" by (metis append_butlast_last_id)
    then have "s = butlast (butlast s) @ [CR, LF]" using s by (metis append.assoc append_Cons append_Nil)
    then show ?thesis using that(3) True cr by (simp add: strip_line_end_def Let_def)
  next
    case False
    then show ?thesis using that(2) True s by (auto simp: strip_line_end_def Let_def)
  qed
next
  case False
  then show ?thesis using that(1) by (auto simp: strip_line_end_def)
qed

lemma strip_terminator_segment:
  assumes "text = pre @ s @ rest"
  shows "strip_terminator text (length pre) (length pre + length s) = Inr (length pre + length (strip_line_end s))"
proof (cases s rule: strip_line_end_cases)
  case 1
  show ?thesis
  proof (cases "s = []")
    case False
    then obtain t x where "s = t @ [x]" by (cases s rule: rev_cases) auto
    then have "get_at text (length pre + length s - 1) = Some (last s)"
      using assms by (simp add: get_at_def nth_append)
    then show ?thesis using 1 False by (simp add: strip_terminator_def)
  qed (simp add: strip_terminator_def strip_line_end_def)
next
  case 2
  let ?t = "strip_line_end s"
  have whole: "text = pre @ ?t @ LF # rest" using assms 2(1) by (metis append.assoc append_Cons append_Nil)
  have len: "length s = Suc (length ?t)" using 2(1) by (metis length_append_singleton)
  have "get_at text (length pre + length ?t) = Some LF" unfolding whole by (simp add: get_at_def nth_append)
  moreover have "get_at text (length pre + length ?t - 1) = Some (last ?t)" if ne: "?t \<noteq> []"
  proof -
    obtain t x where t: "?t = t @ [x]" using ne by (cases ?t rule: rev_cases) auto
    then have "text = pre @ t @ x # LF # rest" using whole by simp
    then show ?thesis using t by (simp add: get_at_def nth_append)
  qed
  ultimately show ?thesis using 2(2) by (cases "?t = []") (simp_all add: strip_terminator_def len)
next
  case 3
  let ?t = "strip_line_end s"
  have whole: "text = pre @ ?t @ CR # LF # rest" using assms 3 by (metis append.assoc append_Cons append_Nil)
  have len: "length s = Suc (Suc (length ?t))" using 3 by (metis length_append_singleton append_Cons append_Nil append.assoc)
  have "get_at text (Suc (length pre + length ?t)) = Some LF" "get_at text (length pre + length ?t) = Some CR"
    unfolding whole by (simp_all add: get_at_def nth_append)
  then show ?thesis by (simp add: strip_terminator_def len)
qed

lemma strip_line_end_utf8: "utf8_ok s \<Longrightarrow> utf8_ok (strip_line_end s)"
proof (cases s rule: strip_line_end_cases)
  case 2
  then show "utf8_ok s \<Longrightarrow> ?thesis" using utf8_ok_after_ascii [of "strip_line_end s" LF "[]"] by (simp add: code_of_def)
next
  case 3
  then show "utf8_ok s \<Longrightarrow> ?thesis" using utf8_ok_after_ascii [of "strip_line_end s" CR "[LF]"] by (simp add: code_of_def)
qed simp

lemma text_line_slice:
  assumes ok: "text_ok text" and k: "k < seg_count text"
  shows "str_get text (seg_off text k) (seg_off text k + length (text_line text k)) = Some (text_line text k)"
proof -
  obtain rest where split: "text = take (seg_off text k) text @ segments text ! k @ rest"
    using split_at_segment [OF k] by blast
  let ?pre = "take (seg_off text k) text" and ?t = "text_line text k"
  have u: "utf8_ok text" using ok by (simp add: text_ok_def)
  have len: "length ?pre = seg_off text k" by (simp add: min_absorb2)
  obtain r where "segments text ! k = ?t @ r"
    by (cases "segments text ! k" rule: strip_line_end_cases) (auto simp: text_line_def)
  then have whole: "text = (?pre @ ?t) @ (r @ rest)" using split by simp
  have pre: "utf8_ok ?pre" using text_prefix_ok [OF u] k by simp
  have "utf8_ok ?t" using segment_ok [OF u k] strip_line_end_utf8 by (simp add: text_line_def)
  with pre have pt: "utf8_ok (?pre @ ?t)" by (rule utf8_ok_appendI)
  then have "utf8_ok (r @ rest)" using u whole by (metis utf8_ok_append)
  moreover have "take (seg_off text k + length ?t) text = ?pre @ ?t"
    using whole len by (metis append_eq_conv_conj length_append)
  moreover have "drop (seg_off text k + length ?t) text = r @ rest"
    using whole len by (metis append_eq_conv_conj length_append)
  moreover have le: "seg_off text k + length ?t \<le> length text"
    using arg_cong [OF whole, of length] len by simp
  ultimately have "char_boundary text (seg_off text k + length ?t)"
    using char_boundary_iff_split [OF u le] pt by simp
  moreover note le
  moreover have "char_boundary text (seg_off text k)" using seg_off_char_boundary [OF u] k by simp
  moreover have "take (length ?t) (drop (seg_off text k) text) = ?t"
    using whole len by (metis append.assoc append_eq_conv_conj)
  ultimately show ?thesis by (simp add: str_get_def)
qed

section \<open>The context window, specified\<close>

definition context_window :: "nat \<Rightarrow> nat \<Rightarrow> nat list" where
  "context_window n center = (let m = max 1 (min center n) in [m - 3..<min n (m + 2)])"

definition text_context :: "bytes \<Rightarrow> nat \<Rightarrow> context_line list" where
  "text_context text center =
     map (\<lambda>k. \<lparr>ctx_position = line_position text k, ctx_content = text_line text k\<rparr>)
       (context_window (seg_count text) center)"

lemma length_context_window: "length (context_window n center) \<le> 5"
  by (simp add: context_window_def Let_def)

lemma context_window_bounds: "k \<in> set (context_window n center) \<Longrightarrow> k < n"
  by (simp add: context_window_def Let_def)

lemma context_window_center: "0 < n \<Longrightarrow> max 1 (min center n) - 1 \<in> set (context_window n center)"
  by (auto simp: context_window_def Let_def)

lemma reference_context_line_ok:
  assumes ok: "text_ok text" and k: "k < seg_count text"
  shows "reference_context_line text (reference_line_starts text) (of_nat (Suc k)) =
    Inr \<lparr>ctx_position = line_position text k, ctx_content = text_line text k\<rparr>"
proof -
  have n: "Suc (seg_count text) \<le> usize_max" by (rule seg_count_usize [OF ok])
  then have line: "unat (of_nat (Suc k) :: u64) = Suc k" using k by (intro unat_of_nat_u64) linarith
  have off: "unat (of_nat (seg_off text j) :: u64) = seg_off text j" for j
    using seg_off_le [of "text" j] text_ok_parts [OF ok] by (intro unat_of_nat_u64) linarith
  have sub: "checked_sub_u64 (of_nat (Suc k)) 1 = Some (of_nat k)"
    using line by (simp add: checked_sub_u64_def word_le_nat_alt)
  have index: "unat (of_nat k :: u64) = k" using n k by (intro unat_of_nat_u64) linarith
  have start: "get_at (reference_line_starts text) k = Some (of_nat (seg_off text k))"
    using k ok by (simp add: get_at_eq_Some nth_reference_line_starts)
  have raw: "(case get_at (reference_line_starts text) (k + 1) of None \<Rightarrow> Inr (length text)
      | Some offset \<Rightarrow> expect (usize_of_u64 offset)) = Inr (seg_off text (Suc k))"
  proof (cases "Suc k < seg_count text")
    case True
    then have "get_at (reference_line_starts text) (k + 1) = Some (of_nat (seg_off text (Suc k)))"
      using ok by (simp add: get_at_eq_Some nth_reference_line_starts)
    then show ?thesis using off by simp
  next
    case False
    then show ?thesis using ok k by (simp add: get_at_def)
  qed
  obtain rest where split: "text = take (seg_off text k) text @ segments text ! k @ rest"
    using split_at_segment [OF k] by blast
  have strip: "strip_terminator text (seg_off text k) (seg_off text (Suc k)) =
      Inr (seg_off text k + length (text_line text k))"
    using strip_terminator_segment [OF split] k by (simp add: min_absorb2 seg_off_Suc text_line_def)
  show ?thesis
    unfolding reference_context_line_def sub
    by (simp add: index start raw [simplified] strip off text_line_slice [OF ok k] line_position_def)
qed

lemma traverse_Inr: "(\<And>x. x \<in> set xs \<Longrightarrow> f x = Inr (g x)) \<Longrightarrow> traverse f xs = Inr (map g xs)"
  by (induction xs) auto

lemma traverse_map: "traverse f (map h xs) = traverse (\<lambda>x. f (h x)) xs"
  by (induction xs) auto

lemma line_range_Suc:
  "0 < unat a \<Longrightarrow> line_range a b = map (\<lambda>k. of_nat (Suc k)) [unat a - 1..<unat b]"
proof -
  assume "0 < unat a"
  then have "[unat a..<Suc (unat b)] = map Suc [unat a - 1..<unat b]" by (simp add: map_Suc_upt)
  then show ?thesis by (simp only: line_range_def map_map comp_def)
qed

lemma unat_max: "unat (max a b) = max (unat a) (unat b)"
  by (simp add: max_def word_le_nat_alt)

lemma unat_min: "unat (min a b) = min (unat a) (unat b)"
  by (simp add: min_def word_le_nat_alt)

lemma reference_context_ok:
  assumes ok: "text_ok bytes"
  shows "reference_context bytes center = Inr (text_context bytes (unat center))"
proof -
  let ?n = "seg_count bytes"
  have n: "Suc ?n \<le> usize_max" by (rule seg_count_usize [OF ok])
  then have un: "unat (of_nat ?n :: u64) = ?n" by simp
  have count: "u64_of_usize (length (reference_line_starts bytes)) = Some (of_nat ?n)"
    using ok n by (simp add: u64_of_usize_def)
  define m :: u64 where "m = (if center < 1 then 1 else if center > of_nat ?n then of_nat ?n else center)"
  have um: "unat m = max 1 (min (unat center) ?n)"
    by (auto simp: m_def word_less_nat_alt un max_def Suc_le_eq)
  have clamp: "clamp_u64 center 1 (of_nat ?n) = Some m"
    using seg_count_pos [of bytes] by (simp add: clamp_u64_def m_def word_le_nat_alt un Suc_le_eq)
  have mn: "unat m \<le> ?n" "1 \<le> unat m" using seg_count_pos [of bytes] by (simp_all add: um Suc_le_eq)
  define hi where "hi = min (sat_add_u64 m 2) (of_nat ?n)"
  define lo where "lo = max (max (sat_sub_u64 m 2) 1) (max (sat_sub_u64 hi 4) 1)"
  have hi: "unat hi = min ?n (unat m + 2)"
    using mn n by (simp add: hi_def unat_min unat_sat_add_u64 un)
  have lo: "unat lo = max 1 (unat m - 2)"
    using hi by (simp add: lo_def unat_max unat_sat_sub_u64)
  have range: "line_range lo hi = map (\<lambda>k. of_nat (Suc k)) (context_window ?n (unat center))"
  proof -
    have "0 < unat lo" "unat lo - 1 = unat m - 3" using lo by simp_all
    then show ?thesis
      unfolding line_range_Suc [OF \<open>0 < unat lo\<close>] context_window_def Let_def um [symmetric]
      by (simp only: hi)
  qed
  have "traverse (reference_context_line bytes (reference_line_starts bytes)) (line_range lo hi) =
      Inr (text_context bytes (unat center))"
    unfolding range traverse_map text_context_def
    using context_window_bounds by (intro traverse_Inr reference_context_line_ok [OF ok])
  moreover have "validate_text bytes = Inr bytes" using ok by simp
  ultimately show ?thesis
    unfolding reference_context_def Let_def lo_def hi_def
    by (simp only: lift_err_simps rbind_simps count clamp expect_simps)
qed

lemma validate_text_refused: "\<not> text_ok bytes \<Longrightarrow> \<exists>e. validate_text bytes = Inl e"
  by (cases "validate_text bytes") (auto simp: validate_text_eq_Inr)

lemma reference_context_refused: "\<not> text_ok bytes \<Longrightarrow> \<exists>e. reference_context bytes center = Inl (Err e)"
  using validate_text_refused by (force simp: reference_context_def)

definition text_header :: "string \<Rightarrow> snapshot_id \<Rightarrow> bytes \<Rightarrow> snapshot_header" where
  "text_header path snapshot bytes =
     \<lparr>hdr_path = path, hdr_snapshot = snapshot, hdr_lines = of_nat (seg_count bytes),
      hdr_bytes = of_nat (length bytes)\<rparr>"

lemma reference_header_ok:
  assumes ok: "text_ok bytes"
  shows "reference_header path snapshot bytes = Inr (text_header path snapshot bytes)"
proof -
  have n: "Suc (seg_count bytes) \<le> usize_max" by (rule seg_count_usize [OF ok])
  then have "unat (of_nat (seg_count bytes) :: u64) = seg_count bytes" by simp
  then have "(of_nat (seg_count bytes) :: u64) \<noteq> 0" using seg_count_pos [of bytes] by (metis less_irrefl unsigned_0)
  moreover have "length bytes \<le> max_file_len" "length bytes \<le> usize_max" using text_ok_parts [OF ok] by auto
  moreover from this have "validate_file_size (of_nat (length bytes)) = Inr ()"
    by (simp only: validate_file_size_eq_Inr unat_of_nat_u64)
  ultimately show ?thesis
    using ok n by (simp del: validate_file_size_eq_Inr add: reference_header_def u64_of_usize_def snapshot_header_new_def text_header_def)
qed

lemma reference_header_refused: "\<not> text_ok bytes \<Longrightarrow> \<exists>e. reference_header path snapshot bytes = Inl (Err e)"
  using validate_text_refused by (force simp: reference_header_def)

lemma text_context_short: "length (text_context bytes center) \<le> CONFLICT_CONTEXT_LINES"
  using length_context_window by (simp add: text_context_def CONFLICT_CONTEXT_LINES_def)

section \<open>The versioned operations, case by case\<close>

text \<open>The conflict a stale request receives: the requested identity, the current header and lines.\<close>

definition stale_error :: "string \<Rightarrow> bytes \<Rightarrow> snapshot_id \<Rightarrow> snapshot_id \<Rightarrow> nat \<Rightarrow> protocol_error" where
  "stale_error path bytes requested current center =
     \<lparr>pe_code = CodeSnapshotConflict, pe_message = SNAPSHOT_CONFLICT_MESSAGE, pe_retryable = True,
      pe_conflict = Some \<lparr>cf_requested = requested, cf_header = text_header path current bytes,
        cf_context = text_context bytes center\<rparr>,
      pe_existing = None\<rparr>"

definition exists_error :: "string \<Rightarrow> bytes \<Rightarrow> snapshot_id \<Rightarrow> protocol_error" where
  "exists_error path bytes current =
     \<lparr>pe_code = CodeAlreadyExists, pe_message = ALREADY_EXISTS_MESSAGE, pe_retryable = True,
      pe_conflict = None,
      pe_existing = Some \<lparr>ex_header = text_header path current bytes, ex_context = text_context bytes 1\<rparr>\<rparr>"

lemma as_protocol_error_simps [simp]:
  "as_protocol_error (Inr x) = Inr x"
  "as_protocol_error (Inl (Err e)) = Inl (Err (protocol_error_of_contract e))"
  "as_protocol_error (Inl Panic) = Inl Panic"
  by (simp_all add: as_protocol_error_def)

lemma as_protocol_error_eq_Inr [simp]: "as_protocol_error m = Inr x \<longleftrightarrow> m = Inr x"
  by (simp add: as_protocol_error_def map_fault_eq_Inr)

lemma conflict_result_stale [simp]:
  "conflict_result (protocol_error_conflict requested (text_header path current bytes)
     (text_context bytes center) SNAPSHOT_CONFLICT_MESSAGE) = Inl (Err (stale_error path bytes requested current center))"
  using text_context_short [of bytes center]
  by (simp add: conflict_result_def protocol_error_conflict_def stale_error_def)

lemma conflict_result_exists [simp]:
  "conflict_result (protocol_error_exists (text_header path current bytes)
     (text_context bytes (Suc 0)) ALREADY_EXISTS_MESSAGE) = Inl (Err (exists_error path bytes current))"
  using text_context_short [of bytes 1]
  by (simp add: conflict_result_def protocol_error_exists_def exists_error_def)

lemma wf_stale_error [simp, wf_error_intros]: "wf_protocol_error (stale_error path bytes r c n)"
  using text_context_short by (simp add: wf_protocol_error_def stale_error_def)

lemma wf_exists_error [simp, wf_error_intros]: "wf_protocol_error (exists_error path bytes c)"
  using text_context_short by (simp add: wf_protocol_error_def exists_error_def)

definition edit_center :: "edit_operation list \<Rightarrow> nat" where
  "edit_center ops = (case ops of [] \<Rightarrow> 1 | operation # _ \<Rightarrow> unat (pos_line (op_start operation)))"

lemma versioned_edit_cases:
  "apply_versioned_reference_edits source current req =
    (case edit_request_validate req of Inl e \<Rightarrow> Inl (Err (protocol_error_of_contract e))
     | Inr _ \<Rightarrow>
       (case validate_text source of Inl e \<Rightarrow> Inl (Err (protocol_error_of_contract e))
        | Inr _ \<Rightarrow>
          if er_snapshot req \<noteq> current
          then Inl (Err (stale_error (er_path req) source (er_snapshot req) current (edit_center (er_edits req))))
          else as_protocol_error (apply_reference_edits source (er_edits req))))"
proof (cases "text_ok source")
  case True
  then show ?thesis
    by (cases "edit_request_validate req"; cases "er_edits req")
      (simp_all add: apply_versioned_reference_edits_def reference_header_ok reference_context_ok edit_center_def)
next
  case False
  then obtain e where "validate_text source = Inl e" using validate_text_refused by blast
  then show ?thesis
    by (cases "edit_request_validate req")
      (simp_all add: apply_versioned_reference_edits_def reference_header_def)
qed

lemma batch_ok_validates: "batch_ok source (er_edits req) \<Longrightarrow> edit_request_validate req = Inr ()"
  by (simp add: edit_request_validate_ok batch_ok_def operation_ok_def)

lemma versioned_edit_eq_Inr:
  "apply_versioned_reference_edits source current req = Inr out \<longleftrightarrow>
    er_snapshot req = current \<and> batch_ok source (er_edits req) \<and>
    out = edit_spec source (map line_edit_of (er_edits req))"
proof (cases "batch_ok source (er_edits req)")
  case True
  then have "text_ok source" by (simp add: batch_ok_def)
  with True show ?thesis
    by (auto simp: versioned_edit_cases batch_ok_validates apply_reference_edits_eq_Inr)
next
  case False
  then show ?thesis
    by (auto simp: versioned_edit_cases apply_reference_edits_eq_Inr split: sum.splits if_splits)
qed

lemma cursor_cases:
  "validate_reference_cursor path source current cursor =
    (case validate_text source of Inl e \<Rightarrow> Inl (Err (protocol_error_of_contract e))
     | Inr _ \<Rightarrow>
       if cur_snapshot cursor \<noteq> current
       then Inl (Err (stale_error path source (cur_snapshot cursor) current (unat (pos_line (cur_next cursor)))))
       else (case validate_reference_position source (cur_next cursor) of
               Inl e \<Rightarrow> Inl (Err (protocol_error_of_contract e))
             | Inr _ \<Rightarrow> Inr (cur_next cursor)))"
proof (cases "text_ok source")
  case True
  then show ?thesis
    by (cases "validate_reference_position source (cur_next cursor)")
      (simp_all add: validate_reference_cursor_def reference_header_ok reference_context_ok)
next
  case False
  then obtain e where "validate_text source = Inl e" using validate_text_refused by blast
  then show ?thesis by (simp add: validate_reference_cursor_def reference_header_def)
qed

lemma validate_reference_position_eq_Inr:
  "text_ok source \<Longrightarrow> validate_reference_position source p = Inr u \<longleftrightarrow> is_boundary source p"
  by (auto simp: validate_reference_position_def result_iffs boundary_ordinal_line)

lemma cursor_eq_Inr:
  "validate_reference_cursor path source current cursor = Inr p \<longleftrightarrow>
    text_ok source \<and> cur_snapshot cursor = current \<and> is_boundary source (cur_next cursor) \<and> p = cur_next cursor"
proof (cases "text_ok source")
  case True
  then show ?thesis
    using validate_reference_position_eq_Inr [OF True, of "cur_next cursor"]
    by (auto simp: cursor_cases split: sum.splits)
next
  case False
  then show ?thesis using validate_text_refused by (force simp: cursor_cases)
qed

lemma as_protocol_error_no_panic [simp]: "as_protocol_error m = Inl Panic \<longleftrightarrow> m = Inl Panic"
  by (simp add: as_protocol_error_def map_fault_eq_Panic)

lemma write_cases:
  "validate_reference_write current req =
    (case write_request_validate req of Inl e \<Rightarrow> Inl (Err (protocol_error_of_contract e))
     | Inr _ \<Rightarrow>
       (case (wr_expect req, current) of
          (Absent, None) \<Rightarrow> Inr True
        | (Absent, Some (bytes, snapshot)) \<Rightarrow>
            (case validate_text bytes of Inl e \<Rightarrow> Inl (Err (protocol_error_of_contract e))
             | Inr _ \<Rightarrow> Inl (Err (exists_error (wr_path req) bytes snapshot)))
        | (ExpectSnapshot _, None) \<Rightarrow> Inl (Err (write_not_found (wr_path req)))
        | (ExpectSnapshot requested, Some (bytes, snapshot)) \<Rightarrow>
            if requested = snapshot then Inr False
            else (case validate_text bytes of Inl e \<Rightarrow> Inl (Err (protocol_error_of_contract e))
              | Inr _ \<Rightarrow> Inl (Err (stale_error (wr_path req) bytes requested snapshot 1)))))"
proof -
  have header: "reference_header path snapshot bytes = (case validate_text bytes of Inl e \<Rightarrow> Inl (Err e)
      | Inr _ \<Rightarrow> Inr (text_header path snapshot bytes))" for path snapshot bytes
    using reference_header_ok [of bytes] validate_text_refused [of bytes]
    by (cases "text_ok bytes") (auto simp: reference_header_def)
  have run: "rbind (as_protocol_error (reference_header path snapshot bytes)) (\<lambda>header.
      rbind (as_protocol_error (reference_context bytes 1)) (\<lambda>context. conflict_result (f header context))) =
    (case validate_text bytes of Inl e \<Rightarrow> Inl (Err (protocol_error_of_contract e))
     | Inr _ \<Rightarrow> conflict_result (f (text_header path snapshot bytes) (text_context bytes 1)))"
    for path snapshot bytes f
    using reference_context_ok [of bytes 1] validate_text_refused [of bytes]
    by (cases "text_ok bytes") (auto simp: header)
  show ?thesis
    by (cases "write_request_validate req"; cases "wr_expect req"; cases current)
      (auto simp: validate_reference_write_def run split: sum.split)
qed

lemma write_eq_Inr:
  "validate_reference_write current req = Inr creates \<longleftrightarrow>
    NUL \<notin> set (wr_content req) \<and> length (wr_content req) \<le> max_file_len \<and>
    (case wr_expect req of
       Absent \<Rightarrow> current = None \<and> creates
     | ExpectSnapshot requested \<Rightarrow> (\<exists>bytes. current = Some (bytes, requested)) \<and> \<not> creates)"
proof (cases "write_request_validate req")
  case (Inl e)
  then have "write_request_validate req \<noteq> Inr ()" by simp
  then have "\<not> (NUL \<notin> set (wr_content req) \<and> length (wr_content req) \<le> max_file_len)"
    unfolding write_request_validate_ok .
  then show ?thesis using Inl by (auto simp: write_cases)
next
  case (Inr u)
  then have ok: "NUL \<notin> set (wr_content req) \<and> length (wr_content req) \<le> max_file_len"
    using write_request_validate_ok by blast
  show ?thesis
    using ok Inr
    by (cases "wr_expect req"; cases current) (auto simp: write_cases split: sum.splits if_splits)
qed

lemmas versioned_cases = versioned_edit_cases cursor_cases write_cases

section \<open>Properties\<close>

text \<open>
  Property C13.  A versioned edit succeeds exactly when the requested snapshot is the current one
  and the batch is acceptable, and then returns the specified text: no other snapshot is ever
  edited, and every acceptable batch on the current one is applied.
\<close>

theorem versioned_edit_exact:
  "apply_versioned_reference_edits source current req = Inr out \<longleftrightarrow>
    er_snapshot req = current \<and> batch_ok source (er_edits req) \<and>
    out = edit_spec source (map line_edit_of (er_edits req))"
  by (rule versioned_edit_eq_Inr)

text \<open>
  Property C19.  A well-formed edit request for another snapshot of a valid text is answered with
  the structured conflict, whatever its positions are: requested identity, current header, and
  the current lines around the first edit.
\<close>

theorem stale_edit_conflicts:
  assumes "edit_request_validate req = Inr ()" and "text_ok source" and "er_snapshot req \<noteq> current"
  shows "apply_versioned_reference_edits source current req =
    Inl (Err (stale_error (er_path req) source (er_snapshot req) current (edit_center (er_edits req))))"
  using assms by (simp add: versioned_edit_cases)

theorem stale_edit_conflicts_witness:
  "apply_versioned_reference_edits (''a'' @ [LF]) (SnapshotId 1)
     \<lparr>er_path = ''f'', er_snapshot = SnapshotId 2,
      er_edits = [Replace (Position 9 9) (Position 9 9) ''x'']\<rparr> =
   Inl (Err (stale_error ''f'' (''a'' @ [LF]) (SnapshotId 2) (SnapshotId 1) 9))"
proof -
  let ?req = "\<lparr>er_path = ''f'', er_snapshot = SnapshotId 2,
      er_edits = [Replace (Position 9 9) (Position 9 9) ''x'']\<rparr>"
  have "edit_request_validate ?req = Inr ()" by (simp add: edit_request_validate_ok)
  moreover have "text_ok (''a'' @ [LF])"
    by (simp add: text_ok_def max_file_len_def utf8_ok_ascii code_of_def)
  ultimately show ?thesis
    using stale_edit_conflicts [of ?req "''a'' @ [LF]" "SnapshotId 1"] by (simp add: edit_center_def)
qed

text \<open>
  Property C33.  A cursor is accepted exactly when the text is valid, the cursor names the current
  snapshot and its position is a boundary of the text; it is then returned unchanged.
\<close>

theorem cursor_exact:
  "validate_reference_cursor path source current cursor = Inr p \<longleftrightarrow>
    text_ok source \<and> cur_snapshot cursor = current \<and> is_boundary source (cur_next cursor) \<and> p = cur_next cursor"
  by (rule cursor_eq_Inr)

text \<open>
  Property C32.  A write is allowed exactly when its content is valid and its expectation is the
  state of the destination: creation over nothing, replacement over the named snapshot only.
\<close>

theorem write_decision_exact:
  "validate_reference_write current req = Inr creates \<longleftrightarrow>
    NUL \<notin> set (wr_content req) \<and> length (wr_content req) \<le> max_file_len \<and>
    (case wr_expect req of
       Absent \<Rightarrow> current = None \<and> creates
     | ExpectSnapshot requested \<Rightarrow> (\<exists>bytes. current = Some (bytes, requested)) \<and> \<not> creates)"
  by (rule write_eq_Inr)

text \<open>
  The context of a conflict on a valid text: at most five lines, consecutive, with
  the tokens and contents of those lines, among them the line nearest to the requested centre.
\<close>

theorem conflict_context_window:
  assumes "text_ok bytes"
  shows "\<exists>lo hi. reference_context bytes center =
      Inr (map (\<lambda>k. \<lparr>ctx_position = line_position bytes k, ctx_content = text_line bytes k\<rparr>) [lo..<hi]) \<and>
    hi \<le> seg_count bytes \<and> hi - lo \<le> 5 \<and>
    lo \<le> max 1 (min (unat center) (seg_count bytes)) - 1 \<and> max 1 (min (unat center) (seg_count bytes)) - 1 < hi"
proof (intro exI conjI)
  let ?m = "max 1 (min (unat center) (seg_count bytes))"
  show "reference_context bytes center = Inr (map (\<lambda>k. \<lparr>ctx_position = line_position bytes k,
      ctx_content = text_line bytes k\<rparr>) [?m - 3..<min (seg_count bytes) (?m + 2)])"
    using reference_context_ok [OF assms] by (simp only: text_context_def context_window_def Let_def)
  have "1 \<le> seg_count bytes" using seg_count_pos [of bytes] by (simp only: Suc_le_eq One_nat_def)
  then show "?m - 1 < min (seg_count bytes) (?m + 2)" by linarith
qed auto

theorem conflict_context_window_witness:
  "\<exists>lo hi. reference_context (''a'' @ [LF]) 7 =
      Inr (map (\<lambda>k. \<lparr>ctx_position = line_position (''a'' @ [LF]) k, ctx_content = text_line (''a'' @ [LF]) k\<rparr>) [lo..<hi])"
proof -
  have "text_ok (''a'' @ [LF])"
    by (simp add: text_ok_def max_file_len_def utf8_ok_ascii code_of_def)
  from conflict_context_window [OF this, of 7] show ?thesis by blast
qed

text \<open>
  No versioned operation panics, on any input: every slice, index, conversion and
  \<open>expect\<close> of the reference model is in range.
\<close>

theorem versioned_operations_total:
  "apply_versioned_reference_edits source current req \<noteq> Inl Panic \<and>
   validate_reference_cursor path source current cursor \<noteq> Inl Panic \<and>
   validate_reference_write state wreq \<noteq> Inl Panic"
proof (intro conjI)
  show "apply_versioned_reference_edits source current req \<noteq> Inl Panic"
    by (simp add: versioned_edit_cases apply_reference_edits_no_panic split: sum.split)
  show "validate_reference_cursor path source current cursor \<noteq> Inl Panic"
    by (simp add: cursor_cases split: sum.split)
  show "validate_reference_write state wreq \<noteq> Inl Panic"
    by (simp add: write_cases split: sum.split write_expect.split option.split)
qed

end
