(* ===== verification/Effects.thy ===== *)
theory Effects
  imports Reference_Versioned
begin

text \<open>
  What the production code adds to the reference model: computations that thread a state and may
  fail, the errors of the operating system, and the parameters that stand for the crates the
  sources call (\<open>memchr\<close>, \<open>simdutf8\<close>, \<open>xxhash-rust\<close>, \<open>serde_json\<close>) and for the allocator.
\<close>

section \<open>Computations with a state and an error\<close>

type_synonym ('s, 'e, 'a) comp = "'s \<Rightarrow> ('e + 'a) \<times> 's"

definition ret :: "'a \<Rightarrow> ('s, 'e, 'a) comp" where
  "ret x = (\<lambda>s. (Inr x, s))"

definition raise :: "'e \<Rightarrow> ('s, 'e, 'a) comp" where
  "raise e = (\<lambda>s. (Inl e, s))"

definition lift :: "'e + 'a \<Rightarrow> ('s, 'e, 'a) comp" where
  "lift m = (\<lambda>s. (m, s))"

definition bind :: "('s, 'e, 'a) comp \<Rightarrow> ('a \<Rightarrow> ('s, 'e, 'b) comp) \<Rightarrow> ('s, 'e, 'b) comp" where
  "bind m f = (\<lambda>s. case m s of (Inl e, s') \<Rightarrow> (Inl e, s') | (Inr x, s') \<Rightarrow> f x s')"

text \<open>\<open>match m { Ok(x) => f x, Err(e) => g e }\<close>, and \<open>map_err\<close>.\<close>

definition handle :: "('s, 'e, 'a) comp \<Rightarrow> ('e \<Rightarrow> ('s, 'f, 'b) comp) \<Rightarrow> ('a \<Rightarrow> ('s, 'f, 'b) comp) \<Rightarrow> ('s, 'f, 'b) comp" where
  "handle m g f = (\<lambda>s. case m s of (Inl e, s') \<Rightarrow> g e s' | (Inr x, s') \<Rightarrow> f x s')"

definition with_err :: "('e \<Rightarrow> 'f) \<Rightarrow> ('s, 'e, 'a) comp \<Rightarrow> ('s, 'f, 'a) comp" where
  "with_err g m = (\<lambda>s. case m s of (r, s') \<Rightarrow> (map_err g r, s'))"

named_theorems comp_simps

lemma comp_apply [comp_simps]:
  "ret x s = (Inr x, s)" "raise e s = (Inl e, s)" "lift m s = (m, s)"
  by (simp_all add: ret_def raise_def lift_def)

lemma bind_run [comp_simps]:
  "bind m f s = (case m s of (Inl e, s') \<Rightarrow> (Inl e, s') | (Inr x, s') \<Rightarrow> f x s')"
  by (simp add: bind_def)

lemma handle_run [comp_simps]:
  "handle m g f s = (case m s of (Inl e, s') \<Rightarrow> g e s' | (Inr x, s') \<Rightarrow> f x s')"
  by (simp add: handle_def)

lemma with_err_run [comp_simps]:
  "with_err g m s = (case m s of (r, s') \<Rightarrow> (map_err g r, s'))"
  by (simp add: with_err_def)

lemma bind_eq_Inr:
  "bind m f s = (Inr y, s'') \<longleftrightarrow> (\<exists>x s'. m s = (Inr x, s') \<and> f x s' = (Inr y, s''))"
  by (auto simp: bind_def split: prod.splits sum.splits)

lemma bind_lift_Inr [simp]: "bind (lift (Inr x)) f = f x"
  by (simp add: bind_def lift_def fun_eq_iff)

lemma bind_lift_Inl [simp]: "bind (lift (Inl e)) f = raise e"
  by (simp add: bind_def lift_def raise_def fun_eq_iff)

lemma bind_ret [simp]: "bind (ret x) f = f x"
  by (simp add: bind_def ret_def fun_eq_iff)

section \<open>Operating-system errors\<close>

text \<open>An \<open>io::Error\<close> is its kind with its rendering.\<close>

datatype io_kind = IoNotFound | IoPermissionDenied | IoAlreadyExists | IoInterrupted | IoOther

record io_error =
  io_kind_of :: io_kind
  io_text :: string

text \<open>A \<open>Path\<close> on Unix is a byte string.\<close>

type_synonym path = string

section \<open>The crates the sources call\<close>

text \<open>
  \<open>x_memchr\<close> and \<open>x_memchr_iter\<close> are those of \<open>memchr\<close>; \<open>x_utf8\<close> is
  \<open>simdutf8::compat::from_utf8\<close>, with \<open>Some valid_up_to\<close> for an error; \<open>x_xxh3\<close> is
  \<open>xxh3_128_with_seed\<close> and \<open>x_seed\<close> the value \<open>RandomState\<close> gives this process; \<open>x_json\<close> is
  \<open>serde_json::to_string\<close> on a string; \<open>x_reserve n\<close> tells whether the allocator grants
  \<open>try_reserve_exact\<close> for \<open>n\<close> elements.
\<close>

record externs =
  x_memchr :: "char \<Rightarrow> bytes \<Rightarrow> nat option"
  x_memchr_iter :: "char \<Rightarrow> bytes \<Rightarrow> nat list"
  x_utf8 :: "bytes \<Rightarrow> nat option"
  x_xxh3 :: "bytes \<Rightarrow> u64 \<Rightarrow> u128"
  x_seed :: u64
  x_json :: "string \<Rightarrow> string"
  x_reserve :: "nat \<Rightarrow> bool"

definition newline_positions :: "char \<Rightarrow> bytes \<Rightarrow> nat list" where
  "newline_positions c bs = filter (\<lambda>i. bs ! i = c) [0..<length bs]"

text \<open>
  The documented behaviour the proofs rely on: the two searches report the first and all
  occurrences of a byte, and \<open>simdutf8\<close> agrees with the standard library's UTF-8 check.
\<close>

definition externs_ok :: "externs \<Rightarrow> bool" where
  "externs_ok x \<longleftrightarrow>
     (\<forall>c bs. x_memchr x c bs = position_of (\<lambda>b. b = c) bs) \<and>
     (\<forall>c bs. x_memchr_iter x c bs = newline_positions c bs) \<and>
     (\<forall>bs. x_utf8 x bs = utf8_error bs)"

text \<open>An instance on which every result can be evaluated: the hash is the length.\<close>

definition plain_externs :: externs where
  "plain_externs =
     \<lparr>x_memchr = \<lambda>c bs. position_of (\<lambda>b. b = c) bs, x_memchr_iter = newline_positions,
      x_utf8 = utf8_error, x_xxh3 = \<lambda>bs seed. of_nat (length bs), x_seed = 0, x_json = \<lambda>s. s,
      x_reserve = \<lambda>n. True\<rparr>"

lemma plain_externs_ok [simp]: "externs_ok plain_externs"
  by (simp add: externs_ok_def plain_externs_def)

lemma externs_okD:
  assumes "externs_ok x"
  shows "x_memchr x c bs = position_of (\<lambda>b. b = c) bs"
    and "x_memchr_iter x c bs = newline_positions c bs"
    and "x_utf8 x bs = utf8_error bs"
  using assms by (simp_all add: externs_ok_def)

text \<open>The positions after each LF are the offsets of the segments.\<close>

lemma newline_positions_Cons:
  "newline_positions c (b # bs) = (if b = c then [0] else []) @ map Suc (newline_positions c bs)"
proof -
  have "[0..<length (b # bs)] = 0 # map Suc [0..<length bs]"
    by (simp add: upt_conv_Cons map_Suc_upt del: upt_Suc)
  then show ?thesis by (simp add: newline_positions_def filter_map o_def)
qed

lemma line_starts_loop_positions:
  "i + length bs \<le> usize_max \<Longrightarrow>
    line_starts_loop i bs = map (\<lambda>p. of_nat (Suc (i + p))) (newline_positions LF bs)"
proof (induction bs arbitrary: i)
  case Nil
  then show ?case by (simp add: newline_positions_def)
next
  case (Cons b bs)
  then have "line_starts_loop (Suc i) bs = map (\<lambda>p. of_nat (Suc (Suc i + p))) (newline_positions LF bs)"
    by simp
  with Cons.prems show ?case
    by (simp add: newline_positions_Cons sat_add_usize_def o_def del: of_nat_add of_nat_Suc)
qed

lemma reference_line_starts_positions:
  "length bs \<le> usize_max \<Longrightarrow>
    reference_line_starts bs = 0 # map (\<lambda>p. of_nat (Suc p)) (newline_positions LF bs)"
  using line_starts_loop_positions [of 0 bs] by (simp add: reference_line_starts_def)

lemma length_newline_positions: "Suc (length (newline_positions LF bs)) = seg_count bs"
proof -
  have "length (newline_positions c bs) = length (filter (\<lambda>b. b = c) bs)" for c
    by (induction bs) (simp_all add: newline_positions_Cons, simp add: newline_positions_def)
  then show ?thesis by (simp add: seg_count_newlines)
qed

lemma newline_positions_lt: "p \<in> set (newline_positions c bs) \<Longrightarrow> p < length bs"
  by (simp add: newline_positions_def)

end
