(* ===== verification/Snapshots.thy ===== *)
theory Snapshots
  imports Effects
begin

text \<open>
  Snapshots (\<open>src/snapshot.rs\<close>): validated text, file stamps with their racy window, the compact
  line-offset table, and the snapshot with its lazily materialised offsets.  Loading from a file
  is in theory \<open>Snapshot_Load\<close>.
\<close>

section \<open>Identity and validated text\<close>

definition content_id :: "externs \<Rightarrow> bytes \<Rightarrow> snapshot_id" where
  "content_id x bytes = SnapshotId (x_xxh3 x bytes (x_seed x))"

definition validated_text :: "externs \<Rightarrow> bytes \<Rightarrow> contract_error + bytes" where
  "validated_text x bytes =
     rbind (ok_or (FileTooLarge (- 1)) (u64_of_usize (length bytes))) (\<lambda>byte_len.
     rbind (validate_file_size byte_len) (\<lambda>_.
     case x_memchr x NUL bytes of
       Some offset \<Rightarrow> rbind (ok_or (FileTooLarge (- 1)) (u64_of_usize offset)) (\<lambda>byte. Inl (NulFile byte))
     | None \<Rightarrow>
         (case x_utf8 x bytes of
            Some up_to \<Rightarrow>
              rbind (ok_or (FileTooLarge (- 1)) (u64_of_usize up_to)) (\<lambda>valid_up_to. Inl (InvalidUtf8 valid_up_to))
          | None \<Rightarrow> Inr bytes)))"

section \<open>File stamps\<close>

type_synonym i64 = "64 word"

record file_time =
  ft_seconds :: i64
  ft_nanoseconds :: i64

record file_identity =
  fi_device :: u64
  fi_inode :: u64

text \<open>What \<open>fs::Metadata\<close> reports of a file on Unix.\<close>

record metadata =
  md_identity :: file_identity
  md_len :: u64
  md_mtime :: file_time
  md_ctime :: file_time
  md_is_file :: bool

text \<open>\<open>RACY_WINDOW\<close> in nanoseconds; a \<open>SystemTime\<close> counts nanoseconds since the epoch.\<close>

definition RACY_WINDOW :: int where
  "RACY_WINDOW = 2 * 10 ^ 9"

definition within_racy_window :: "system_time \<Rightarrow> system_time option \<Rightarrow> bool" where
  "within_racy_window captured_at timestamp =
     (case timestamp of
        None \<Rightarrow> True
      | Some t \<Rightarrow> if t \<le> captured_at then captured_at - t \<le> RACY_WINDOW else True)"

definition to_system_time :: "file_time \<Rightarrow> system_time option" where
  "to_system_time t =
     (if sint (ft_seconds t) < 0 then Some 0
      else if sint (ft_nanoseconds t) < 0 \<or> sint (ft_nanoseconds t) > 4294967295 then None
      else Some (sint (ft_seconds t) * 10 ^ 9 + min (sint (ft_nanoseconds t)) 999999999))"

record file_stamp =
  fs_identity :: file_identity
  fs_len :: u64
  fs_modified :: file_time
  fs_changed :: "file_time option"
  fs_racy :: bool

text \<open>\<open>impl PartialEq for FileStamp\<close>: \<open>racy\<close> is not compared.\<close>

definition stamp_eq :: "file_stamp \<Rightarrow> file_stamp \<Rightarrow> bool" where
  "stamp_eq a b \<longleftrightarrow>
     fs_identity a = fs_identity b \<and> fs_len a = fs_len b \<and>
     fs_modified a = fs_modified b \<and> fs_changed a = fs_changed b"

definition stamp_opt_eq :: "file_stamp option \<Rightarrow> file_stamp option \<Rightarrow> bool" where
  "stamp_opt_eq a b \<longleftrightarrow> (case (a, b) of (None, None) \<Rightarrow> True | (Some s, Some t) \<Rightarrow> stamp_eq s t | _ \<Rightarrow> False)"

definition stamp_from_metadata :: "system_time \<Rightarrow> metadata \<Rightarrow> file_stamp" where
  "stamp_from_metadata captured_at m =
     \<lparr>fs_identity = md_identity m, fs_len = md_len m, fs_modified = md_mtime m,
      fs_changed = Some (md_ctime m),
      fs_racy = within_racy_window captured_at (to_system_time (md_mtime m)) \<or>
        within_racy_window captured_at (to_system_time (md_ctime m))\<rparr>"

definition confirmed_after_rename :: "file_stamp \<Rightarrow> file_stamp \<Rightarrow> file_stamp option" where
  "confirmed_after_rename temp current =
     (if fs_identity temp = fs_identity current \<and> fs_len temp = fs_len current \<and>
         fs_modified temp = fs_modified current
      then Some current else None)"

lemma stamp_eq_refl [simp]: "stamp_eq s s"
  by (simp add: stamp_eq_def)

lemma stamp_eq_sym: "stamp_eq a b \<Longrightarrow> stamp_eq b a"
  by (simp add: stamp_eq_def)

lemma stamp_eq_trans: "stamp_eq a b \<Longrightarrow> stamp_eq b c \<Longrightarrow> stamp_eq a c"
  by (simp add: stamp_eq_def)

text \<open>A stamp that is not racy was captured more than two seconds after both of its times.\<close>

lemma not_racy_old:
  assumes "\<not> fs_racy (stamp_from_metadata now m)"
  shows "\<exists>t c. to_system_time (md_mtime m) = Some t \<and> to_system_time (md_ctime m) = Some c \<and>
    t + RACY_WINDOW < now \<and> c + RACY_WINDOW < now"
  using assms by (auto simp: stamp_from_metadata_def within_racy_window_def split: option.splits if_splits)

section \<open>Line offsets\<close>

datatype offset_kind = U32 | U64

definition for_byte_len :: "u64 \<Rightarrow> offset_kind" where
  "for_byte_len byte_len = (if byte_len \<le> 4294967295 then U32 else U64)"

fun offset_kind_bytes :: "offset_kind \<Rightarrow> nat" where
  "offset_kind_bytes U32 = 4"
| "offset_kind_bytes U64 = 8"

datatype offset_error =
  LineCountAddressSpace u64
| Capacity u64
| OffsetWidth nat offset_kind
| LineCountMismatch nat nat
| MetadataSizeOverflow
| AddressInvariant

fun offset_kind_debug :: "offset_kind \<Rightarrow> string" where
  "offset_kind_debug U32 = ''U32''"
| "offset_kind_debug U64 = ''U64''"

fun offset_error_message :: "offset_error \<Rightarrow> string" where
  "offset_error_message (LineCountAddressSpace lines) =
     ''snapshot line count '' @ dec_string (unat lines) @ '' does not fit the current address space''"
| "offset_error_message (Capacity lines) =
     ''could not reserve offsets for '' @ dec_string (unat lines) @ '' logical lines''"
| "offset_error_message (OffsetWidth off kind) =
     ''byte offset '' @ dec_string off @ '' does not fit '' @ offset_kind_debug kind @ '' line metadata''"
| "offset_error_message (LineCountMismatch expected actual) =
     ''expected '' @ dec_string expected @ '' line offsets but materialized '' @ dec_string actual"
| "offset_error_message MetadataSizeOverflow = ''resident line-metadata size overflowed''"
| "offset_error_message AddressInvariant = ''validated line offset is outside the addressable text''"

datatype line_offsets = U32Offsets "u32 list" | U64Offsets "u64 list"

definition u32_of_usize :: "nat \<Rightarrow> u32 option" where
  "u32_of_usize n = (if n \<le> 4294967295 then Some (of_nat n) else None)"

text \<open>The loop over \<open>memchr_iter\<close> of both branches; \<open>narrow\<close> is the branch's \<open>try_from\<close>.\<close>

fun push_offsets :: "offset_kind \<Rightarrow> (nat \<Rightarrow> 'w option) \<Rightarrow> 'w list \<Rightarrow> nat list \<Rightarrow> offset_error + 'w list" where
  "push_offsets kind narrow offsets [] = Inr offsets"
| "push_offsets kind narrow offsets (newline # rest) =
     rbind (ok_or (OffsetWidth newline kind) (checked_add_usize newline 1)) (\<lambda>start.
     rbind (ok_or (OffsetWidth start kind) (narrow start)) (\<lambda>w.
     push_offsets kind narrow (offsets @ [w]) rest))"

definition build_with_kind :: "externs \<Rightarrow> bytes \<Rightarrow> u64 \<Rightarrow> offset_kind \<Rightarrow> offset_error + line_offsets" where
  "build_with_kind x text line_count kind =
     rbind (ok_or (LineCountAddressSpace line_count) (usize_of_u64 line_count)) (\<lambda>expected.
     if \<not> x_reserve x expected then Inl (Capacity line_count)
     else case kind of
       U32 \<Rightarrow>
         rbind (push_offsets U32 u32_of_usize [0] (x_memchr_iter x LF text)) (\<lambda>offsets.
         if length offsets \<noteq> expected then Inl (LineCountMismatch expected (length offsets))
         else Inr (U32Offsets offsets))
     | U64 \<Rightarrow>
         rbind (push_offsets U64 u64_of_usize [0] (x_memchr_iter x LF text)) (\<lambda>offsets.
         if length offsets \<noteq> expected then Inl (LineCountMismatch expected (length offsets))
         else Inr (U64Offsets offsets)))"

definition build_offsets :: "externs \<Rightarrow> bytes \<Rightarrow> u64 \<Rightarrow> u64 \<Rightarrow> offset_error + line_offsets" where
  "build_offsets x text line_count byte_len = build_with_kind x text line_count (for_byte_len byte_len)"

fun offsets_get :: "line_offsets \<Rightarrow> nat \<Rightarrow> u64 option" where
  "offsets_get (U32Offsets offsets) index = map_option (\<lambda>w. of_nat (unat w)) (get_at offsets index)"
| "offsets_get (U64Offsets offsets) index = get_at offsets index"

fun offsets_len :: "line_offsets \<Rightarrow> nat" where
  "offsets_len (U32Offsets offsets) = length offsets"
| "offsets_len (U64Offsets offsets) = length offsets"

fun offsets_kind :: "line_offsets \<Rightarrow> offset_kind" where
  "offsets_kind (U32Offsets _) = U32"
| "offsets_kind (U64Offsets _) = U64"

definition metadata_bytes_for_lines :: "nat \<Rightarrow> offset_kind \<Rightarrow> offset_error + nat" where
  "metadata_bytes_for_lines lines kind =
     (case checked_mul_usize lines (offset_kind_bytes kind) of
        Some bytes \<Rightarrow> Inr bytes
      | None \<Rightarrow> Inl MetadataSizeOverflow)"

definition offsets_resident_bytes :: "line_offsets \<Rightarrow> offset_error + nat" where
  "offsets_resident_bytes offsets = metadata_bytes_for_lines (offsets_len offsets) (offsets_kind offsets)"

text \<open>The table built for a valid text answers every index like the reference line starts.\<close>

lemma push_offsets_ok:
  "(\<And>p. p \<in> set ps \<Longrightarrow> Suc p \<le> usize_max \<and> narrow (Suc p) = Some (g p)) \<Longrightarrow>
    push_offsets kind narrow acc ps = Inr (acc @ map g ps)"
  by (induction ps arbitrary: acc) (simp_all add: checked_add_usize_def)

lemma u32_widen: "n \<le> 4294967295 \<Longrightarrow> (of_nat (unat (of_nat n :: u32)) :: u64) = of_nat n"
  by (simp add: unat_of_nat take_bit_nat_eq_self)

lemma build_offsets_ok:
  assumes x: "externs_ok x" and ok: "text_ok text" and room: "x_reserve x (seg_count text)"
  shows "\<exists>offsets. build_offsets x text (of_nat (seg_count text)) (of_nat (length text)) = Inr offsets \<and>
    offsets_get offsets = get_at (reference_line_starts text) \<and> offsets_len offsets = seg_count text \<and>
    offsets_kind offsets = for_byte_len (of_nat (length text))"
proof -
  have n: "Suc (seg_count text) \<le> usize_max" by (rule seg_count_usize [OF ok])
  then have cnt: "unat (of_nat (seg_count text) :: u64) = seg_count text" by simp
  have len: "length text \<le> usize_max" "unat (of_nat (length text) :: u64) = length text"
    using text_ok_parts [OF ok] by simp_all
  let ?ps = "newline_positions LF text"
  have ps: "Suc p \<le> length text" if "p \<in> set ?ps" for p using newline_positions_lt [OF that] by simp
  have starts: "reference_line_starts text = 0 # map (\<lambda>p. of_nat (Suc p)) ?ps"
    by (rule reference_line_starts_positions [OF len(1)])
  note expected = externs_okD(2) [OF x] cnt room length_newline_positions [of "text"]
  show ?thesis
  proof (cases "length text \<le> 4294967295")
    case True
    then have kind: "for_byte_len (of_nat (length text)) = U32"
      using len by (simp add: for_byte_len_def word_le_nat_alt)
    have "push_offsets U32 u32_of_usize [0] ?ps = Inr ([0] @ map (\<lambda>p. of_nat (Suc p)) ?ps)"
      using ps True len(1) by (intro push_offsets_ok) (fastforce simp: u32_of_usize_def)
    then have "build_offsets x text (of_nat (seg_count text)) (of_nat (length text)) =
        Inr (U32Offsets ([0] @ map (\<lambda>p. of_nat (Suc p)) ?ps))"
      by (simp add: build_offsets_def build_with_kind_def kind expected del: of_nat_Suc)
    moreover have "offsets_get (U32Offsets ([0] @ map (\<lambda>p. of_nat (Suc p)) ?ps)) i =
        get_at (reference_line_starts text) i" for i
    proof (cases i)
      case (Suc j)
      have "Suc (?ps ! j) \<le> 4294967295" if "j < length ?ps" using ps [OF nth_mem [OF that]] True by simp
      then show ?thesis using Suc u32_widen by (auto simp: get_at_def starts simp del: of_nat_Suc)
    qed (simp add: get_at_def starts)
    ultimately show ?thesis using kind length_newline_positions [of "text"] by (auto simp: fun_eq_iff)
  next
    case False
    then have kind: "for_byte_len (of_nat (length text)) = U64"
      using len by (simp add: for_byte_len_def word_le_nat_alt)
    have "push_offsets U64 u64_of_usize [0] ?ps = Inr ([0] @ map (\<lambda>p. of_nat (Suc p)) ?ps)"
      using ps len(1) by (intro push_offsets_ok) (fastforce simp: u64_of_usize_def)
    then have "build_offsets x text (of_nat (seg_count text)) (of_nat (length text)) =
        Inr (U64Offsets (reference_line_starts text))"
      by (simp add: build_offsets_def build_with_kind_def kind expected starts del: of_nat_Suc)
    then show ?thesis using kind length_reference_line_starts [OF ok] by (auto simp: fun_eq_iff)
  qed
qed

section \<open>Snapshots\<close>

datatype snapshot_error =
  SnIo string path io_error
| SnContract contract_error
| SnConcurrent path
| SnAddressSpace u64
| SnAllocation u64
| SnLineCountOverflow
| SnOffsets offset_error

text \<open>\<open>sn_offsets\<close> is the \<open>OnceLock\<close>: empty, or the result of the first materialisation.\<close>

record snapshot =
  sn_text :: bytes
  sn_id :: snapshot_id
  sn_stamp :: "file_stamp option"
  sn_byte_len :: u64
  sn_line_count :: u64
  sn_offsets :: "(offset_error + line_offsets) option"

definition from_validated_with_stamp :: "externs \<Rightarrow> bytes \<Rightarrow> file_stamp option \<Rightarrow> snapshot_error + snapshot" where
  "from_validated_with_stamp x text stamp =
     rbind (ok_or (SnAddressSpace (- 1)) (u64_of_usize (length text))) (\<lambda>byte_len.
     let newline_count = length (x_memchr_iter x LF text) in
     rbind (ok_or SnLineCountOverflow (checked_add_usize newline_count 1)) (\<lambda>line_count_usize.
     rbind (ok_or SnLineCountOverflow (u64_of_usize line_count_usize)) (\<lambda>line_count.
     Inr \<lparr>sn_text = text, sn_id = content_id x text, sn_stamp = stamp, sn_byte_len = byte_len,
       sn_line_count = line_count, sn_offsets = None\<rparr>)))"

definition snapshot_from_bytes :: "externs \<Rightarrow> bytes \<Rightarrow> snapshot_error + snapshot" where
  "snapshot_from_bytes x bytes =
     rbind (map_err SnContract (validated_text x bytes)) (\<lambda>text. from_validated_with_stamp x text None)"

text \<open>The unchecked constructor of the edit and write paths: only the size cap is tested.\<close>

definition from_validated_bytes :: "externs \<Rightarrow> bytes \<Rightarrow> snapshot_error + snapshot" where
  "from_validated_bytes x bytes =
     rbind (ok_or (SnAddressSpace (- 1)) (u64_of_usize (length bytes))) (\<lambda>byte_len.
     rbind (map_err SnContract (validate_file_size byte_len)) (\<lambda>_.
     from_validated_with_stamp x bytes None))"

definition with_stamp :: "file_stamp \<Rightarrow> snapshot \<Rightarrow> snapshot" where
  "with_stamp stamp s = s\<lparr>sn_stamp := Some stamp\<rparr>"

text \<open>\<open>get_or_init\<close>: the table is built once, and a failure is remembered like a success.\<close>

definition snapshot_offsets :: "externs \<Rightarrow> (snapshot, snapshot_error, line_offsets) comp" where
  "snapshot_offsets x = (\<lambda>s.
     let cell = (case sn_offsets s of
                   Some r \<Rightarrow> r
                 | None \<Rightarrow> build_offsets x (sn_text s) (sn_line_count s) (sn_byte_len s))
     in (map_err SnOffsets cell, s\<lparr>sn_offsets := Some cell\<rparr>))"

definition snapshot_boundary_ordinal :: "externs \<Rightarrow> position \<Rightarrow> (snapshot, snapshot_error, u64) comp" where
  "snapshot_boundary_ordinal x p =
     bind (snapshot_offsets x) (\<lambda>offsets s.
       if pos_line p \<le> sn_line_count s then
         (case checked_sub_u64 (pos_line p) 1 of
            None \<Rightarrow> (Inl (SnOffsets AddressInvariant), s)
          | Some zero_based \<Rightarrow>
              (case usize_of_u64 zero_based of
                 None \<Rightarrow> (Inl (SnOffsets AddressInvariant), s)
               | Some index \<Rightarrow>
                   if offsets_get offsets index = Some (pos_byte p) then (Inr zero_based, s)
                   else (Inl (SnContract (InvalidPosition p)), s)))
       else if checked_add_u64 (sn_line_count s) 1 = Some (pos_line p) \<and> pos_byte p = sn_byte_len s
         then (Inr (sn_line_count s), s)
       else (Inl (SnContract (InvalidPosition p)), s))"

definition materialize_offsets :: "externs \<Rightarrow> (snapshot, snapshot_error, offset_kind) comp" where
  "materialize_offsets x = bind (snapshot_offsets x) (\<lambda>offsets. ret (offsets_kind offsets))"

definition resident_line_metadata_bytes :: "snapshot \<Rightarrow> snapshot_error + nat" where
  "resident_line_metadata_bytes s =
     (case sn_offsets s of
        None \<Rightarrow> Inr 0
      | Some (Inr offsets) \<Rightarrow> map_err SnOffsets (offsets_resident_bytes offsets)
      | Some (Inl e) \<Rightarrow> Inl (SnOffsets e))"

definition snapshot_line_start :: "externs \<Rightarrow> u64 \<Rightarrow> (snapshot, snapshot_error, u64 option) comp" where
  "snapshot_line_start x line =
     (case checked_sub_u64 line 1 of
        None \<Rightarrow> ret None
      | Some zero_based \<Rightarrow>
          (case usize_of_u64 zero_based of
             None \<Rightarrow> ret None
           | Some index \<Rightarrow> bind (snapshot_offsets x) (\<lambda>offsets. ret (offsets_get offsets index))))"

definition validate_boundary :: "externs \<Rightarrow> position \<Rightarrow> (snapshot, snapshot_error, unit) comp" where
  "validate_boundary x p = bind (snapshot_boundary_ordinal x p) (\<lambda>_. ret ())"

definition snapshot_slice :: "externs \<Rightarrow> position \<Rightarrow> position \<Rightarrow> (snapshot, snapshot_error, bytes) comp" where
  "snapshot_slice x start end =
     bind (snapshot_boundary_ordinal x start) (\<lambda>start_ordinal.
     bind (snapshot_boundary_ordinal x end) (\<lambda>end_ordinal.
     if start_ordinal > end_ordinal then raise (SnContract (ReversedRange start end))
     else bind (lift (ok_or (SnOffsets AddressInvariant) (usize_of_u64 (pos_byte start)))) (\<lambda>start_byte.
          bind (lift (ok_or (SnOffsets AddressInvariant) (usize_of_u64 (pos_byte end)))) (\<lambda>end_byte s.
          (ok_or (SnOffsets AddressInvariant) (str_get (sn_text s) start_byte end_byte), s)))))"

section \<open>Well-formed snapshots\<close>

definition wf_snapshot :: "externs \<Rightarrow> snapshot \<Rightarrow> bool" where
  "wf_snapshot x s \<longleftrightarrow>
     text_ok (sn_text s) \<and> sn_id s = content_id x (sn_text s) \<and>
     sn_byte_len s = of_nat (length (sn_text s)) \<and> sn_line_count s = of_nat (seg_count (sn_text s)) \<and>
     (case sn_offsets s of None \<Rightarrow> True
      | Some r \<Rightarrow> r = build_offsets x (sn_text s) (sn_line_count s) (sn_byte_len s))"

definition fresh_snapshot :: "externs \<Rightarrow> bytes \<Rightarrow> file_stamp option \<Rightarrow> snapshot" where
  "fresh_snapshot x text stamp =
     \<lparr>sn_text = text, sn_id = content_id x text, sn_stamp = stamp, sn_byte_len = of_nat (length text),
      sn_line_count = of_nat (seg_count text), sn_offsets = None\<rparr>"

definition materialized :: "externs \<Rightarrow> snapshot \<Rightarrow> snapshot" where
  "materialized x s = s\<lparr>sn_offsets := Some (build_offsets x (sn_text s) (sn_line_count s) (sn_byte_len s))\<rparr>"

text \<open>The allocator grants the table of this snapshot.\<close>

definition offsets_fit :: "externs \<Rightarrow> snapshot \<Rightarrow> bool" where
  "offsets_fit x s \<longleftrightarrow> x_reserve x (seg_count (sn_text s))"

lemma validated_text_eq:
  assumes x: "externs_ok x"
  shows "validated_text x bytes = validate_text bytes"
proof (cases "length bytes \<le> max_file_len")
  case True
  then have len: "length bytes \<le> usize_max" by simp
  have conv: "u64_of_usize k = Some (of_nat k)" if "k \<le> length bytes" for k
    using that len by (simp add: u64_of_usize_def)
  have size: "validate_file_size (of_nat (length bytes)) = Inr ()"
    using True len by (simp only: validate_file_size_eq_Inr unat_of_nat_u64)
  have valid: "validate_len (length bytes) = Inr (of_nat (length bytes))"
    using True by (simp add: validate_len_cases)
  show ?thesis
  proof (cases "position_of (\<lambda>b. b = NUL) bytes")
    case (Some i)
    then have "i \<le> length bytes" using position_of_Some [OF Some] by simp
    with Some show ?thesis
      by (simp add: validated_text_def validate_text_def conv size valid externs_okD [OF x] del: position_of_None validate_file_size_eq_Inr)
  next
    case None
    then show ?thesis
    proof (cases "utf8_error bytes")
      case (Some k)
      then have "k \<le> length bytes" using utf8_error_prefix [OF Some] by simp
      with None Some show ?thesis
        by (simp add: validated_text_def validate_text_def conv size valid externs_okD [OF x] del: position_of_None validate_file_size_eq_Inr)
    qed (simp add: validated_text_def validate_text_def conv size valid externs_okD [OF x] del: position_of_None validate_file_size_eq_Inr)
  qed
next
  case False
  then show ?thesis
    by (cases "length bytes \<le> usize_max")
      (simp_all add: validated_text_def validate_text_def validate_len_cases u64_of_usize_def validate_file_size_def above_max_file_bytes)
qed

lemma from_validated_with_stamp_ok:
  assumes x: "externs_ok x" and ok: "text_ok text"
  shows "from_validated_with_stamp x text stamp = Inr (fresh_snapshot x text stamp)"
proof -
  have n: "Suc (seg_count text) \<le> usize_max" by (rule seg_count_usize [OF ok])
  have "length text \<le> usize_max" using text_ok_parts [OF ok] by simp
  moreover have "length (newline_positions LF text) + 1 = seg_count text"
    using length_newline_positions [of "text"] by simp
  ultimately show ?thesis
    using n unfolding from_validated_with_stamp_def Let_def externs_okD(2) [OF x]
    by (simp only: u64_of_usize_def checked_add_usize_def if_True ok_or_simps rbind_simps
        fresh_snapshot_def Suc_leD)
qed

lemma snapshot_from_bytes_eq:
  "externs_ok x \<Longrightarrow> snapshot_from_bytes x bytes =
    (case validate_text bytes of Inl e \<Rightarrow> Inl (SnContract e) | Inr _ \<Rightarrow> Inr (fresh_snapshot x bytes None))"
  using validate_text_eq_Inr [of bytes bytes]
  by (cases "validate_text bytes")
    (auto simp: snapshot_from_bytes_def validated_text_eq from_validated_with_stamp_ok validate_text_eq_Inr)

lemma from_validated_bytes_ok:
  "externs_ok x \<Longrightarrow> text_ok bytes \<Longrightarrow> from_validated_bytes x bytes = Inr (fresh_snapshot x bytes None)"
proof -
  assume x: "externs_ok x" and ok: "text_ok bytes"
  have len: "length bytes \<le> max_file_len" "length bytes \<le> usize_max" using text_ok_parts [OF ok] by auto
  then have "validate_file_size (of_nat (length bytes)) = Inr ()"
    by (simp only: validate_file_size_eq_Inr unat_of_nat_u64)
  then show ?thesis
    using len by (simp add: from_validated_bytes_def u64_of_usize_def from_validated_with_stamp_ok [OF x ok]
        del: validate_file_size_eq_Inr)
qed

lemma wf_fresh_snapshot [simp]: "text_ok text \<Longrightarrow> wf_snapshot x (fresh_snapshot x text stamp)"
  by (simp add: wf_snapshot_def fresh_snapshot_def)

lemma fresh_snapshot_simps [simp]:
  "sn_text (fresh_snapshot x text stamp) = text"
  "sn_id (fresh_snapshot x text stamp) = content_id x text"
  "sn_stamp (fresh_snapshot x text stamp) = stamp"
  by (simp_all add: fresh_snapshot_def)

lemma materialized_simps [simp]:
  "sn_text (materialized x s) = sn_text s" "sn_id (materialized x s) = sn_id s"
  "sn_stamp (materialized x s) = sn_stamp s" "sn_byte_len (materialized x s) = sn_byte_len s"
  "sn_line_count (materialized x s) = sn_line_count s"
  "materialized x (materialized x s) = materialized x s"
  by (simp_all add: materialized_def)

lemma wf_materialized [simp]: "wf_snapshot x s \<Longrightarrow> wf_snapshot x (materialized x s)"
  by (simp add: wf_snapshot_def) (simp add: materialized_def)

lemma offsets_fit_materialized [simp]: "offsets_fit x (materialized x s) = offsets_fit x s"
  by (simp add: offsets_fit_def)

lemma wf_with_stamp [simp]: "wf_snapshot x (with_stamp st s) = wf_snapshot x s"
  by (cases "sn_offsets s") (simp_all add: wf_snapshot_def with_stamp_def)

lemma snapshot_offsets_run:
  "wf_snapshot x s \<Longrightarrow> snapshot_offsets x s =
    (map_err SnOffsets (build_offsets x (sn_text s) (sn_line_count s) (sn_byte_len s)), materialized x s)"
  by (auto simp: snapshot_offsets_def wf_snapshot_def materialized_def Let_def split: option.splits)

lemma snapshot_offsets_ok:
  assumes x: "externs_ok x" and wf: "wf_snapshot x s" and fit: "offsets_fit x s"
  shows "\<exists>offsets. snapshot_offsets x s = (Inr offsets, materialized x s) \<and>
    offsets_get offsets = get_at (reference_line_starts (sn_text s)) \<and>
    offsets_len offsets = seg_count (sn_text s) \<and> offsets_kind offsets = for_byte_len (sn_byte_len s)"
  using build_offsets_ok [OF x, of "sn_text s"] wf fit
  by (auto simp: snapshot_offsets_run [OF wf] wf_snapshot_def offsets_fit_def)

lemma snapshot_offsets_refused:
  assumes wf: "wf_snapshot x s" and unfit: "\<not> offsets_fit x s"
  shows "snapshot_offsets x s = (Inl (SnOffsets (Capacity (sn_line_count s))), materialized x s)"
proof -
  have "text_ok (sn_text s)" using wf by (simp add: wf_snapshot_def)
  then have "Suc (seg_count (sn_text s)) \<le> usize_max" by (rule seg_count_usize)
  then have "unat (sn_line_count s) = seg_count (sn_text s)" using wf by (simp add: wf_snapshot_def)
  then show ?thesis
    using unfit by (simp add: snapshot_offsets_run [OF wf] build_offsets_def build_with_kind_def offsets_fit_def)
qed

lemma wf_line_count:
  assumes "wf_snapshot x s"
  shows "unat (sn_line_count s) = seg_count (sn_text s)" "Suc (seg_count (sn_text s)) \<le> usize_max"
    "unat (sn_byte_len s) = length (sn_text s)" "text_ok (sn_text s)"
proof -
  show ok: "text_ok (sn_text s)" using assms by (simp add: wf_snapshot_def)
  show n: "Suc (seg_count (sn_text s)) \<le> usize_max" by (rule seg_count_usize [OF ok])
  show "unat (sn_line_count s) = seg_count (sn_text s)" using assms n by (simp add: wf_snapshot_def)
  show "unat (sn_byte_len s) = length (sn_text s)"
    using assms text_ok_parts [OF ok] by (simp add: wf_snapshot_def)
qed

text \<open>A line start is the offset of its segment; every other line number has none.\<close>

lemma snapshot_line_start_run:
  assumes x: "externs_ok x" and wf: "wf_snapshot x s" and fit: "offsets_fit x s"
  shows "snapshot_line_start x line s =
    (if line = 0 then (Inr None, s)
     else (Inr (if unat line \<le> seg_count (sn_text s) then Some (of_nat (seg_off (sn_text s) (unat line - 1))) else None),
       materialized x s))"
proof (cases "line = 0")
  case True
  then show ?thesis by (simp add: snapshot_line_start_def checked_sub_u64_def comp_simps)
next
  case False
  then have pos: "1 \<le> line" "unat (line - 1) = unat line - 1" "0 < unat line"
    by (simp_all add: word_le_nat_alt unat_minus_one_u64 unat_gt_0 Suc_le_eq)
  obtain offsets where o: "snapshot_offsets x s = (Inr offsets, materialized x s)"
    "offsets_get offsets = get_at (reference_line_starts (sn_text s))"
    using snapshot_offsets_ok [OF x wf fit] by blast
  have ok: "text_ok (sn_text s)" using wf by (simp add: wf_snapshot_def)
  have "get_at (reference_line_starts (sn_text s)) (unat line - 1) =
      (if unat line \<le> seg_count (sn_text s) then Some (of_nat (seg_off (sn_text s) (unat line - 1))) else None)"
  proof (cases "unat line \<le> seg_count (sn_text s)")
    case True
    then have "unat line - 1 < seg_count (sn_text s)" using pos by linarith
    with True show ?thesis using ok by (simp add: get_at_eq_Some nth_reference_line_starts)
  next
    case le: False
    then have "\<not> unat line - 1 < seg_count (sn_text s)" by linarith
    with le show ?thesis using ok by (simp add: get_at_def)
  qed
  then show ?thesis
    using False pos o by (simp add: snapshot_line_start_def checked_sub_u64_def comp_simps)
qed

text \<open>Boundary resolution on a snapshot is that of the reference model on its text.\<close>

lemma snapshot_boundary_run:
  assumes x: "externs_ok x" and wf: "wf_snapshot x s" and fit: "offsets_fit x s" and line: "pos_line p \<noteq> 0"
  shows "snapshot_boundary_ordinal x p s =
    (if is_boundary (sn_text s) p then Inr (pos_line p - 1) else Inl (SnContract (InvalidPosition p)), materialized x s)"
proof -
  let ?n = "seg_count (sn_text s)"
  have pos: "1 \<le> pos_line p" "unat (pos_line p - 1) = unat (pos_line p) - 1" "0 < unat (pos_line p)"
    using line by (simp_all add: word_le_nat_alt unat_minus_one_u64 unat_gt_0 Suc_le_eq)
  obtain offsets where o: "snapshot_offsets x s = (Inr offsets, materialized x s)"
    "offsets_get offsets = get_at (reference_line_starts (sn_text s))"
    using snapshot_offsets_ok [OF x wf fit] by blast
  note lc = wf_line_count [OF wf]
  have off: "unat (of_nat (seg_off (sn_text s) k) :: u64) = seg_off (sn_text s) k" for k
    using seg_off_le [of "sn_text s" k] text_ok_parts [OF lc(4)] by (intro unat_of_nat_u64) linarith
  show ?thesis
  proof (cases "pos_line p \<le> sn_line_count s")
    case True
    then have le: "unat (pos_line p) \<le> ?n" using lc by (simp add: word_le_nat_alt)
    then have lt: "unat (pos_line p) - 1 < ?n" using pos by linarith
    have "get_at (reference_line_starts (sn_text s)) (unat (pos_line p) - 1) = Some (pos_byte p) \<longleftrightarrow>
        is_boundary (sn_text s) p"
      using lt le pos lc(4) off
      by (auto simp: get_at_eq_Some nth_reference_line_starts is_boundary_def boundary_at_def word_unat_eq_iff)
    then show ?thesis
      using True pos o by (simp add: snapshot_boundary_ordinal_def comp_simps checked_sub_u64_def)
  next
    case False
    then have gt: "?n < unat (pos_line p)" using lc by (simp add: word_le_nat_alt)
    have "checked_add_u64 (sn_line_count s) 1 = Some (pos_line p) \<longleftrightarrow> unat (pos_line p) = Suc ?n"
      using lc by (simp add: checked_add_u64_eq_Some)
    moreover have "pos_byte p = sn_byte_len s \<longleftrightarrow> unat (pos_byte p) = length (sn_text s)"
      using lc by (simp add: word_unat_eq_iff)
    moreover have "sn_line_count s = pos_line p - 1" if "unat (pos_line p) = Suc ?n"
      using that lc pos by (simp add: word_unat_eq_iff)
    moreover have "is_boundary (sn_text s) p \<longleftrightarrow> unat (pos_line p) = Suc ?n \<and> unat (pos_byte p) = length (sn_text s)"
      using gt by (auto simp: is_boundary_def boundary_at_def)
    ultimately show ?thesis
      using False pos o by (auto simp: snapshot_boundary_ordinal_def comp_simps)
  qed
qed

lemma snapshot_boundary_zero:
  assumes x: "externs_ok x" and wf: "wf_snapshot x s" and fit: "offsets_fit x s" and line: "pos_line p = 0"
  shows "snapshot_boundary_ordinal x p s = (Inl (SnOffsets AddressInvariant), materialized x s)"
proof -
  obtain offsets where "snapshot_offsets x s = (Inr offsets, materialized x s)"
    using snapshot_offsets_ok [OF x wf fit] by blast
  then show ?thesis
    using line by (simp add: snapshot_boundary_ordinal_def comp_simps checked_sub_u64_def word_le_nat_alt)
qed

definition usable :: "externs \<times> snapshot \<Rightarrow> bool" where
  "usable = (\<lambda>(x, s). externs_ok x \<and> wf_snapshot x s \<and> offsets_fit x s)"

interpretation snapb: boundary_resolver "\<lambda>(x, s). sn_text s" usable
  "\<lambda>(x, s) p. ok_opt (fst (snapshot_boundary_ordinal x p s))"
proof (standard, goal_cases)
  case (1 xs)
  then show ?case by (auto simp: usable_def wf_snapshot_def)
next
  case (2 xs p w)
  obtain x s where xs: "xs = (x, s)" by (cases xs)
  with 2 have x: "externs_ok x" and wf: "wf_snapshot x s" and fit: "offsets_fit x s" by (simp_all add: usable_def)
  show ?case
  proof (cases "pos_line p = 0")
    case True
    then show ?thesis using xs snapshot_boundary_zero [OF x wf fit True] by (simp add: boundary_at_def)
  next
    case False
    then have m: "unat (pos_line p - 1) = unat (pos_line p) - 1" "0 < unat (pos_line p)"
      by (simp_all add: unat_minus_one_u64 unat_gt_0)
    show ?thesis
      using xs snapshot_boundary_run [OF x wf fit False] m
      by (auto simp: is_boundary_def boundary_at_def word_unat_eq_iff)
  qed
qed

text \<open>The text between two boundaries is the segments between them.\<close>

lemma snapshot_slice_run:
  assumes x: "externs_ok x" and wf: "wf_snapshot x s" and fit: "offsets_fit x s"
    and a: "boundary_at (sn_text s) p j" and b: "boundary_at (sn_text s) q k" and jk: "j \<le> k"
  shows "snapshot_slice x p q s = (Inr (concat (take (k - j) (drop j (segments (sn_text s))))), materialized x s)"
proof -
  let ?t = "sn_text s"
  have lines: "pos_line p \<noteq> 0" "pos_line q \<noteq> 0" using a b by (auto simp: boundary_at_def)
  have wfm: "wf_snapshot x (materialized x s)" and fitm: "offsets_fit x (materialized x s)" using wf fit by simp_all
  have bp: "is_boundary ?t p" "is_boundary ?t q" using a b boundary_atD by blast+
  have "\<not> pos_line q - 1 < pos_line p - 1"
    using line_pred_le [OF bp] a b jk unfolding not_less boundary_at_def word_le_nat_alt [of "pos_line p" "pos_line q"] by simp
  moreover have bytes: "unat (pos_byte p) = seg_off ?t j" "unat (pos_byte q) = seg_off ?t k" "k \<le> seg_count ?t" "j \<le> seg_count ?t"
    using a b by (simp_all add: boundary_at_def)
  have ok: "utf8_ok ?t" using wf by (simp add: wf_snapshot_def text_ok_def)
  have "str_get ?t (seg_off ?t j) (seg_off ?t k) = slice_of ?t (seg_off ?t j) (seg_off ?t k)"
    using seg_off_char_boundary [OF ok] bytes seg_off_mono [OF jk] by (simp add: str_get_def slice_of_def)
  moreover have "take (k - j) (drop j (segments ?t)) = map ((!) (segments ?t)) [j..<min k (seg_count ?t)]"
    using bytes(3) by (intro nth_equalityI) (auto simp: seg_count_def)
  ultimately show ?thesis
    using snapshot_boundary_run [OF x wf fit lines(1)] snapshot_boundary_run [OF x wfm fitm lines(2)] bp bytes
      slice_seg_off [OF jk, of ?t]
    by (simp add: snapshot_slice_def comp_simps)
qed

section \<open>Properties\<close>

text \<open>
  Property C24.  Building a snapshot from bytes: it succeeds exactly on text the reference model
  accepts, with the reference error otherwise, and the snapshot holds exactly those bytes, their
  identity, their length and their number of lines, with no offsets materialised.
\<close>

theorem snapshot_construction:
  assumes "externs_ok x"
  shows "snapshot_from_bytes x bytes =
    (case validate_text bytes of
       Inl e \<Rightarrow> Inl (SnContract e)
     | Inr _ \<Rightarrow> Inr \<lparr>sn_text = bytes, sn_id = content_id x bytes, sn_stamp = None,
         sn_byte_len = of_nat (length bytes), sn_line_count = of_nat (seg_count bytes), sn_offsets = None\<rparr>)"
  using snapshot_from_bytes_eq [OF assms] by (simp only: fresh_snapshot_def)

theorem snapshot_construction_witness:
  "snapshot_from_bytes plain_externs [NUL] = Inl (SnContract (NulFile 0))"
  using snapshot_construction [OF plain_externs_ok, of "[NUL]"]
  by (simp add: validate_text_def validate_len_cases max_file_len_def)

text \<open>
  Property C18.  Resolving a position on a snapshot through the compact offset table gives the
  answer of the reference model on its bytes, whether or not the table was built before, and
  leaves the snapshot well-formed with the table built.
\<close>

theorem snapshot_boundary_reference:
  assumes "externs_ok x" and "wf_snapshot x s" and "offsets_fit x s" and "pos_line p \<noteq> 0"
  shows "fst (snapshot_boundary_ordinal x p s) =
      map_err SnContract (boundary_ordinal (sn_text s) (reference_line_starts (sn_text s)) p) \<and>
    wf_snapshot x (snd (snapshot_boundary_ordinal x p s)) \<and>
    sn_offsets (snd (snapshot_boundary_ordinal x p s)) \<noteq> None"
proof -
  have "boundary_ordinal (sn_text s) (reference_line_starts (sn_text s)) p =
      (if is_boundary (sn_text s) p then Inr (pos_line p - 1) else Inl (InvalidPosition p))"
    using boundary_ordinal_line [of "sn_text s" p "pos_line p - 1"] wf_line_count(4) [OF assms(2)]
      boundary_ordinal_Inl [of "sn_text s" _ p] boundary_ordinal_line [of "sn_text s" p]
    by (cases "boundary_ordinal (sn_text s) (reference_line_starts (sn_text s)) p") auto
  then show ?thesis
    using snapshot_boundary_run [OF assms] wf_materialized [OF assms(2)]
    by (simp add: materialized_def)
qed

theorem snapshot_boundary_reference_witness:
  "fst (snapshot_boundary_ordinal plain_externs (Position 2 2)
      (fresh_snapshot plain_externs (''a'' @ [LF] @ ''b'') None)) =
    map_err SnContract (boundary_ordinal (''a'' @ [LF] @ ''b'') (reference_line_starts (''a'' @ [LF] @ ''b'')) (Position 2 2))"
proof -
  let ?t = "''a'' @ [LF] @ ''b''"
  have "text_ok ?t" by (simp add: text_ok_def max_file_len_def utf8_ok_ascii code_of_def)
  then have "wf_snapshot plain_externs (fresh_snapshot plain_externs ?t None)" by simp
  moreover have "offsets_fit plain_externs (fresh_snapshot plain_externs ?t None)"
    by (simp add: offsets_fit_def plain_externs_def)
  ultimately show ?thesis
    using snapshot_boundary_reference [of plain_externs "fresh_snapshot plain_externs ?t None" "Position 2 2"]
    by simp
qed

text \<open>
  Property C25.  A slice of a snapshot between two boundaries in order is exactly the lines
  between them, and reading all lines this way gives back the file.
\<close>

theorem snapshot_slice_lines:
  assumes "externs_ok x" and "wf_snapshot x s" and "offsets_fit x s"
    and "boundary_at (sn_text s) p j" and "boundary_at (sn_text s) q k" and "j \<le> k"
  shows "fst (snapshot_slice x p q s) = Inr (concat (take (k - j) (drop j (segments (sn_text s))))) \<and>
    (j = 0 \<and> k = seg_count (sn_text s) \<longrightarrow> fst (snapshot_slice x p q s) = Inr (sn_text s))"
  using snapshot_slice_run [OF assms] by (auto simp: seg_count_def)

theorem snapshot_slice_lines_witness:
  "fst (snapshot_slice plain_externs (Position 1 0) (Position 2 2)
      (fresh_snapshot plain_externs (''a'' @ [LF] @ ''b'') None)) = Inr (''a'' @ [LF])"
proof -
  let ?t = "''a'' @ [LF] @ ''b''" and ?s = "fresh_snapshot plain_externs (''a'' @ [LF] @ ''b'') None"
  have "text_ok ?t" by (simp add: text_ok_def max_file_len_def utf8_ok_ascii code_of_def)
  then have "wf_snapshot plain_externs ?s" by simp
  moreover have "offsets_fit plain_externs ?s" by (simp add: offsets_fit_def plain_externs_def)
  moreover have "boundary_at ?t (Position 1 0) 0" "boundary_at ?t (Position 2 2) 1"
    by (simp_all add: boundary_at_def seg_count_def seg_off_def)
  ultimately show ?thesis
    using snapshot_slice_lines [of plain_externs ?s "Position 1 0" 0 "Position 2 2" 1] by simp
qed

end
