(* ===== verification/Edit_Engine.thy ===== *)
theory Edit_Engine
  imports Snapshots
begin

text \<open>
  The optimised apply engine (\<open>src/edit/engine.rs\<close>): positions are resolved on the snapshot's
  offset table and any rejection falls back to the reference model.  The theorem is the module's
  claim: whatever the allocator does, the result is that of the reference model.
\<close>

section \<open>The code\<close>

text \<open>
  \<open>FastEdit\<close> has the fields of the reference model's \<open>ValidatedEdit\<close>.  In the result type,
  \<open>Inl (Err ())\<close> is the code's \<open>None\<close>.
\<close>

type_synonym fast_edit = validated_edit

definition overlaps :: "fast_edit \<Rightarrow> fast_edit \<Rightarrow> bool" where
  "overlaps left right =
     (case (is_insertion left, is_insertion right) of
        (False, False) \<Rightarrow>
          ve_start_ordinal left < ve_end_ordinal right \<and> ve_start_ordinal right < ve_end_ordinal left
      | (True, False) \<Rightarrow>
          ve_start_ordinal right < ve_start_ordinal left \<and> ve_start_ordinal left < ve_end_ordinal right
      | (False, True) \<Rightarrow>
          ve_start_ordinal left < ve_start_ordinal right \<and> ve_start_ordinal right < ve_end_ordinal left
      | (True, True) \<Rightarrow> False)"

definition resolve_boundary :: "externs \<Rightarrow> position \<Rightarrow> (snapshot, unit fault, u64 \<times> nat) comp" where
  "resolve_boundary x p = (\<lambda>s.
     if pos_line p \<le> sn_line_count s then
       (case snapshot_line_start x (pos_line p) s of
          (Inr (Some start), s') \<Rightarrow>
            if start \<noteq> pos_byte p then (Inl (Err ()), s')
            else (rbind (ok_or (Err ()) (usize_of_u64 (pos_byte p))) (\<lambda>byte. Inr (pos_line p - 1, byte)), s')
        | (_, s') \<Rightarrow> (Inl (Err ()), s'))
     else
       (case checked_add_u64 (sn_line_count s) 1 of
          None \<Rightarrow> (Inl (Err ()), s)
        | Some terminal \<Rightarrow>
            if pos_line p = terminal \<and> pos_byte p = sn_byte_len s
            then (rbind (ok_or (Err ()) (usize_of_u64 (pos_byte p))) (\<lambda>byte. Inr (sn_line_count s, byte)), s)
            else (Inl (Err ()), s)))"

fun fast_validate :: "externs \<Rightarrow> nat \<Rightarrow> edit_operation list \<Rightarrow> (snapshot, unit fault, fast_edit list) comp" where
  "fast_validate x index [] = ret []"
| "fast_validate x index (operation # rest) =
     (if x_memchr x NUL (op_content operation) \<noteq> None then raise (Err ())
      else
        bind (resolve_boundary x (op_start operation)) (\<lambda>(start_ordinal, start_byte).
        bind (resolve_boundary x (op_end operation)) (\<lambda>(end_ordinal, end_byte).
        if start_ordinal > end_ordinal then raise (Err ())
        else bind (fast_validate x (Suc index) rest) (\<lambda>validated.
          ret (\<lparr>ve_index = index, ve_start_ordinal = start_ordinal, ve_end_ordinal = end_ordinal,
            ve_start_byte = start_byte, ve_end_byte = end_byte,
            ve_content = op_content operation\<rparr> # validated)))))"

fun any_overlap :: "fast_edit list \<Rightarrow> bool" where
  "any_overlap [] \<longleftrightarrow> False"
| "any_overlap (left # rest) \<longleftrightarrow> list_ex (overlaps left) rest \<or> any_overlap rest"

fun fast_removed :: "nat \<Rightarrow> fast_edit list \<Rightarrow> unit fault + nat" where
  "fast_removed acc [] = Inr acc"
| "fast_removed acc (v # vs) =
     rbind (expect (checked_sub_usize (ve_end_byte v) (ve_start_byte v))) (\<lambda>d.
     rbind (ok_or (Err ()) (checked_add_usize acc d)) (\<lambda>acc'. fast_removed acc' vs))"

fun fast_added :: "nat \<Rightarrow> fast_edit list \<Rightarrow> unit fault + nat" where
  "fast_added acc [] = Inr acc"
| "fast_added acc (v # vs) =
     rbind (ok_or (Err ()) (checked_add_usize acc (length (ve_content v)))) (\<lambda>acc'. fast_added acc' vs)"

fun fast_splice :: "bytes \<Rightarrow> nat \<Rightarrow> bytes \<Rightarrow> fast_edit list \<Rightarrow> unit fault + bytes" where
  "fast_splice source cursor output [] =
     rbind (expect (slice_of source cursor (length source))) (\<lambda>rest. Inr (output @ rest))"
| "fast_splice source cursor output (v # vs) =
     rbind (if ve_start_byte v > cursor
            then rbind (expect (slice_of source cursor (ve_start_byte v)))
                   (\<lambda>chunk. Inr (output @ chunk, ve_start_byte v))
            else Inr (output, cursor))
       (\<lambda>(output', cursor').
          fast_splice source (if \<not> is_insertion v then ve_end_byte v else cursor')
            (output' @ ve_content v) vs)"

definition fast_finish :: "bytes \<Rightarrow> fast_edit list \<Rightarrow> unit fault + bytes" where
  "fast_finish source validated =
     (if any_overlap validated then Inl (Err ())
      else
        rbind (fast_removed 0 validated) (\<lambda>removed.
        rbind (fast_added 0 validated) (\<lambda>added.
        rbind (ok_or (Err ())
                (Option.bind (checked_sub_usize (length source) removed)
                  (\<lambda>len. checked_add_usize len added))) (\<lambda>final_length.
        rbind (ok_or (Err ())
                (Option.bind (u64_of_usize final_length) (\<lambda>n. ok_opt (validate_file_size n)))) (\<lambda>_.
        fast_splice source 0 [] (sort_key edit_sort_key validated))))))"

definition try_fast :: "externs \<Rightarrow> edit_request \<Rightarrow> (snapshot, unit fault, bytes) comp" where
  "try_fast x request =
     bind (lift (ok_or (Err ()) (ok_opt (edit_request_validate request)))) (\<lambda>_ s.
     if er_snapshot request \<noteq> sn_id s then (Inl (Err ()), s)
     else bind (fast_validate x 0 (er_edits request)) (\<lambda>validated.
       lift (fast_finish (sn_text s) validated)) s)"

definition apply_edits_fast :: "externs \<Rightarrow> edit_request \<Rightarrow> (snapshot, protocol_error fault, bytes) comp" where
  "apply_edits_fast x request = (\<lambda>s.
     case try_fast x request s of
       (Inr applied, s') \<Rightarrow> (Inr applied, s')
     | (Inl Panic, s') \<Rightarrow> (Inl Panic, s')
     | (Inl (Err _), s') \<Rightarrow> (apply_versioned_reference_edits (sn_text s') (sn_id s') request, s'))"

section \<open>The fast path validates what the reference model validates\<close>

lemma overlaps_eq: "overlaps = edits_overlap"
  by (simp add: overlaps_def edits_overlap_def fun_eq_iff)

lemma any_overlap_iff: "any_overlap vs \<longleftrightarrow> first_overlap vs \<noteq> None"
  by (induction vs) (auto simp: overlaps_eq list_ex_iff find_None_iff split: option.splits dest: find_SomeD)

text \<open>Every step either leaves the snapshot alone or materialises its offsets.\<close>

definition same_snapshot :: "externs \<Rightarrow> snapshot \<Rightarrow> snapshot \<Rightarrow> bool" where
  "same_snapshot x s s' \<longleftrightarrow> s' = s \<or> s' = materialized x s"

lemma same_snapshot_trans: "same_snapshot x s s' \<Longrightarrow> same_snapshot x s' s'' \<Longrightarrow> same_snapshot x s s''"
  by (auto simp: same_snapshot_def)

lemma same_snapshot_refl [simp]: "same_snapshot x s s"
  by (simp add: same_snapshot_def)

lemma same_snapshotD:
  "same_snapshot x s s' \<Longrightarrow> sn_text s' = sn_text s \<and> sn_id s' = sn_id s \<and> sn_stamp s' = sn_stamp s \<and>
    sn_line_count s' = sn_line_count s \<and> sn_byte_len s' = sn_byte_len s \<and>
    (wf_snapshot x s \<longrightarrow> wf_snapshot x s')"
  by (auto simp: same_snapshot_def)

lemma line_start_same:
  "wf_snapshot x s \<Longrightarrow> snapshot_line_start x line s = (r, s') \<Longrightarrow> same_snapshot x s s'"
  by (auto simp: snapshot_line_start_def snapshot_offsets_run comp_simps same_snapshot_def
      split: option.splits sum.splits prod.splits)

lemma line_start_sound:
  assumes x: "externs_ok x" and wf: "wf_snapshot x s" and run: "snapshot_line_start x line s = (Inr (Some start), s')"
  shows "line \<noteq> 0 \<and> unat line \<le> seg_count (sn_text s) \<and> start = of_nat (seg_off (sn_text s) (unat line - 1))"
proof (cases "offsets_fit x s")
  case True
  then show ?thesis using snapshot_line_start_run [OF x wf True, of line] run by (auto split: if_splits)
next
  case False
  then show ?thesis
    using run snapshot_offsets_refused [OF wf False]
    by (auto simp: snapshot_line_start_def comp_simps split: option.splits)
qed

lemma resolve_boundary_same:
  "wf_snapshot x s \<Longrightarrow> resolve_boundary x p s = (r, s') \<Longrightarrow> same_snapshot x s s'"
  by (auto simp: resolve_boundary_def dest: line_start_same
      split: if_splits option.splits sum.splits prod.splits)

lemma resolve_boundary_sound:
  assumes x: "externs_ok x" and wf: "wf_snapshot x s" and run: "resolve_boundary x p s = (Inr (k, b), s')"
  shows "is_boundary (sn_text s) p \<and> k = pos_line p - 1 \<and> b = unat (pos_byte p)"
proof (cases "pos_line p \<le> sn_line_count s")
  case True
  then obtain start where start: "snapshot_line_start x (pos_line p) s = (Inr (Some start), s')"
    "start = pos_byte p" "k = pos_line p - 1" "b = unat (pos_byte p)"
    using run by (auto simp: resolve_boundary_def split: if_splits option.splits sum.splits prod.splits)
  have line: "pos_line p \<noteq> 0" "unat (pos_line p) \<le> seg_count (sn_text s)"
    "start = of_nat (seg_off (sn_text s) (unat (pos_line p) - 1))"
    using line_start_sound [OF x wf start(1)] by auto
  have "unat start = seg_off (sn_text s) (unat (pos_line p) - 1)"
    using line(3) seg_off_le [of "sn_text s" "unat (pos_line p) - 1"] text_ok_parts [OF wf_line_count(4) [OF wf]]
      le_trans by (metis unat_of_nat_u64)
  moreover have "0 < unat (pos_line p)" using line(1) by (simp add: unat_gt_0)
  ultimately show ?thesis using start line by (auto simp: is_boundary_def boundary_at_def)
next
  case False
  note lc = wf_line_count [OF wf]
  from False run have p: "checked_add_u64 (sn_line_count s) 1 = Some (pos_line p)" "pos_byte p = sn_byte_len s"
    "k = sn_line_count s" "b = unat (pos_byte p)"
    by (auto simp: resolve_boundary_def split: if_splits option.splits)
  then have line: "unat (pos_line p) = Suc (seg_count (sn_text s))" using lc by (simp add: checked_add_u64_eq_Some)
  then have "pos_line p \<noteq> 0" by auto
  then have "pos_line p - 1 = sn_line_count s" using line lc by (simp add: word_unat_eq_iff unat_minus_one_u64)
  then show ?thesis using p line lc by (auto simp: is_boundary_def boundary_at_def)
qed

lemma resolve_boundary_no_panic: "fst (resolve_boundary x p s) \<noteq> Inl Panic"
  by (auto simp: resolve_boundary_def split: prod.split sum.split option.split)

lemma fast_validate_same:
  "wf_snapshot x s \<Longrightarrow> fast_validate x i ops s = (r, s') \<Longrightarrow> same_snapshot x s s'"
proof (induction ops arbitrary: i s r s')
  case Nil
  then show ?case by (simp add: comp_simps)
next
  case (Cons operation ops)
  obtain r1 s1 where r1: "resolve_boundary x (op_start operation) s = (r1, s1)" by fastforce
  obtain r2 s2 where r2: "resolve_boundary x (op_end operation) s1 = (r2, s2)" by fastforce
  obtain r3 s3 where r3: "fast_validate x (Suc i) ops s2 = (r3, s3)" by fastforce
  have 1: "same_snapshot x s s1" by (rule resolve_boundary_same [OF Cons.prems(1) r1])
  then have wf1: "wf_snapshot x s1" using Cons.prems(1) same_snapshotD by blast
  have 2: "same_snapshot x s1 s2" by (rule resolve_boundary_same [OF wf1 r2])
  then have wf2: "wf_snapshot x s2" using wf1 same_snapshotD by blast
  have 3: "same_snapshot x s2 s3" by (rule Cons.IH [OF wf2 r3])
  have 12: "same_snapshot x s s2" and 13: "same_snapshot x s s3" using 1 2 3 same_snapshot_trans by blast+
  have "s' \<in> {s, s1, s2, s3}"
    using Cons.prems(2)
    by (auto simp: comp_simps r1 r2 r3 split: if_splits sum.splits prod.splits)
  then show ?case using 1 12 13 by auto
qed

lemma fast_validate_sound:
  "externs_ok x \<Longrightarrow> wf_snapshot x s \<Longrightarrow> fast_validate x i ops s = (Inr vs, s') \<Longrightarrow>
    (\<forall>operation\<in>set ops. operation_ok (sn_text s) operation) \<and> vs = validated_list i ops"
proof (induction ops arbitrary: i s vs s')
  case Nil
  then show ?case by (simp add: comp_simps)
next
  case (Cons operation ops)
  from Cons.prems(3) obtain sk sb s1 ek eb s2 ws where nul: "x_memchr x NUL (op_content operation) = None"
    and r1: "resolve_boundary x (op_start operation) s = (Inr (sk, sb), s1)"
    and r2: "resolve_boundary x (op_end operation) s1 = (Inr (ek, eb), s2)"
    and le: "\<not> ek < sk" and r3: "fast_validate x (Suc i) ops s2 = (Inr ws, s')"
    and vs: "vs = \<lparr>ve_index = i, ve_start_ordinal = sk, ve_end_ordinal = ek, ve_start_byte = sb,
      ve_end_byte = eb, ve_content = op_content operation\<rparr> # ws"
    by (auto simp: comp_simps split: if_splits sum.splits prod.splits)
  have 1: "same_snapshot x s s1" by (rule resolve_boundary_same [OF Cons.prems(2) r1])
  have wf1: "wf_snapshot x s1" and t1: "sn_text s1 = sn_text s" using 1 Cons.prems(2) same_snapshotD by blast+
  have 2: "same_snapshot x s1 s2" by (rule resolve_boundary_same [OF wf1 r2])
  have wf2: "wf_snapshot x s2" and t2: "sn_text s2 = sn_text s" using 2 wf1 t1 same_snapshotD by metis+
  note start = resolve_boundary_sound [OF Cons.prems(1,2) r1]
    and finish = resolve_boundary_sound [OF Cons.prems(1) wf1 r2, unfolded t1]
  have "NUL \<notin> set (op_content operation)" using nul by (auto simp: externs_okD(1) [OF Cons.prems(1)])
  moreover have "pos_line (op_start operation) \<le> pos_line (op_end operation)"
    using le start finish line_pred_le [of "sn_text s" "op_start operation" "op_end operation"] by (simp add: not_less)
  ultimately have "operation_ok (sn_text s) operation" using start finish by (simp add: operation_ok_def)
  moreover have "vs = validated_of i operation # ws" using vs start finish by (simp add: validated_of_def)
  ultimately show ?case using Cons.IH [OF Cons.prems(1) wf2 r3] t2 by simp
qed

lemma fast_validate_no_panic: "fst (fast_validate x i ops s) \<noteq> Inl Panic"
proof (induction ops arbitrary: i s)
  case (Cons operation ops)
  then show ?case
    using resolve_boundary_no_panic [of x "op_start operation" s] resolve_boundary_no_panic [of x "op_end operation"]
    by (auto simp: comp_simps split: prod.splits sum.splits) (metis fst_conv)+
qed (simp add: comp_simps)

section \<open>The rest of the fast path is the rest of the reference model\<close>

lemma fast_removed_eq: "fast_removed acc vs = map_fault (\<lambda>_. ()) (sum_removed acc vs)"
proof (induction vs arbitrary: acc)
  case (Cons v vs)
  show ?case
    by (cases "checked_sub_usize (ve_end_byte v) (ve_start_byte v)")
      (auto simp: Cons.IH checked_add_usize_def)
qed simp

lemma fast_added_eq: "fast_added acc vs = map_fault (\<lambda>_. ()) (lift_err (sum_added acc vs))"
  by (induction vs arbitrary: acc) (auto simp: checked_add_usize_def)

lemma fast_splice_eq: "fast_splice source cursor out vs = map_fault (\<lambda>_. ()) (splice_loop source cursor out vs)"
proof (induction vs arbitrary: cursor out)
  case Nil
  then show ?case by (cases "slice_of source cursor (length source)") simp_all
next
  case (Cons v vs)
  show ?case by (cases "slice_of source cursor (ve_start_byte v)") (simp_all add: Cons.IH)
qed

lemma validate_final_eq:
  "ok_or (Err ()) (Option.bind (u64_of_usize n) (\<lambda>n. ok_opt (validate_file_size n))) =
    (if n \<le> max_file_len then Inr () else Inl (Err ()))"
proof (cases "n \<le> usize_max")
  case True
  then show ?thesis
    by (simp add: u64_of_usize_def validate_file_size_def above_max_file_bytes)
next
  case False
  then have "\<not> n \<le> max_file_len" using max_file_len_le by blast
  with False show ?thesis by (simp add: u64_of_usize_def)
qed

definition reference_finish :: "bytes \<Rightarrow> validated_edit list \<Rightarrow> contract_error fault + bytes" where
  "reference_finish source validated =
     (case first_overlap validated of
       Some (first, second) \<Rightarrow> Inl (Err (OverlappingEdits first second))
     | None \<Rightarrow>
         rbind (sum_removed 0 validated) (\<lambda>removed.
         rbind (lift_err (sum_added 0 validated)) (\<lambda>added.
         rbind (ok_or (Err OutputLengthOverflow)
                 (Option.bind (checked_sub_usize (length source) removed)
                   (\<lambda>len. checked_add_usize len added))) (\<lambda>final_length.
         rbind (lift_err (validate_len final_length)) (\<lambda>_.
         splice_loop source 0 [] (sort_key edit_sort_key validated))))))"

lemma fast_finish_eq: "fast_finish source vs = map_fault (\<lambda>_. ()) (reference_finish source vs)"
proof (cases "first_overlap vs")
  case None
  have final: "rbind (ok_or (Err ()) (Option.bind (u64_of_usize n) (\<lambda>n. ok_opt (validate_file_size n)))) (\<lambda>_. map_fault (\<lambda>_. ()) m) =
      map_fault (\<lambda>_. ()) (rbind (lift_err (validate_len n)) (\<lambda>_. m))" for n and m :: "contract_error fault + bytes"
    unfolding validate_final_eq by (simp add: validate_len_cases)
  have bind_fault: "rbind (map_fault g m) (\<lambda>y. map_fault g (f y)) = map_fault g (rbind m f)"
    for g :: "contract_error \<Rightarrow> unit" and m :: "contract_error fault + nat" and f :: "nat \<Rightarrow> contract_error fault + bytes"
    by (cases m) (auto simp: map_fault_def split: fault.split)
  have len: "ok_or (Err ()) m = map_fault (\<lambda>_. ()) (ok_or (Err OutputLengthOverflow) m)" for m :: "nat option"
    by (cases m) simp_all
  have no: "\<not> any_overlap vs" using None any_overlap_iff by simp
  show ?thesis
    unfolding fast_finish_def reference_finish_def None option.case if_not_P [OF no]
    unfolding fast_removed_eq fast_added_eq fast_splice_eq len final bind_fault ..
next
  case (Some ij)
  then show ?thesis using any_overlap_iff [of vs] by (cases ij) (simp add: fast_finish_def reference_finish_def)
qed

lemma apply_reference_finish:
  assumes "validate_edit_count (length ops) = Inr ()" "text_ok source"
    and "\<forall>operation\<in>set ops. operation_ok source operation"
  shows "apply_reference_edits source ops = reference_finish source (validated_list 0 ops)"
proof -
  have "validate_operations source (reference_line_starts source) 0 ops = Inr (validated_list 0 ops)"
    using assms validate_operations_eq_Inr by blast
  then show ?thesis
    using assms by (simp add: apply_reference_edits_def reference_finish_def Let_def)
qed

lemma try_fast_sound:
  assumes x: "externs_ok x" and wf: "wf_snapshot x s" and run: "try_fast x req s = (r, s')"
  shows "same_snapshot x s s' \<and> r \<noteq> Inl Panic \<and>
    (\<forall>out. r = Inr out \<longrightarrow> apply_versioned_reference_edits (sn_text s) (sn_id s) req = Inr out)"
proof (cases "edit_request_validate req = Inr () \<and> er_snapshot req = sn_id s")
  case False
  then show ?thesis
    using run by (cases "edit_request_validate req") (auto simp: try_fast_def comp_simps split: if_splits)
next
  case True
  obtain v s1 where v: "fast_validate x 0 (er_edits req) s = (v, s1)" by fastforce
  have same: "same_snapshot x s s1" by (rule fast_validate_same [OF wf v])
  have run': "r = (case v of Inl e \<Rightarrow> Inl e | Inr vs \<Rightarrow> fast_finish (sn_text s) vs)" "s' = s1"
    using run True v by (auto simp: try_fast_def comp_simps split: sum.splits)
  show ?thesis
  proof (cases v)
    case (Inl e)
    then show ?thesis using run' same v fast_validate_no_panic [of x 0 "er_edits req" s] by auto
  next
    case (Inr vs)
    have ops: "\<forall>operation\<in>set (er_edits req). operation_ok (sn_text s) operation" and vs: "vs = validated_list 0 (er_edits req)"
      using fast_validate_sound [OF x wf] v Inr by blast+
    have valid: "edit_request_validate req = Inr ()" and src: "text_ok (sn_text s)"
      using True wf by (simp_all add: wf_snapshot_def)
    have count: "validate_edit_count (length (er_edits req)) = Inr ()"
      using valid by (simp add: edit_request_validate_ok validate_edit_count_eq_Inr)
    have fin: "apply_reference_edits (sn_text s) (er_edits req) = reference_finish (sn_text s) vs"
      unfolding vs by (rule apply_reference_finish [OF count src ops])
    have r: "r = map_fault (\<lambda>_. ()) (apply_reference_edits (sn_text s) (er_edits req))"
      using run' Inr fin by (simp add: fast_finish_eq)
    moreover have "apply_versioned_reference_edits (sn_text s) (sn_id s) req =
        as_protocol_error (apply_reference_edits (sn_text s) (er_edits req))"
      using True src by (simp add: versioned_edit_cases)
    ultimately show ?thesis
      using run' same apply_reference_edits_no_panic [of "sn_text s" "er_edits req"]
      by (auto simp: map_fault_eq_Panic map_fault_eq_Inr)
  qed
qed

lemma apply_edits_fast_run:
  assumes x: "externs_ok x" and wf: "wf_snapshot x s"
  shows "\<exists>s'. same_snapshot x s s' \<and>
    apply_edits_fast x req s = (apply_versioned_reference_edits (sn_text s) (sn_id s) req, s')"
proof -
  obtain r s' where run: "try_fast x req s = (r, s')" by fastforce
  have sound: "same_snapshot x s s'" "r \<noteq> Inl Panic"
    "\<forall>out. r = Inr out \<longrightarrow> apply_versioned_reference_edits (sn_text s) (sn_id s) req = Inr out"
    using try_fast_sound [OF x wf run] by auto
  have "sn_text s' = sn_text s" "sn_id s' = sn_id s" using same_snapshotD [OF sound(1)] by auto
  then show ?thesis
    using run sound by (cases r rule: sum.exhaust) (auto simp: apply_edits_fast_def split: fault.splits)
qed

section \<open>Properties\<close>

text \<open>
  Property C2.  The optimised engine returns, for every request, snapshot and allocator, exactly
  what the reference model returns on the snapshot's bytes and identity: the same text, the same
  structured error, and no panic of its own.
\<close>

theorem fast_engine_is_reference:
  assumes "externs_ok x" and "wf_snapshot x s"
  shows "fst (apply_edits_fast x req s) = apply_versioned_reference_edits (sn_text s) (sn_id s) req"
  using apply_edits_fast_run [OF assms, of req] by auto

theorem fast_engine_is_reference_witness:
  "fst (apply_edits_fast plain_externs
      \<lparr>er_path = ''f'', er_snapshot = SnapshotId 7, er_edits = [Replace (Position 1 0) (Position 2 2) ''x'']\<rparr>
      (fresh_snapshot plain_externs (''a'' @ [LF] @ ''b'') None)) =
    Inl (Err (stale_error ''f'' (''a'' @ [LF] @ ''b'') (SnapshotId 7) (SnapshotId 3) 1))"
proof -
  let ?t = "''a'' @ [LF] @ ''b''" and ?s = "fresh_snapshot plain_externs (''a'' @ [LF] @ ''b'') None"
  let ?req = "\<lparr>er_path = ''f'', er_snapshot = SnapshotId 7,
      er_edits = [Replace (Position 1 0) (Position 2 2) ''x'']\<rparr>"
  have t: "text_ok ?t" by (simp add: text_ok_def max_file_len_def utf8_ok_ascii code_of_def)
  have "edit_request_validate ?req = Inr ()" by (simp add: edit_request_validate_ok)
  moreover have "content_id plain_externs ?t = SnapshotId 3" by (simp add: content_id_def plain_externs_def)
  ultimately show ?thesis
    using fast_engine_is_reference [OF plain_externs_ok wf_fresh_snapshot [OF t, where stamp = None], of ?req] t
    by (simp add: versioned_edit_cases edit_center_def)
qed

end
