(* ===== verification/Page_Render.thy ===== *)
theory Page_Render
  imports Edit_Engine
begin

text \<open>
  Rendering of one read page (\<open>src/render.rs\<close>): header, lines, and the cursor footer when lines
  remain.  Every index and slice that can panic is a branch; the capacity hint given to the
  output string has no observable effect and keeps only its fallible calls.
\<close>

section \<open>The code\<close>

text \<open>\<open>?\<close> on a snapshot operation inside a function whose other steps may panic.\<close>

definition try_snapshot :: "(snapshot, snapshot_error, 'a) comp \<Rightarrow> (snapshot, snapshot_error fault, 'a) comp" where
  "try_snapshot m = with_err Err m"

definition display_line_content :: "bytes \<Rightarrow> nat \<Rightarrow> nat \<Rightarrow> 'e fault + bytes" where
  "display_line_content text start raw_end =
     rbind (strip_terminator text start raw_end) (\<lambda>content_end. expect (str_get text start content_end))"

definition address_invariant :: "snapshot_error fault" where
  "address_invariant = Err (SnOffsets AddressInvariant)"

text \<open>One round of the page loop.\<close>

definition render_page_line :: "externs \<Rightarrow> u64 \<Rightarrow> string \<Rightarrow> u64 \<Rightarrow> (snapshot, snapshot_error fault, string) comp" where
  "render_page_line x line_count acc line =
     bind (try_snapshot (snapshot_line_start x line)) (\<lambda>start_opt.
     bind (lift (ok_or address_invariant start_opt)) (\<lambda>start_byte.
     bind (if line < line_count
           then bind (try_snapshot (snapshot_line_start x (line + 1))) (\<lambda>end_opt.
             lift (ok_or address_invariant end_opt))
           else (\<lambda>s. (Inr (sn_byte_len s), s))) (\<lambda>end_byte.
     bind (lift (ok_or address_invariant (usize_of_u64 start_byte))) (\<lambda>start_u.
     bind (lift (ok_or address_invariant (usize_of_u64 end_byte))) (\<lambda>end_u.
     bind (\<lambda>s. (display_line_content (sn_text s) start_u end_u, s)) (\<lambda>content.
     bind (lift (ok_or address_invariant (ok_opt (position_new line start_byte)))) (\<lambda>position.
     ret (acc @ [LF] @ render_read_line position content))))))))"

fun render_page_lines :: "externs \<Rightarrow> u64 \<Rightarrow> string \<Rightarrow> u64 list \<Rightarrow> (snapshot, snapshot_error fault, string) comp" where
  "render_page_lines x line_count acc [] = ret acc"
| "render_page_lines x line_count acc (line # lines) =
     bind (render_page_line x line_count acc line) (\<lambda>acc'. render_page_lines x line_count acc' lines)"

text \<open>The calls of the capacity estimate.\<close>

definition probe_page_bounds :: "externs \<Rightarrow> u64 \<Rightarrow> u64 \<Rightarrow> u64 \<Rightarrow> (snapshot, snapshot_error fault, unit) comp" where
  "probe_page_bounds x line_count start_line end_line =
     bind (try_snapshot (snapshot_line_start x start_line)) (\<lambda>first.
     bind (try_snapshot (snapshot_line_start x end_line)) (\<lambda>last_start.
     if first \<noteq> None \<and> last_start \<noteq> None \<and> end_line < line_count
     then bind (try_snapshot (snapshot_line_start x (end_line + 1))) (\<lambda>_. ret ())
     else ret ()))"

definition page_footer :: "externs \<Rightarrow> u64 \<Rightarrow> u64 \<Rightarrow> string \<Rightarrow> (snapshot, snapshot_error fault, string) comp" where
  "page_footer x line_count end_line acc =
     (if end_line < line_count then
        bind (try_snapshot (snapshot_line_start x (end_line + 1))) (\<lambda>next_opt.
        bind (lift (ok_or address_invariant next_opt)) (\<lambda>next_byte.
        bind (lift (ok_or address_invariant (ok_opt (position_new (end_line + 1) next_byte)))) (\<lambda>next s.
        (Inr (acc @ [LF] @ page_cursor_footer \<lparr>cur_snapshot = sn_id s, cur_next = next\<rparr>), s))))
      else ret acc)"

definition render_snapshot_page ::
    "externs \<Rightarrow> string \<Rightarrow> u64 \<Rightarrow> u16 \<Rightarrow> (snapshot, snapshot_error fault, string) comp" where
  "render_snapshot_page x path start_line limit = (\<lambda>s.
     let line_count = sn_line_count s in
     bind (lift (map_err (\<lambda>e. Err (SnContract e)) (snapshot_header_new path (sn_id s) line_count (sn_byte_len s)))) (\<lambda>header.
     bind (try_snapshot (materialize_offsets x)) (\<lambda>_.
     let start_line = max start_line 1; head = snapshot_header_render (x_json x) header in
     if start_line > line_count then
       ret (if line_count = 1 \<and> sn_byte_len s = 0 \<and> start_line = 1
            then head @ [LF] @ render_read_line (Position 1 0) [] else head)
     else
       let limit = of_nat (unat (max limit 1));
           end_line_inclusive = min (sat_sub_u64 (sat_add_u64 start_line limit) 1) line_count in
       bind (probe_page_bounds x line_count start_line end_line_inclusive) (\<lambda>_.
       bind (render_page_lines x line_count head (line_range start_line end_line_inclusive)) (\<lambda>body.
       page_footer x line_count end_line_inclusive body)))) s)"

section \<open>What a page contains\<close>

definition page_line :: "bytes \<Rightarrow> nat \<Rightarrow> string" where
  "page_line text k = [LF] @ render_read_line (line_position text k) (text_line text k)"

definition page_end :: "nat \<Rightarrow> nat \<Rightarrow> nat \<Rightarrow> nat" where
  "page_end n lo limit = min n (lo + max 1 limit)"

text \<open>The page of a text that starts at line index \<open>lo\<close>.\<close>

definition page_text :: "externs \<Rightarrow> string \<Rightarrow> bytes \<Rightarrow> nat \<Rightarrow> nat \<Rightarrow> string" where
  "page_text x path text lo limit =
     (let n = seg_count text; hi = page_end n lo limit; id = content_id x text in
      snapshot_header_render (x_json x) (text_header path id text) @
      concat (map (page_line text) [lo..<hi]) @
      (if hi < n then [LF] @ page_cursor_footer \<lparr>cur_snapshot = id, cur_next = line_position text hi\<rparr> else []))"

lemma try_snapshot_run: "m s = (Inr v, s') \<Longrightarrow> try_snapshot m s = (Inr v, s')"
  by (simp add: try_snapshot_def comp_simps)

lemma line_start_at:
  assumes "externs_ok x" "wf_snapshot x s" "offsets_fit x s" "k < seg_count (sn_text s)"
  shows "try_snapshot (snapshot_line_start x (of_nat (Suc k))) s =
    (Inr (Some (of_nat (seg_off (sn_text s) k))), materialized x s)"
proof -
  have "unat (of_nat (Suc k) :: u64) = Suc k"
    using assms(4) wf_line_count(2) [OF assms(2)] by (intro unat_of_nat_u64) linarith
  moreover from this have "(of_nat (Suc k) :: u64) \<noteq> 0" by (metis nat.simps(3) unsigned_0)
  ultimately have "snapshot_line_start x (of_nat (Suc k)) s =
      (Inr (Some (of_nat (seg_off (sn_text s) k))), materialized x s)"
    using snapshot_line_start_run [OF assms(1-3), of "of_nat (Suc k)"] assms(4)
    by (simp only: if_False diff_Suc_1 Suc_leI if_True)
  then show ?thesis by (rule try_snapshot_run)
qed

lemma strip_at_segment:
  assumes k: "k < seg_count text"
  shows "strip_terminator text (seg_off text k) (seg_off text (Suc k)) =
    Inr (seg_off text k + length (text_line text k))"
proof -
  obtain rest where split: "text = take (seg_off text k) text @ segments text ! k @ rest"
    using split_at_segment [OF k] by blast
  show ?thesis
    using strip_terminator_segment [OF split] k by (simp add: min_absorb2 seg_off_Suc text_line_def)
qed

lemma display_line_segment:
  "text_ok text \<Longrightarrow> k < seg_count text \<Longrightarrow>
    display_line_content text (seg_off text k) (seg_off text (Suc k)) = Inr (text_line text k)"
  by (simp add: display_line_content_def strip_at_segment text_line_slice)

lemma unat_eq_of_nat: "unat (w :: u64) = n \<Longrightarrow> w = of_nat n"
  using unat_le_usize_max [of w] by (auto simp: word_unat_eq_iff)

text \<open>The state of the page loop: a well-formed snapshot whose offsets are already built.\<close>

definition page_state :: "externs \<Rightarrow> snapshot \<Rightarrow> bool" where
  "page_state x m \<longleftrightarrow> externs_ok x \<and> wf_snapshot x m \<and> offsets_fit x m \<and> materialized x m = m"

lemma page_state_materialized:
  "externs_ok x \<Longrightarrow> wf_snapshot x s \<Longrightarrow> offsets_fit x s \<Longrightarrow> page_state x (materialized x s)"
  by (simp add: page_state_def)

lemma page_line_start:
  "page_state x m \<Longrightarrow> k < seg_count (sn_text m) \<Longrightarrow>
    try_snapshot (snapshot_line_start x (of_nat (Suc k))) m = (Inr (Some (of_nat (seg_off (sn_text m) k))), m)"
  using line_start_at [of x m k] by (simp add: page_state_def del: of_nat_Suc)

lemma word_Suc_lt_count:
  assumes "wf_snapshot x m" "k < seg_count (sn_text m)"
  shows "(of_nat (Suc k) < sn_line_count m) = (Suc k < seg_count (sn_text m))"
    and "unat (of_nat (Suc k) :: u64) = Suc k"
proof -
  show u: "unat (of_nat (Suc k) :: u64) = Suc k"
    using assms(2) wf_line_count(2) [OF assms(1)] by (intro unat_of_nat_u64) linarith
  show "(of_nat (Suc k) < sn_line_count m) = (Suc k < seg_count (sn_text m))"
    unfolding word_less_nat_alt u wf_line_count(1) [OF assms(1)] ..
qed

lemma next_line_word: "(of_nat (Suc k) :: u64) + 1 = of_nat (Suc (Suc k))"
  by simp

lemma unat_seg_off:
  assumes "wf_snapshot x m"
  shows "unat (of_nat (seg_off (sn_text m) k) :: u64) = seg_off (sn_text m) k"
  using seg_off_le [of "sn_text m" k] text_ok_parts [OF wf_line_count(4) [OF assms]]
  by (intro unat_of_nat_u64) linarith

lemma render_page_line_run:
  assumes m: "page_state x m" and k: "k < seg_count (sn_text m)"
  shows "render_page_line x (sn_line_count m) acc (of_nat (Suc k)) m = (Inr (acc @ page_line (sn_text m) k), m)"
proof -
  have wf: "wf_snapshot x m" using m by (simp add: page_state_def)
  note lt = word_Suc_lt_count [OF wf k]
  have nz: "(of_nat (Suc k) :: u64) \<noteq> 0" using lt(2) by (metis nat.simps(3) unsigned_0)
  have "(if of_nat (Suc k) < sn_line_count m
         then bind (try_snapshot (snapshot_line_start x (of_nat (Suc k) + 1))) (\<lambda>end_opt.
           lift (ok_or address_invariant end_opt))
         else (\<lambda>s. (Inr (sn_byte_len s), s))) m = (Inr (of_nat (seg_off (sn_text m) (Suc k))), m)"
  proof (cases "Suc k < seg_count (sn_text m)")
    case True
    then show ?thesis
      unfolding lt(1) if_P [OF True] next_line_word by (simp add: comp_simps page_line_start [OF m] del: of_nat_Suc)
  next
    case False
    then show ?thesis unfolding lt(1) if_not_P [OF False] using wf by (simp add: wf_snapshot_def)
  qed
  then show ?thesis
    unfolding render_page_line_def bind_run page_line_start [OF m k] prod.case sum.case comp_apply ok_or_simps
      usize_of_u64_Some unat_seg_off [OF wf] display_line_segment [OF wf_line_count(4) [OF wf] k]
      position_new_def if_not_P [OF nz] ok_opt_simps
    by (simp add: page_line_def line_position_def comp_simps display_line_segment [OF wf_line_count(4) [OF wf] k]
        unat_seg_off [OF wf] position_new_def nz del: of_nat_Suc)
qed

lemma render_page_lines_run:
  assumes m: "page_state x m" and "\<forall>k\<in>set ks. k < seg_count (sn_text m)"
  shows "render_page_lines x (sn_line_count m) acc (map (\<lambda>k. of_nat (Suc k)) ks) m =
    (Inr (acc @ concat (map (page_line (sn_text m)) ks)), m)"
  using assms(2)
proof (induction ks arbitrary: acc)
  case (Cons k ks)
  then have "k < seg_count (sn_text m)" by simp
  from render_page_line_run [OF m this] Cons show ?case
    by (simp add: comp_simps del: of_nat_Suc)
qed (simp add: comp_simps)

lemma page_footer_run:
  assumes m: "page_state x m" and hi: "0 < hi" "hi \<le> seg_count (sn_text m)"
  shows "page_footer x (sn_line_count m) (of_nat hi) acc m =
    (Inr (acc @ (if hi < seg_count (sn_text m)
       then [LF] @ page_cursor_footer \<lparr>cur_snapshot = sn_id m, cur_next = line_position (sn_text m) hi\<rparr> else [])), m)"
proof -
  have wf: "wf_snapshot x m" using m by (simp add: page_state_def)
  obtain j where j: "hi = Suc j" using hi by (cases hi) auto
  then have lt: "(of_nat hi < sn_line_count m) = (hi < seg_count (sn_text m))"
    using word_Suc_lt_count(1) [OF wf, of j] hi by simp
  show ?thesis
  proof (cases "hi < seg_count (sn_text m)")
    case True
    have nz: "(of_nat (Suc hi) :: u64) \<noteq> 0"
      using word_Suc_lt_count(2) [OF wf True] by (metis nat.simps(3) unsigned_0)
    have "of_nat hi + (1 :: u64) = of_nat (Suc hi)" by simp
    then show ?thesis
      using True lt page_line_start [OF m True]
      by (simp add: page_footer_def comp_simps position_new_def nz line_position_def del: of_nat_Suc)
  next
    case False
    then show ?thesis using lt by (simp add: page_footer_def comp_simps)
  qed
qed

lemma probe_run:
  assumes m: "page_state x m" and lo: "lo < hi" "hi \<le> seg_count (sn_text m)"
  shows "probe_page_bounds x (sn_line_count m) (of_nat (Suc lo)) (of_nat hi) m = (Inr (), m)"
proof -
  have wf: "wf_snapshot x m" using m by (simp add: page_state_def)
  obtain j where j: "hi = Suc j" using lo by (cases hi) auto
  then have lt: "(of_nat hi < sn_line_count m) = (hi < seg_count (sn_text m))"
    using word_Suc_lt_count(1) [OF wf, of j] lo by simp
  have 1: "try_snapshot (snapshot_line_start x (of_nat (Suc lo))) m = (Inr (Some (of_nat (seg_off (sn_text m) lo))), m)"
    and 2: "try_snapshot (snapshot_line_start x (of_nat hi)) m = (Inr (Some (of_nat (seg_off (sn_text m) j))), m)"
    using page_line_start [OF m, of lo] page_line_start [OF m, of j] lo j by simp_all
  have 3: "hi < seg_count (sn_text m) \<Longrightarrow> try_snapshot (snapshot_line_start x (of_nat hi + 1)) m =
      (Inr (Some (of_nat (seg_off (sn_text m) hi))), m)"
    using page_line_start [OF m, of hi] by (simp add: add.commute)
  show ?thesis
    using 3 by (auto simp: probe_page_bounds_def comp_simps 1 2 lt simp del: of_nat_Suc)
qed

lemma header_of_snapshot:
  assumes wf: "wf_snapshot x s"
  shows "snapshot_header_new path (sn_id s) (sn_line_count s) (sn_byte_len s) =
    Inr (text_header path (sn_id s) (sn_text s))"
proof -
  note lc = wf_line_count [OF wf]
  have "sn_line_count s \<noteq> 0" using lc(1) seg_count_pos [of "sn_text s"] by (metis less_irrefl unsigned_0)
  moreover have "validate_file_size (sn_byte_len s) = Inr ()"
    using lc text_ok_parts [OF lc(4)] by (simp only: validate_file_size_eq_Inr)
  ultimately show ?thesis
    using wf by (simp add: snapshot_header_new_def text_header_def wf_snapshot_def del: validate_file_size_eq_Inr)
qed

text \<open>The page that starts at an existing line.\<close>

lemma render_snapshot_page_run:
  assumes x: "externs_ok x" and wf: "wf_snapshot x s" and fit: "offsets_fit x s"
    and start: "1 \<le> unat start_line" "unat start_line \<le> seg_count (sn_text s)"
  shows "render_snapshot_page x path start_line limit s =
    (Inr (page_text x path (sn_text s) (unat start_line - 1) (unat limit)), materialized x s)"
proof -
  let ?m = "materialized x s" and ?n = "seg_count (sn_text s)"
  have m: "page_state x ?m" by (rule page_state_materialized [OF x wf fit])
  note lc = wf_line_count [OF wf]
  obtain offsets where "snapshot_offsets x s = (Inr offsets, ?m)" using snapshot_offsets_ok [OF x wf fit] by blast
  then have mat: "try_snapshot (materialize_offsets x) s = (Inr (offsets_kind offsets), ?m)"
    by (simp add: try_snapshot_def materialize_offsets_def comp_simps)
  define lo where "lo = unat start_line - 1"
  have lo: "unat start_line = Suc lo" "lo < ?n" using start by (simp_all add: lo_def)
  then have start_word: "start_line = of_nat (Suc lo)"
    by (metis unat_eq_of_nat)
  have max1: "max start_line 1 = start_line" using start by (auto simp: max_def word_le_nat_alt dest: unat_eq_of_nat)
  define lim :: u64 where "lim = of_nat (unat (max limit 1))"
  have lim16: "unat (max limit 1) = max 1 (unat limit)" by (simp add: unat_max max.commute)
  have "unat (max limit 1) < 2 ^ 16" using unsigned_less [of "max limit 1"] by simp
  then have lim: "unat lim = max 1 (unat limit)" "unat lim < 2 ^ 16"
    unfolding lim_def lim16 by (simp_all add: usize_max_def)
  define end_line where "end_line = min (sat_sub_u64 (sat_add_u64 start_line lim) 1) (sn_line_count s)"
  define hi where "hi = page_end ?n lo (unat limit)"
  have hi: "lo < hi" "hi \<le> ?n" using lo by (simp_all add: hi_def page_end_def)
  have "unat end_line = hi"
    using lc(1,2) lo lim unfolding end_line_def unat_min unat_sat_sub_u64 unat_sat_add_u64 hi_def page_end_def
    by simp
  then have end_word: "end_line = of_nat hi" by (metis unat_eq_of_nat)
  have range: "line_range start_line end_line = map (\<lambda>k. of_nat (Suc k)) [lo..<hi]"
    using line_range_Suc [of start_line end_line] lo \<open>unat end_line = hi\<close> by simp
  have not_past: "\<not> start_line > sn_line_count s" using start lc by (simp add: word_less_nat_alt)
  have lines: "\<forall>k\<in>set [lo..<hi]. k < seg_count (sn_text ?m)" using hi by simp
  have body: "render_page_lines x (sn_line_count s) acc (line_range start_line end_line) ?m =
      (Inr (acc @ concat (map (page_line (sn_text s)) [lo..<hi])), ?m)" for acc
    using render_page_lines_run [OF m lines] by (simp only: range materialized_simps)
  have probe: "probe_page_bounds x (sn_line_count s) start_line end_line ?m = (Inr (), ?m)"
    using probe_run [OF m, of lo hi] hi by (simp only: start_word end_word materialized_simps)
  have footer: "page_footer x (sn_line_count s) end_line acc ?m = (Inr (acc @ (if hi < ?n
      then [LF] @ page_cursor_footer \<lparr>cur_snapshot = sn_id s, cur_next = line_position (sn_text s) hi\<rparr> else [])), ?m)" for acc
    using page_footer_run [OF m, of hi] hi by (simp only: end_word materialized_simps)
  have id: "sn_id s = content_id x (sn_text s)" using wf by (simp add: wf_snapshot_def)
  show ?thesis
    unfolding render_snapshot_page_def Let_def max1 if_not_P [OF not_past]
      header_of_snapshot [OF wf] map_err_simps bind_lift_Inr
    unfolding bind_run mat prod.case sum.case lim_def [symmetric] end_line_def [symmetric] probe body footer
    by (simp add: page_text_def Let_def hi_def lo_def id)
qed

text \<open>Beyond the last line a page is its header.\<close>

lemma render_snapshot_page_past:
  assumes x: "externs_ok x" and wf: "wf_snapshot x s" and fit: "offsets_fit x s"
    and past: "seg_count (sn_text s) < unat start_line"
  shows "fst (render_snapshot_page x path start_line limit s) =
    Inr (snapshot_header_render (x_json x) (text_header path (sn_id s) (sn_text s)))"
proof -
  obtain offsets where "snapshot_offsets x s = (Inr offsets, materialized x s)"
    using snapshot_offsets_ok [OF x wf fit] by blast
  then have mat: "try_snapshot (materialize_offsets x) s = (Inr (offsets_kind offsets), materialized x s)"
    by (simp add: try_snapshot_def materialize_offsets_def comp_simps)
  note lc = wf_line_count [OF wf]
  have "1 < unat start_line" using past seg_count_pos [of "sn_text s"] by linarith
  then have ne: "max start_line 1 = start_line" "start_line \<noteq> 1" by (auto simp: max_def word_le_nat_alt)
  have gt: "start_line > sn_line_count s" using past lc by (simp add: word_less_nat_alt)
  show ?thesis
    unfolding render_snapshot_page_def Let_def ne(1) if_P [OF gt] header_of_snapshot [OF wf] map_err_simps bind_lift_Inr
    unfolding bind_run mat prod.case sum.case using ne(2) by (simp add: comp_simps)
qed

lemma render_snapshot_page_unfit:
  assumes wf: "wf_snapshot x s" and unfit: "\<not> offsets_fit x s"
  shows "fst (render_snapshot_page x path start_line limit s) = Inl (Err (SnOffsets (Capacity (sn_line_count s))))"
  using snapshot_offsets_refused [OF wf unfit]
  by (simp add: render_snapshot_page_def header_of_snapshot [OF wf] try_snapshot_def materialize_offsets_def comp_simps Let_def)

section \<open>Following the cursors\<close>

text \<open>The first lines of the pages a client sees that starts at \<open>lo\<close> and follows the cursors.\<close>

function page_starts :: "nat \<Rightarrow> nat \<Rightarrow> nat \<Rightarrow> nat list" where
  "page_starts n limit lo = (if lo < n then lo # page_starts n limit (page_end n lo limit) else [])"
  by pat_completeness auto

termination by (relation "measure (\<lambda>(n, limit, lo). n - lo)") (auto simp: page_end_def)

declare page_starts.simps [simp del]

lemma page_starts_less: "lo' \<in> set (page_starts n limit lo) \<Longrightarrow> lo' < n"
proof (induction n limit lo rule: page_starts.induct)
  case (1 n limit lo)
  then show ?case using page_starts.simps [of n limit lo] by (cases "lo < n") auto
qed

lemma page_starts_cover:
  "lo \<le> n \<Longrightarrow> concat (map (\<lambda>lo. [lo..<page_end n lo limit]) (page_starts n limit lo)) = [lo..<n]"
proof (induction n limit lo rule: page_starts.induct)
  case (1 n limit lo)
  show ?case
  proof (cases "lo < n")
    case True
    let ?hi = "page_end n lo limit"
    have hi: "lo \<le> ?hi" "?hi \<le> n" using True by (auto simp: page_end_def)
    have "concat (map (\<lambda>lo. [lo..<page_end n lo limit]) (page_starts n limit lo)) = [lo..<?hi] @ [?hi..<n]"
      using 1(1) [OF True hi(2)] page_starts.simps [of n limit lo] True by simp
    then show ?thesis using upt_split [OF hi] by simp
  next
    case False
    then show ?thesis using 1(2) page_starts.simps [of n limit lo] by simp
  qed
qed

lemma line_position_boundary:
  assumes wf: "wf_snapshot x s" and k: "k < seg_count (sn_text s)"
  shows "is_boundary (sn_text s) (line_position (sn_text s) k)"
  using word_Suc_lt_count(2) [OF wf k] unat_seg_off [OF wf, of k] k
  by (simp add: is_boundary_def boundary_at_def line_position_def del: of_nat_Suc)

section \<open>Properties\<close>

text \<open>
  Property C14.  A page that starts at an existing line is the header, then every line of the page
  with its token and its content without the terminator, then the cursor of the first line that
  is left, if one is.  In particular no slice of the renderer panics.
\<close>

theorem page_exact:
  assumes "externs_ok x" and "wf_snapshot x s" and "offsets_fit x s"
    and "1 \<le> unat start_line" and "unat start_line \<le> seg_count (sn_text s)"
  shows "fst (render_snapshot_page x path start_line limit s) =
    Inr (page_text x path (sn_text s) (unat start_line - 1) (unat limit))"
  using render_snapshot_page_run [OF assms, of path limit] by simp

theorem page_exact_witness:
  "fst (render_snapshot_page plain_externs ''f'' 2 1 (fresh_snapshot plain_externs (''a'' @ [LF] @ ''b'') None)) =
    Inr (page_text plain_externs ''f'' (''a'' @ [LF] @ ''b'') 1 1)"
proof -
  let ?t = "''a'' @ [LF] @ ''b''" and ?s = "fresh_snapshot plain_externs (''a'' @ [LF] @ ''b'') None"
  have "text_ok ?t" by (simp add: text_ok_def max_file_len_def utf8_ok_ascii code_of_def)
  then have "wf_snapshot plain_externs ?s" by simp
  moreover have "offsets_fit plain_externs ?s" by (simp add: offsets_fit_def plain_externs_def)
  ultimately show ?thesis
    using page_exact [of plain_externs ?s 2 "''f''" 1] by (simp add: seg_count_def)
qed

text \<open>
  Property C35.  A client that reads the first page and follows every cursor sees each line of
  the file exactly once and in order; every page renders, and every cursor it is handed is a
  boundary of the snapshot that starts the next page.
\<close>

theorem cursors_cover_file:
  assumes "externs_ok x" and "wf_snapshot x s" and "offsets_fit x s"
  defines "n \<equiv> seg_count (sn_text s)"
  shows "concat (map (\<lambda>lo. [lo..<page_end n lo (unat limit)]) (page_starts n (unat limit) 0)) = [0..<n] \<and>
    list_all (\<lambda>lo.
      fst (render_snapshot_page x path (of_nat (Suc lo)) limit s) = Inr (page_text x path (sn_text s) lo (unat limit)) \<and>
      is_boundary (sn_text s) (line_position (sn_text s) lo)) (page_starts n (unat limit) 0)"
proof
  show "concat (map (\<lambda>lo. [lo..<page_end n lo (unat limit)]) (page_starts n (unat limit) 0)) = [0..<n]"
    by (rule page_starts_cover) simp
  have "fst (render_snapshot_page x path (of_nat (Suc lo)) limit s) = Inr (page_text x path (sn_text s) lo (unat limit)) \<and>
      is_boundary (sn_text s) (line_position (sn_text s) lo)" if "lo < n" for lo
  proof -
    have "unat (of_nat (Suc lo) :: u64) = Suc lo"
      using word_Suc_lt_count(2) [OF assms(2)] that unfolding n_def by blast
    then show ?thesis
      using render_snapshot_page_run [OF assms(1-3), of "of_nat (Suc lo)" path limit]
        line_position_boundary [OF assms(2)] that by (simp add: n_def del: of_nat_Suc)
  qed
  then show "list_all (\<lambda>lo.
      fst (render_snapshot_page x path (of_nat (Suc lo)) limit s) = Inr (page_text x path (sn_text s) lo (unat limit)) \<and>
      is_boundary (sn_text s) (line_position (sn_text s) lo)) (page_starts n (unat limit) 0)"
    using page_starts_less by (fastforce simp: list_all_iff)
qed

theorem cursors_cover_file_witness:
  "list_all (\<lambda>lo. fst (render_snapshot_page plain_externs ''f'' (of_nat (Suc lo)) 1
      (fresh_snapshot plain_externs (''a'' @ [LF] @ ''b'') None)) =
    Inr (page_text plain_externs ''f'' (''a'' @ [LF] @ ''b'') lo 1)) [0, 1]"
proof -
  let ?t = "''a'' @ [LF] @ ''b''" and ?s = "fresh_snapshot plain_externs (''a'' @ [LF] @ ''b'') None"
  have "text_ok ?t" by (simp add: text_ok_def max_file_len_def utf8_ok_ascii code_of_def)
  then have "wf_snapshot plain_externs ?s" by simp
  moreover have "offsets_fit plain_externs ?s" by (simp add: offsets_fit_def plain_externs_def)
  moreover have "page_starts 2 1 0 = [0, 1]" by (simp add: page_starts.simps page_end_def)
  moreover have "seg_count ?t = 2" by (simp add: seg_count_def)
  ultimately show ?thesis
    using cursors_cover_file [of plain_externs ?s 1 "''f''"] by simp
qed

end
