(* ===== verification/Workspaces.thy ===== *)
theory Workspaces
  imports Page_Render
begin

text \<open>
  Paths, the workspace and the tool outcomes (\<open>src/util.rs\<close>), with the durability policy of
  \<open>src/persist.rs\<close> and the success responses of \<open>src/protocol.rs\<close>.  The path functions of the
  standard library are modelled on Unix byte strings; what the operating system answers about a
  path (\<open>exists\<close>, \<open>canonicalize\<close>) is a parameter, a snapshot of the file system at the call.
\<close>

section \<open>Unix paths\<close>

datatype component = RootDir | CurDir | ParentDir | Normal string

abbreviation SLASH :: char where
  "SLASH \<equiv> CHR ''/''"

fun split_slash :: "string \<Rightarrow> string list" where
  "split_slash [] = [[]]"
| "split_slash (c # cs) =
     (if c = SLASH then [] # split_slash cs
      else (case split_slash cs of [] \<Rightarrow> [[c]] | p # ps \<Rightarrow> (c # p) # ps))"

definition is_absolute :: "path \<Rightarrow> bool" where
  "is_absolute p \<longleftrightarrow> p \<noteq> [] \<and> hd p = SLASH"

definition body_component :: "string \<Rightarrow> component" where
  "body_component s = (if s = ''..'' then ParentDir else Normal s)"

text \<open>\<open>Path::components\<close>: repeated separators and inner dots vanish, a leading dot stays.\<close>

definition path_components :: "path \<Rightarrow> component list" where
  "path_components p =
     (let pieces = split_slash p;
          names = map body_component (filter (\<lambda>s. s \<noteq> [] \<and> s \<noteq> ''.'') pieces)
      in if is_absolute p then RootDir # names
         else if hd pieces = ''.'' then CurDir # names else names)"

definition path_join :: "path \<Rightarrow> path \<Rightarrow> path" where
  "path_join root p =
     (if is_absolute p then p
      else root @ (if root \<noteq> [] \<and> last root \<noteq> SLASH then [SLASH] else []) @ p)"

text \<open>
  \<open>Path::parent\<close>: the path up to its last component, which is the shortest prefix with the
  components before it; \<open>None\<close> for the empty path and for the root.
\<close>

definition path_parent :: "path \<Rightarrow> path option" where
  "path_parent p =
     (let cs = path_components p in
      if cs = [] \<or> last cs = RootDir then None
      else map_option (\<lambda>n. take n p) (find (\<lambda>n. path_components (take n p) = butlast cs) [0..<length p]))"

definition path_file_name :: "path \<Rightarrow> string option" where
  "path_file_name p =
     (let cs = path_components p in
      if cs = [] then None else (case last cs of Normal s \<Rightarrow> Some s | _ \<Rightarrow> None))"

fun component_string :: "component \<Rightarrow> string" where
  "component_string RootDir = ''/''"
| "component_string CurDir = ''.''"
| "component_string ParentDir = ''..''"
| "component_string (Normal s) = s"

definition path_of_components :: "component list \<Rightarrow> path" where
  "path_of_components cs = foldl path_join [] (map component_string cs)"

fun strip_components :: "component list \<Rightarrow> component list \<Rightarrow> component list option" where
  "strip_components [] cs = Some cs"
| "strip_components (b # bs) [] = None"
| "strip_components (b # bs) (c # cs) = (if b = c then strip_components bs cs else None)"

definition path_strip_prefix :: "path \<Rightarrow> path \<Rightarrow> path option" where
  "path_strip_prefix base p =
     map_option path_of_components (strip_components (path_components base) (path_components p))"

definition path_starts_with :: "path \<Rightarrow> path \<Rightarrow> bool" where
  "path_starts_with p base \<longleftrightarrow> strip_components (path_components base) (path_components p) \<noteq> None"

text \<open>The key of \<open>impl Ord for Path\<close>: components in order, each by kind and bytes.\<close>

fun component_key :: "component \<Rightarrow> nat \<times> nat list" where
  "component_key RootDir = (1, [])"
| "component_key CurDir = (2, [])"
| "component_key ParentDir = (3, [])"
| "component_key (Normal s) = (4, map code_of s)"

definition path_key :: "path \<Rightarrow> (nat \<times> nat list) list" where
  "path_key p = map component_key (path_components p)"

lemma find_upt_less: "find P [0..<n] = Some k \<Longrightarrow> k < n \<and> P k"
  by (metis atLeastLessThan_iff find_SomeD set_upt)

lemma path_parent_shorter: "path_parent p = Some q \<Longrightarrow> length q < length p"
  by (auto simp: path_parent_def Let_def split: if_splits dest!: find_upt_less)

lemma path_parent_components:
  "path_parent p = Some q \<Longrightarrow> path_components p \<noteq> [] \<and> path_components q = butlast (path_components p)"
  by (auto simp: path_parent_def Let_def split: if_splits dest!: find_upt_less)

lemma component_key_inj: "component_key a = component_key b \<longleftrightarrow> a = b"
proof -
  have "inj code_of" by (intro injI code_of_inj)
  then show ?thesis by (cases a; cases b) (auto simp: inj_map_eq_map)
qed

lemma path_key_eq: "path_key p = path_key q \<longleftrightarrow> path_components p = path_components q"
proof -
  have "inj component_key" by (intro injI) (simp add: component_key_inj)
  then show ?thesis by (simp add: path_key_def inj_map_eq_map)
qed

lemma strip_components_Some: "strip_components base cs = Some rest \<longleftrightarrow> cs = base @ rest"
  by (induction base cs rule: strip_components.induct) auto

lemma path_starts_with_iff:
  "path_starts_with p base \<longleftrightarrow> (\<exists>rest. path_components p = path_components base @ rest)"
  by (auto simp: path_starts_with_def strip_components_Some)

section \<open>Tool outcomes\<close>

record tool_outcome =
  to_text :: string
  to_is_error :: bool

definition outcome_success :: "string \<Rightarrow> tool_outcome" where
  "outcome_success t = \<lparr>to_text = t, to_is_error = False\<rparr>"

definition outcome_error :: "string \<Rightarrow> tool_outcome" where
  "outcome_error t = \<lparr>to_text = t, to_is_error = True\<rparr>"

text \<open>\<open>encode\<close> is \<open>serde_json::to_string_pretty\<close> on the envelope of the value.\<close>

definition protocol_outcome :: "(protocol_error \<Rightarrow> string + string) \<Rightarrow> protocol_error \<Rightarrow> tool_outcome" where
  "protocol_outcome encode e =
     (case encode e of Inr t \<Rightarrow> outcome_error t | Inl _ \<Rightarrow> outcome_error (pe_message e))"

definition success_outcome :: "('a \<Rightarrow> string + string) \<Rightarrow> 'a \<Rightarrow> tool_outcome" where
  "success_outcome encode value =
     (case encode value of Inr t \<Rightarrow> outcome_success t
      | Inl e \<Rightarrow> outcome_error (''Failed to encode tool success: '' @ e))"

record edit_success =
  es_path :: string
  es_previous :: snapshot_id
  es_snapshot :: snapshot_id
  es_applied :: nat
  es_bytes :: u64
  es_lines :: u64

record write_success =
  wsu_path :: string
  wsu_snapshot :: snapshot_id
  wsu_bytes :: u64
  wsu_lines :: u64
  wsu_created :: bool

section \<open>The workspace and confinement\<close>

datatype durability = DurFull | DurBarrier | DurNone

record workspace =
  wsp_root :: path
  wsp_restrict :: bool
  wsp_durability :: durability

definition workspace_new :: "path \<Rightarrow> bool \<Rightarrow> workspace" where
  "workspace_new root restrict = \<lparr>wsp_root = root, wsp_restrict = restrict, wsp_durability = DurFull\<rparr>"

text \<open>What the file system answers at the time of the call.\<close>

record os_view =
  v_exists :: "path \<Rightarrow> bool"
  v_canonicalize :: "path \<Rightarrow> io_error + path"

definition resolve_path :: "path \<Rightarrow> path \<Rightarrow> path" where
  "resolve_path root p = (if is_absolute p then p else path_join root p)"

text \<open>The loop to the deepest existing ancestor; the path shrinks with every parent.\<close>

function deepest_existing :: "os_view \<Rightarrow> path \<Rightarrow> path option" where
  "deepest_existing v p =
     (if v_exists v p then Some p
      else case path_parent p of None \<Rightarrow> None | Some parent \<Rightarrow> deepest_existing v parent)"
  by pat_completeness auto

termination by (relation "measure (\<lambda>(v, p). length p)") (auto dest: path_parent_shorter)

declare deepest_existing.simps [simp del]

definition confine_to_root :: "os_view \<Rightarrow> path \<Rightarrow> path \<Rightarrow> string + unit" where
  "confine_to_root v root p =
     (if ParentDir \<in> set (path_components p) then Inl ''path contains \"..\" components''
      else case deepest_existing v p of
        None \<Rightarrow> Inl ''path has no existing ancestor''
      | Some existing \<Rightarrow>
          (case v_canonicalize v existing of
             Inl e \<Rightarrow> Inl (''cannot canonicalize '' @ existing @ '': '' @ io_text e)
           | Inr canon \<Rightarrow>
               if path_starts_with canon root then Inr ()
               else Inl (''path resolves to '' @ canon @ '' which is outside the workspace root'')))"

definition workspace_resolve :: "os_view \<Rightarrow> workspace \<Rightarrow> path \<Rightarrow> string + path" where
  "workspace_resolve v ws p =
     (let joined = resolve_path (wsp_root ws) p in
      if wsp_restrict ws then
        rbind (map_err (\<lambda>reason. ''Access to '' @ joined @ '' denied: '' @ reason @
          '' (--restrict confines tools to '' @ wsp_root ws @ '').'')
          (confine_to_root v (wsp_root ws) joined)) (\<lambda>_. Inr joined)
      else Inr joined)"

definition resolve_workspace_path :: "os_view \<Rightarrow> workspace \<Rightarrow> path \<Rightarrow> protocol_error + path" where
  "resolve_workspace_path v ws p =
     map_err (\<lambda>reason. protocol_error_new CodeRootEscape reason) (workspace_resolve v ws p)"

section \<open>Mapping engine errors into the taxonomy\<close>

fun snapshot_error_message :: "snapshot_error \<Rightarrow> string" where
  "snapshot_error_message (SnIo operation p source) = ''failed to '' @ operation @ '' '' @ p @ '': '' @ io_text source"
| "snapshot_error_message (SnContract e) = contract_message e"
| "snapshot_error_message (SnConcurrent p) = ''file changed during both snapshot read attempts: '' @ p"
| "snapshot_error_message (SnAddressSpace bytes) =
     ''file length '' @ dec_string (unat bytes) @ '' cannot fit the current address space''"
| "snapshot_error_message (SnAllocation bytes) =
     ''could not reserve '' @ dec_string (unat bytes) @ '' bytes for snapshot text''"
| "snapshot_error_message SnLineCountOverflow = ''snapshot logical line count overflowed''"
| "snapshot_error_message (SnOffsets e) = offset_error_message e"

definition snapshot_protocol_error :: "string \<Rightarrow> path \<Rightarrow> snapshot_error \<Rightarrow> protocol_error" where
  "snapshot_protocol_error operation p e =
     (case e of
        SnContract contract \<Rightarrow> protocol_error_of_contract contract
      | SnIo io_operation io_path source \<Rightarrow>
          protocol_error_new (if io_kind_of source = IoNotFound then CodeNotFound else CodeIo)
            (''Failed to '' @ io_operation @ '' '' @ io_path @ '': '' @ io_text source)
      | SnConcurrent changed \<Rightarrow>
          protocol_error_new CodeIo (''file changed during both snapshot read attempts: '' @ changed)
      | other \<Rightarrow>
          protocol_error_new CodeIo (''Failed to '' @ operation @ '' '' @ p @ '': '' @ snapshot_error_message other))"

datatype persist_error =
  PersistIo string path io_error
| DestinationChanged path
| DestinationExists path

definition persist_protocol_error :: "persist_error \<Rightarrow> protocol_error" where
  "persist_protocol_error e =
     (case e of
        DestinationChanged p \<Rightarrow>
          protocol_error_new CodeSnapshotConflict (''destination changed before atomic rename: '' @ p)
      | DestinationExists p \<Rightarrow> protocol_error_new CodeAlreadyExists (''destination already exists: '' @ p)
      | PersistIo operation p source \<Rightarrow>
          protocol_error_new CodeIo (''Failed to '' @ operation @ '' '' @ p @ '': '' @ io_text source))"

definition join_protocol_error :: "string \<Rightarrow> path \<Rightarrow> string \<Rightarrow> protocol_error" where
  "join_protocol_error operation p join =
     protocol_error_new CodeIo (''Failed to '' @ operation @ '' '' @ p @ '': '' @ join)"

lemma wf_snapshot_protocol_error [simp, wf_error_intros]: "wf_protocol_error (snapshot_protocol_error operation p e)"
  by (cases e) (simp_all add: snapshot_protocol_error_def)

lemma wf_persist_protocol_error [simp, wf_error_intros]: "wf_protocol_error (persist_protocol_error e)"
  by (cases e) (simp_all add: persist_protocol_error_def)

section \<open>Facts on confinement\<close>

lemma deepest_existing_prefix:
  "deepest_existing v p = Some q \<Longrightarrow> v_exists v q \<and> (\<exists>rest. path_components p = path_components q @ rest)"
proof (induction v p rule: deepest_existing.induct)
  case (1 v p)
  show ?case
  proof (cases "v_exists v p")
    case True
    then show ?thesis using 1(2) deepest_existing.simps [of v p] by auto
  next
    case False
    then obtain parent where parent: "path_parent p = Some parent" "deepest_existing v parent = Some q"
      using 1(2) deepest_existing.simps [of v p] by (auto split: option.splits)
    then obtain rest where rest: "v_exists v q" "path_components parent = path_components q @ rest"
      using 1(1) False by blast
    have "path_components p \<noteq> []" "path_components parent = butlast (path_components p)"
      using path_parent_components [OF parent(1)] by auto
    then have "path_components p = path_components q @ (rest @ [last (path_components p)])"
      using rest(2) by (metis append.assoc append_butlast_last_id)
    then show ?thesis using rest(1) by blast
  qed
qed

lemma confine_to_root_iff:
  "confine_to_root v root p = Inr () \<longleftrightarrow>
    ParentDir \<notin> set (path_components p) \<and>
    (\<exists>existing canon. deepest_existing v p = Some existing \<and> v_canonicalize v existing = Inr canon \<and>
      path_starts_with canon root)"
  by (auto simp: confine_to_root_def split: option.splits sum.splits)

section \<open>Properties\<close>

text \<open>
  Property C22.  A restricted workspace hands a tool only paths without parent components, whose
  deepest existing ancestor (the path itself when it exists) resolves, symbolic links included,
  to a place under the workspace root; every other request is refused with \<open>root_escape\<close>.
\<close>

theorem restricted_paths_confined:
  assumes "wsp_restrict ws"
  shows "case resolve_workspace_path v ws p of
      Inr q \<Rightarrow> q = resolve_path (wsp_root ws) p \<and> ParentDir \<notin> set (path_components q) \<and>
        (\<exists>existing canon rest. deepest_existing v q = Some existing \<and> v_exists v existing \<and>
          path_components q = path_components existing @ rest \<and> v_canonicalize v existing = Inr canon \<and>
          path_starts_with canon (wsp_root ws))
    | Inl e \<Rightarrow> pe_code e = CodeRootEscape \<and> wf_protocol_error e"
proof (cases "confine_to_root v (wsp_root ws) (resolve_path (wsp_root ws) p)")
  case (Inl reason)
  then show ?thesis
    using assms by (simp add: resolve_workspace_path_def workspace_resolve_def Let_def)
      (simp add: protocol_error_new_def)
next
  case (Inr u)
  then have "confine_to_root v (wsp_root ws) (resolve_path (wsp_root ws) p) = Inr ()" by simp
  then obtain existing canon where e: "ParentDir \<notin> set (path_components (resolve_path (wsp_root ws) p))"
    "deepest_existing v (resolve_path (wsp_root ws) p) = Some existing"
    "v_canonicalize v existing = Inr canon" "path_starts_with canon (wsp_root ws)"
    unfolding confine_to_root_iff by blast
  then show ?thesis
    using assms Inr deepest_existing_prefix [OF e(2)]
    by (simp add: resolve_workspace_path_def workspace_resolve_def Let_def)
qed

theorem restricted_paths_confined_witness:
  "case resolve_workspace_path \<lparr>v_exists = \<lambda>p. p = ''/w'', v_canonicalize = \<lambda>p. Inr ''/outside''\<rparr>
      (workspace_new ''/w'' True) ''a'' of
      Inr q \<Rightarrow> False | Inl e \<Rightarrow> pe_code e = CodeRootEscape"
proof -
  let ?v = "\<lparr>v_exists = \<lambda>p. p = ''/w'', v_canonicalize = \<lambda>p. Inr ''/outside''\<rparr>"
  have ws: "wsp_restrict (workspace_new ''/w'' True)" by (simp add: workspace_new_def)
  have "\<not> path_starts_with ''/outside'' ''/w''" by code_simp
  then show ?thesis
    using restricted_paths_confined [OF ws, where v = ?v and p = "''a''"]
    by (auto simp: workspace_new_def split: sum.splits)
qed

end
