(* ===== verification/Grep_Spans.thy ===== *)
theory Grep_Spans
  imports Workspaces
begin

text \<open>
  The pure parts of grep (\<open>src/grep.rs\<close>): the match-line sink, the merging of context windows
  into spans and the assembly of the response under the match budget, with their properties.
\<close>

section \<open>The match-line sink\<close>

text \<open>
  \<open>lines.last() != Some(&number)\<close>: a repeated number is dropped.  A callback without a line
  number, or with one beyond \<open>usize\<close>, is ignored.
\<close>

record match_sink =
  ms_lines :: "nat list"
  ms_binary :: bool

definition sink_matched :: "match_sink \<Rightarrow> u64 option \<Rightarrow> match_sink" where
  "sink_matched sink line_number =
     (case Option.bind line_number usize_of_u64 of
        None \<Rightarrow> sink
      | Some number \<Rightarrow>
          if ms_lines sink = [] \<or> last (ms_lines sink) \<noteq> number
          then sink\<lparr>ms_lines := ms_lines sink @ [number]\<rparr> else sink)"

definition sink_finish :: "match_sink \<Rightarrow> u64 option \<Rightarrow> match_sink" where
  "sink_finish sink binary_byte_offset = sink\<lparr>ms_binary := binary_byte_offset \<noteq> None\<rparr>"

text \<open>
  A compiled matcher with its searcher, both of the \<open>grep\<close> crates: on a haystack it reports the
  line numbers of its match callbacks and the offset of a binary byte, or fails (\<open>None\<close>).
\<close>

type_synonym searcher = "bytes \<Rightarrow> (u64 option list \<times> u64 option) option"

definition match_lines :: "searcher \<Rightarrow> bytes \<Rightarrow> nat list option" where
  "match_lines search content =
     (case search content of
        None \<Rightarrow> None
      | Some (callbacks, binary_byte_offset) \<Rightarrow>
          let sink = sink_finish (foldl sink_matched \<lparr>ms_lines = [], ms_binary = False\<rparr> callbacks)
                       binary_byte_offset
          in if ms_binary sink then None else Some (ms_lines sink))"

section \<open>Context spans\<close>

type_synonym span = "nat \<times> nat"

text \<open>One round of the loop: extend the last span or push a new one.\<close>

definition add_window :: "span list \<Rightarrow> nat \<Rightarrow> nat \<Rightarrow> span list" where
  "add_window spans start end =
     (if spans \<noteq> [] \<and> start \<le> snd (last spans)
      then butlast spans @ [(fst (last spans), max (snd (last spans)) end)]
      else spans @ [(start, end)])"

fun spans_loop :: "nat \<Rightarrow> nat \<Rightarrow> span list \<Rightarrow> nat list \<Rightarrow> span list" where
  "spans_loop before after spans [] = spans"
| "spans_loop before after spans (line_no # rest) =
     (let idx = line_no - 1; start = idx - before; end = sat_add_usize (sat_add_usize idx after) 1
      in spans_loop before after (add_window spans start end) rest)"

definition included_spans :: "nat list \<Rightarrow> nat \<Rightarrow> nat \<Rightarrow> span list" where
  "included_spans matched before after = spans_loop before after [] matched"

section \<open>Assembling the response\<close>

record file_hit =
  fh_rel :: path
  fh_header :: string
  fh_body :: string
  fh_matches :: nat

text \<open>\<open>lossy\<close> is \<open>to_string_lossy\<close> on the relative path.\<close>

definition hit_section :: "(path \<Rightarrow> string) \<Rightarrow> grep_output_mode \<Rightarrow> string \<Rightarrow> file_hit \<Rightarrow> string" where
  "hit_section lossy mode out hit =
     (case mode of
        Content \<Rightarrow> out @ (if out \<noteq> [] then [LF] else []) @ fh_header hit @ [LF] @ fh_body hit
      | FilesWithMatches \<Rightarrow> out @ lossy (fh_rel hit) @ [LF]
      | Count \<Rightarrow> out @ lossy (fh_rel hit) @ '': '' @ dec_string (fh_matches hit) @ [LF])"

fun assemble_loop :: "(path \<Rightarrow> string) \<Rightarrow> grep_output_mode \<Rightarrow> nat \<Rightarrow> string \<Rightarrow> nat \<Rightarrow> file_hit list \<Rightarrow> string \<times> nat \<times> bool" where
  "assemble_loop lossy mode max_matches out shown [] = (out, shown, False)"
| "assemble_loop lossy mode max_matches out shown (hit # hits) =
     (if shown \<ge> max_matches then (out, shown, True)
      else assemble_loop lossy mode max_matches (hit_section lossy mode out hit)
             (sat_add_usize shown (fh_matches hit)) hits)"

definition assemble_output ::
    "(path \<Rightarrow> string) \<Rightarrow> grep_output_mode \<Rightarrow> file_hit list \<Rightarrow> nat \<Rightarrow> u64 \<Rightarrow> u64 \<Rightarrow> string" where
  "assemble_output lossy mode hits max_matches skipped_binary skipped_invalid_utf8 =
     (case assemble_loop lossy mode max_matches [] 0 hits of
        (out, shown_matches, truncated) \<Rightarrow>
          out @ (if out \<noteq> [] \<and> mode = Content then [LF] else []) @
          grep_summary_render \<lparr>gs_matches = of_nat shown_matches, gs_truncated = truncated,
            gs_skipped_binary = skipped_binary, gs_skipped_invalid_utf8 = skipped_invalid_utf8\<rparr>)"

section \<open>Facts on the sink\<close>

lemma sink_lines:
  "ms_lines (foldl sink_matched \<lparr>ms_lines = [], ms_binary = False\<rparr> callbacks) =
    remdups_adj (List.map_filter (\<lambda>n. Option.bind n usize_of_u64) callbacks)"
proof -
  have snoc: "remdups_adj (xs @ [x]) = (if xs \<noteq> [] \<and> last (remdups_adj xs) = x then remdups_adj xs else remdups_adj xs @ [x])"
    for xs :: "nat list" and x
    by (cases xs rule: rev_cases) (auto simp: remdups_adj_append_two)
  show ?thesis
    by (induction callbacks rule: rev_induct)
      (auto simp: sink_matched_def map_filter_def snoc split: option.splits bind_splits)
qed

section \<open>Facts on the spans\<close>

text \<open>Spans in order, each non-empty, with at least one line between neighbours.\<close>

definition spans_ok :: "span list \<Rightarrow> bool" where
  "spans_ok spans \<longleftrightarrow> sorted_wrt (\<lambda>a b. snd a < fst b) spans \<and> (\<forall>s\<in>set spans. fst s < snd s)"

definition in_spans :: "span list \<Rightarrow> nat \<Rightarrow> bool" where
  "in_spans spans i \<longleftrightarrow> (\<exists>s\<in>set spans. fst s \<le> i \<and> i < snd s)"

lemma add_window_ok:
  assumes ok: "spans_ok spans" and "start < end" and low: "\<forall>s\<in>set spans. fst s \<le> start"
  shows "spans_ok (add_window spans start end)"
    and "in_spans (add_window spans start end) i \<longleftrightarrow> in_spans spans i \<or> (start \<le> i \<and> i < end)"
    and "\<forall>s\<in>set (add_window spans start end). fst s \<le> start"
proof -
  have "spans_ok (add_window spans start end) \<and>
      (in_spans (add_window spans start end) i \<longleftrightarrow> in_spans spans i \<or> (start \<le> i \<and> i < end)) \<and>
      (\<forall>s\<in>set (add_window spans start end). fst s \<le> start)"
  proof (cases "spans \<noteq> [] \<and> start \<le> snd (last spans)")
    case True
    then obtain init a b where spans: "spans = init @ [(a, b)]" by (cases spans rule: rev_cases) auto
    then have "add_window spans start end = init @ [(a, max b end)]" using True by (simp add: add_window_def)
    moreover have "a \<le> start" "start \<le> b" "a < b" using low True ok spans by (auto simp: spans_ok_def)
    ultimately show ?thesis using ok assms(2) low spans
      by (auto simp: spans_ok_def in_spans_def sorted_wrt_append max_def)
  next
    case False
    then have add: "add_window spans start end = spans @ [(start, end)]" by (auto simp: add_window_def)
    have "\<forall>s\<in>set spans. snd s < start"
    proof (cases spans rule: rev_cases)
      case (snoc init s)
      then have "snd s < start" using False by simp
      moreover have "\<forall>r\<in>set init. snd r < fst s" "fst s < snd s" using ok snoc by (auto simp: spans_ok_def sorted_wrt_append)
      ultimately show ?thesis using snoc by fastforce
    qed simp
    then show ?thesis using ok assms(2) low add by (auto simp: spans_ok_def in_spans_def sorted_wrt_append)
  qed
  then show "spans_ok (add_window spans start end)"
    and "in_spans (add_window spans start end) i \<longleftrightarrow> in_spans spans i \<or> (start \<le> i \<and> i < end)"
    and "\<forall>s\<in>set (add_window spans start end). fst s \<le> start" by blast+
qed

lemma spans_loop_ok:
  "sorted lines \<Longrightarrow> \<forall>n\<in>set lines. n - 1 + after < usize_max \<Longrightarrow> spans_ok spans \<Longrightarrow>
    (\<forall>n\<in>set lines. \<forall>s\<in>set spans. fst s \<le> n - 1 - before) \<Longrightarrow>
    spans_ok (spans_loop before after spans lines) \<and>
    (in_spans (spans_loop before after spans lines) i \<longleftrightarrow>
      in_spans spans i \<or> (\<exists>n\<in>set lines. n - 1 - before \<le> i \<and> i \<le> n - 1 + after))"
proof (induction lines arbitrary: spans)
  case (Cons n lines)
  let ?start = "n - 1 - before" and ?stop = "Suc (n - 1 + after)"
  have n: "n - 1 + after < usize_max" "\<forall>s\<in>set spans. fst s \<le> ?start" using Cons.prems by simp_all
  then have sat: "sat_add_usize (sat_add_usize (n - 1) after) 1 = ?stop" by (simp add: sat_add_usize_def)
  have lt: "?start < ?stop" by simp
  note add = add_window_ok [OF Cons.prems(3) lt n(2)]
  have "\<forall>m\<in>set lines. \<forall>s\<in>set (add_window spans ?start ?stop). fst s \<le> m - 1 - before"
  proof (intro ballI)
    fix m s assume "m \<in> set lines" "s \<in> set (add_window spans ?start ?stop)"
    then have "n \<le> m" "fst s \<le> ?start" using Cons.prems(1) add(3) by auto
    then show "fst s \<le> m - 1 - before" by linarith
  qed
  then have IH: "spans_ok (spans_loop before after (add_window spans ?start ?stop) lines) \<and>
      (in_spans (spans_loop before after (add_window spans ?start ?stop) lines) i \<longleftrightarrow>
        in_spans (add_window spans ?start ?stop) i \<or> (\<exists>n\<in>set lines. n - 1 - before \<le> i \<and> i \<le> n - 1 + after))"
    using Cons.IH [of "add_window spans ?start ?stop"] Cons.prems(1,2) add(1) by simp
  have step: "spans_loop before after spans (n # lines) = spans_loop before after (add_window spans ?start ?stop) lines"
    by (simp add: sat [simplified] Let_def)
  show ?case unfolding step using IH add(2) [of i] by (auto simp: less_Suc_eq_le)
qed simp

lemma included_spans_ok:
  "sorted lines \<Longrightarrow> \<forall>n\<in>set lines. n - 1 + after < usize_max \<Longrightarrow>
    spans_ok (included_spans lines before after) \<and>
    (in_spans (included_spans lines before after) i \<longleftrightarrow>
      (\<exists>n\<in>set lines. n - 1 - before \<le> i \<and> i \<le> n - 1 + after))"
  using spans_loop_ok [of lines after "[]" before i]
  by (simp add: included_spans_def) (simp add: spans_ok_def in_spans_def)

section \<open>Facts on the response\<close>

text \<open>The hits that are reported: those before which the budget is not yet used up.\<close>

fun reported_hits :: "nat \<Rightarrow> nat \<Rightarrow> file_hit list \<Rightarrow> file_hit list" where
  "reported_hits max_matches shown [] = []"
| "reported_hits max_matches shown (hit # hits) =
     (if shown \<ge> max_matches then []
      else hit # reported_hits max_matches (sat_add_usize shown (fh_matches hit)) hits)"

lemma reported_hits_prefix: "\<exists>rest. hits = reported_hits max_matches shown hits @ rest"
  by (induction max_matches shown hits rule: reported_hits.induct) auto

lemma assemble_loop_eq:
  "assemble_loop lossy mode max_matches out shown hits =
    (foldl (hit_section lossy mode) out (reported_hits max_matches shown hits),
     foldl (\<lambda>n hit. sat_add_usize n (fh_matches hit)) shown (reported_hits max_matches shown hits),
     reported_hits max_matches shown hits \<noteq> hits)"
  by (induction lossy mode max_matches out shown hits rule: assemble_loop.induct) auto

lemma sat_sum:
  "shown + sum_list (map fh_matches hits) \<le> usize_max \<Longrightarrow>
    foldl (\<lambda>n hit. sat_add_usize n (fh_matches hit)) shown hits = shown + sum_list (map fh_matches hits)"
  by (induction hits arbitrary: shown) (simp_all add: sat_add_usize_def min_def)

text \<open>Everything before the last reported hit is within the budget.\<close>

lemma reported_hits_budget:
  "shown + sum_list (map fh_matches hits) \<le> usize_max \<Longrightarrow> reported_hits max_matches shown hits = r @ [hit] \<Longrightarrow>
    shown + sum_list (map fh_matches r) < max_matches"
proof (induction max_matches shown hits arbitrary: r rule: reported_hits.induct)
  case (2 max_matches shown h hits)
  then have lt: "shown < max_matches" by (auto split: if_splits)
  have le: "shown + fh_matches h + sum_list (map fh_matches hits) \<le> usize_max" using 2(2) by simp
  then have sat: "sat_add_usize shown (fh_matches h) = shown + fh_matches h" by (simp add: sat_add_usize_def)
  have eq: "h # reported_hits max_matches (shown + fh_matches h) hits = r @ [hit]" using 2(3) lt sat by simp
  show ?case
  proof (cases r)
    case Nil
    then show ?thesis using lt by simp
  next
    case (Cons h' r')
    then have h: "h' = h" and rest: "reported_hits max_matches (shown + fh_matches h) hits = r' @ [hit]"
      using eq unfolding Cons append_Cons list.inject by blast+
    have "\<not> max_matches \<le> shown" using lt by simp
    from 2(1) [OF this, of r', unfolded sat, OF le rest] show ?thesis unfolding Cons h by simp
  qed
qed simp

text \<open>A withheld hit means that the budget is used up.\<close>

lemma reported_hits_full:
  "shown + sum_list (map fh_matches hits) \<le> usize_max \<Longrightarrow> reported_hits max_matches shown hits \<noteq> hits \<Longrightarrow>
    max_matches \<le> shown + sum_list (map fh_matches (reported_hits max_matches shown hits))"
proof (induction max_matches shown hits rule: reported_hits.induct)
  case (2 max_matches shown h hits)
  then have "sat_add_usize shown (fh_matches h) = shown + fh_matches h" by (simp add: sat_add_usize_def)
  with 2 show ?case by (auto split: if_splits)
qed simp

lemma reported_hits_shape:
  "map fh_matches hits = map fh_matches hits' \<Longrightarrow>
    length (reported_hits max_matches shown hits) = length (reported_hits max_matches shown hits') \<and>
    foldl (\<lambda>n hit. sat_add_usize n (fh_matches hit)) shown (reported_hits max_matches shown hits) =
      foldl (\<lambda>n hit. sat_add_usize n (fh_matches hit)) shown (reported_hits max_matches shown hits')"
proof (induction hits arbitrary: shown hits')
  case (Cons h hits)
  then obtain h' hs' where "hits' = h' # hs'" "fh_matches h' = fh_matches h" "map fh_matches hits = map fh_matches hs'"
    by (cases hits') auto
  then show ?case using Cons.IH [of hs' "sat_add_usize shown (fh_matches h)"] by simp
qed simp

lemma reported_hits_length: "length (reported_hits max_matches shown hits) = length hits \<longleftrightarrow> reported_hits max_matches shown hits = hits"
  using reported_hits_prefix [of hits max_matches shown] by (metis append_Nil2 append_eq_conv_conj order_refl take_all)

section \<open>Properties\<close>

text \<open>
  Property C28.  The spans of a content search: for the sorted line numbers of the matches, whose
  context does not overflow, the spans are in ascending order, non-empty, separated by at least one
  line that is not shown, and together exactly the lines within the context of a match.
\<close>

theorem context_spans_exact:
  assumes "sorted lines" and "\<forall>n\<in>set lines. n - 1 + after < usize_max"
  shows "spans_ok (included_spans lines before after) \<and>
    (\<forall>i. in_spans (included_spans lines before after) i \<longleftrightarrow>
      (\<exists>n\<in>set lines. n - 1 - before \<le> i \<and> i \<le> n - 1 + after))"
  using included_spans_ok [OF assms] by blast

theorem context_spans_exact_witness:
  "spans_ok (included_spans [3, 5, 20] 1 1) \<and> included_spans [3, 5, 20] 1 1 = [(1, 6), (18, 21)]"
proof -
  have "sorted [3, 5, 20 :: nat]" "\<forall>n\<in>set [3, 5, 20 :: nat]. n - 1 + 1 < usize_max" by (simp_all add: usize_max_def)
  then show ?thesis
    using context_spans_exact [of "[3, 5, 20]" 1 1]
    by (simp add: included_spans_def Let_def add_window_def sat_add_usize_def usize_max_def)
qed

text \<open>
  The match budget: the response reports a prefix of the hits in path order, says
  it is truncated exactly when a hit is withheld, withholds one only when the reported matches
  reach the budget, and before the last reported file the budget was not reached.
\<close>

theorem match_budget:
  assumes "sum_list (map fh_matches hits) \<le> usize_max"
  shows "\<exists>reported rest out.
    hits = reported @ rest \<and>
    assemble_loop lossy mode max_matches [] 0 hits = (out, sum_list (map fh_matches reported), rest \<noteq> []) \<and>
    (rest = [] \<or> max_matches \<le> sum_list (map fh_matches reported)) \<and>
    (reported = [] \<or> sum_list (map fh_matches (butlast reported)) < max_matches)"
proof -
  let ?r = "reported_hits max_matches 0 hits"
  obtain rest where rest: "hits = ?r @ rest" using reported_hits_prefix by blast
  have ne: "?r \<noteq> hits \<longleftrightarrow> rest \<noteq> []" using rest by (metis append_Nil2 append_self_conv)
  have "sum_list (map fh_matches ?r) \<le> usize_max"
    using assms arg_cong [OF rest, of "\<lambda>hs. sum_list (map fh_matches hs)"] by simp
  then have sum: "foldl (\<lambda>n hit. sat_add_usize n (fh_matches hit)) 0 ?r = sum_list (map fh_matches ?r)"
    using sat_sum [of 0 ?r] by simp
  have full: "rest = [] \<or> max_matches \<le> sum_list (map fh_matches ?r)"
    using reported_hits_full [of 0 hits max_matches] assms ne by auto
  have budget: "?r = [] \<or> sum_list (map fh_matches (butlast ?r)) < max_matches"
  proof (cases ?r rule: rev_cases)
    case (snoc r hit)
    then have "sum_list (map fh_matches r) < max_matches"
      using reported_hits_budget [of 0 hits max_matches r hit] assms by simp
    then show ?thesis by (simp add: snoc)
  qed simp
  show ?thesis
    using rest full budget
    by (intro exI [of _ ?r] exI [of _ rest] exI [of _ "foldl (hit_section lossy mode) [] ?r"])
      (simp only: assemble_loop_eq sum ne simp_thms)
qed

theorem match_budget_witness:
  "\<exists>out. assemble_loop id Count 2 [] 0
      [\<lparr>fh_rel = ''a'', fh_header = [], fh_body = [], fh_matches = 3\<rparr>,
       \<lparr>fh_rel = ''b'', fh_header = [], fh_body = [], fh_matches = 1\<rparr>] = (out, 3, True)"
proof -
  let ?hits = "[\<lparr>fh_rel = ''a'', fh_header = [], fh_body = [], fh_matches = 3\<rparr>,
       \<lparr>fh_rel = ''b'', fh_header = [], fh_body = [], fh_matches = 1\<rparr>]"
  have "sum_list (map fh_matches ?hits) \<le> usize_max" by (simp add: usize_max_def)
  from match_budget [OF this, of id Count 2] show ?thesis
    by (auto simp: sat_add_usize_def usize_max_def)
qed

text \<open>
  The three output modes agree: for hits with the same match counts they report
  the same number of files, the same number of matches and the same truncation flag.
\<close>

theorem output_modes_agree:
  assumes "map fh_matches hits = map fh_matches hits'"
  shows "snd (assemble_loop lossy mode max_matches out shown hits) =
      snd (assemble_loop lossy mode' max_matches out' shown hits') \<and>
    length (reported_hits max_matches shown hits) = length (reported_hits max_matches shown hits')"
proof -
  have len: "length hits = length hits'" using map_eq_imp_length_eq [OF assms] .
  note shape = reported_hits_shape [OF assms, of max_matches shown]
  have "reported_hits max_matches shown hits \<noteq> hits \<longleftrightarrow> reported_hits max_matches shown hits' \<noteq> hits'"
    using reported_hits_length [of max_matches shown hits] reported_hits_length [of max_matches shown hits'] shape len
    by linarith
  then show ?thesis unfolding assemble_loop_eq snd_conv using shape by blast
qed

theorem output_modes_agree_witness:
  "snd (assemble_loop id Content 2 [] 0 [\<lparr>fh_rel = ''a'', fh_header = ''h'', fh_body = ''b'', fh_matches = 3\<rparr>]) =
    snd (assemble_loop id Count 2 [] 0 [\<lparr>fh_rel = ''a'', fh_header = [], fh_body = [], fh_matches = 3\<rparr>])"
  using output_modes_agree [of "[\<lparr>fh_rel = ''a'', fh_header = ''h'', fh_body = ''b'', fh_matches = 3\<rparr>]"
    "[\<lparr>fh_rel = ''a'', fh_header = [], fh_body = [], fh_matches = 3\<rparr>]"]
  by simp

end
