(* ===== verification/Grep_Search.thy ===== *)
theory Grep_Search
  imports Grep_Spans
begin

text \<open>
  Grep over files (\<open>src/grep.rs\<close>): rendering of a hit section, the search of one file, the
  parallel visitors with their shared counters, and the request.  The directory walker of the
  \<open>ignore\<close> crate is a parameter: it delivers entries to workers in some order; the code is
  every visit, the merging of the batches, the sort and the response.
\<close>

section \<open>Rendering one file\<close>

text \<open>\<open>snapshot.line_start(line).ok().flatten()?\<close>.\<close>

definition some_line_start :: "externs \<Rightarrow> u64 \<Rightarrow> (snapshot, unit fault, u64) comp" where
  "some_line_start x line = (\<lambda>s.
     case snapshot_line_start x line s of
       (Inr (Some start), s') \<Rightarrow> (Inr start, s')
     | (_, s') \<Rightarrow> (Inl (Err ()), s'))"

text \<open>The \<open>while matched.get(cursor) < line_no\<close> loop: how far the cursor advances.\<close>

fun advance_cursor :: "nat list \<Rightarrow> nat \<Rightarrow> nat" where
  "advance_cursor [] line_no = 0"
| "advance_cursor (m # ms) line_no = (if m < line_no then Suc (advance_cursor ms line_no) else 0)"

definition render_grep_line :: "externs \<Rightarrow> nat list \<Rightarrow> nat \<Rightarrow> string \<times> nat \<Rightarrow> (snapshot, unit fault, string \<times> nat) comp" where
  "render_grep_line x matched idx acc = (case acc of (body, cursor) \<Rightarrow>
     let line_no = idx + 1; line_u64 = of_nat line_no in
     bind (some_line_start x line_u64) (\<lambda>start_byte.
     bind (\<lambda>s. (if line_u64 < sn_line_count s then some_line_start x (line_u64 + 1) s
                 else (Inr (sn_byte_len s), s))) (\<lambda>end_byte.
     bind (lift (ok_or (Err ()) (usize_of_u64 start_byte))) (\<lambda>start_u.
     bind (lift (ok_or (Err ()) (usize_of_u64 end_byte))) (\<lambda>end_u.
     bind (\<lambda>s. (display_line_content (sn_text s) start_u end_u, s)) (\<lambda>content.
     let cursor' = cursor + advance_cursor (drop cursor matched) line_no;
         kind = (if get_at matched cursor' = Some line_no then MatchLine else ContextLine) in
     bind (lift (ok_or (Err ()) (ok_opt (position_new line_u64 start_byte)))) (\<lambda>position.
     ret (body @ grep_line_render \<lparr>gline_position = position, gline_kind = kind, gline_content = content\<rparr> @ [LF],
       cursor'))))))))"

fun render_grep_lines :: "externs \<Rightarrow> nat list \<Rightarrow> nat list \<Rightarrow> string \<times> nat \<Rightarrow> (snapshot, unit fault, string \<times> nat) comp" where
  "render_grep_lines x matched [] acc = ret acc"
| "render_grep_lines x matched (idx # rest) acc =
     bind (render_grep_line x matched idx acc) (\<lambda>acc'. render_grep_lines x matched rest acc')"

fun render_spans :: "externs \<Rightarrow> nat list \<Rightarrow> nat \<Rightarrow> span list \<Rightarrow> string \<times> nat \<Rightarrow> (snapshot, unit fault, string \<times> nat) comp" where
  "render_spans x matched span_position [] acc = ret acc"
| "render_spans x matched span_position (span # rest) acc =
     bind (render_grep_lines x matched [fst span..<snd span]
             (if span_position > 0 then fst acc @ ''--'' @ [LF] else fst acc, snd acc)) (\<lambda>acc'.
     render_spans x matched (Suc span_position) rest acc')"

definition searchable_lines :: "snapshot \<Rightarrow> nat" where
  "searchable_lines s =
     unat (if sn_text s = [] \<or> last (sn_text s) = LF then sat_sub_u64 (sn_line_count s) 1 else sn_line_count s)"

definition trim_spans :: "nat \<Rightarrow> span list \<Rightarrow> span list" where
  "trim_spans searchable spans = map (\<lambda>(start, end). (start, min end searchable)) spans"

text \<open>\<open>Inl (Err ())\<close> is the code's \<open>None\<close>: the file is not reported.\<close>

definition render_hit ::
    "externs \<Rightarrow> (path \<Rightarrow> string) \<Rightarrow> bytes \<Rightarrow> path \<Rightarrow> nat list \<Rightarrow> nat \<Rightarrow> nat \<Rightarrow> grep_output_mode \<Rightarrow> unit fault + file_hit" where
  "render_hit x lossy bytes rel matched before after mode =
     (if mode \<noteq> Content then
        Inr \<lparr>fh_rel = rel, fh_header = [], fh_body = [], fh_matches = length matched\<rparr>
      else
        rbind (ok_or (Err ()) (ok_opt (from_validated_bytes x bytes))) (\<lambda>snapshot.
        fst (bind (\<lambda>s. case materialize_offsets x s of (Inr _, s') \<Rightarrow> (Inr (), s') | (Inl _, s') \<Rightarrow> (Inl (Err ()), s')) (\<lambda>_ s.
             let spans = trim_spans (searchable_lines s) (included_spans matched before after) in
             bind (lift (ok_or (Err ()) (ok_opt (snapshot_header_new (lossy rel) (sn_id s) (sn_line_count s) (sn_byte_len s))))) (\<lambda>header.
             bind (render_spans x matched 0 spans ([], 0)) (\<lambda>(body, cursor).
             ret \<lparr>fh_rel = rel, fh_header = snapshot_header_render (x_json x) header, fh_body = body,
               fh_matches = length matched\<rparr>)) s) snapshot)))"

section \<open>Searching one file\<close>

text \<open>The counters the workers share, and the first error of any worker.\<close>

record grep_ctx =
  gc_total :: u64
  gc_skipped_binary :: u64
  gc_skipped_utf8 :: u64
  gc_error :: "protocol_error option"

definition grep_ctx_new :: grep_ctx where
  "grep_ctx_new = \<lparr>gc_total = 0, gc_skipped_binary = 0, gc_skipped_utf8 = 0, gc_error = None\<rparr>"

definition explicit_read_error :: "path \<Rightarrow> io_error \<Rightarrow> protocol_error" where
  "explicit_read_error p source =
     (case io_kind_of source of
        IoNotFound \<Rightarrow> protocol_error_new CodeNotFound (''File not found: '' @ p)
      | IoPermissionDenied \<Rightarrow>
          protocol_error_new CodePermissionDenied (''Permission denied reading '' @ p @ '': '' @ io_text source)
      | _ \<Rightarrow> protocol_error_new CodeIo (''Failed to read '' @ p @ '': '' @ io_text source))"

text \<open>What one request fixes: matcher and searcher, context, mode.\<close>

record grep_job =
  gj_externs :: externs
  gj_lossy :: "path \<Rightarrow> string"
  gj_search :: searcher
  gj_before :: nat
  gj_after :: nat
  gj_mode :: grep_output_mode

text \<open>\<open>read\<close> is the result of \<open>std::fs::read(path)\<close> at the time of the visit.\<close>

definition search_file ::
    "grep_job \<Rightarrow> path \<Rightarrow> path \<Rightarrow> io_error + bytes \<Rightarrow> grep_target \<Rightarrow> (grep_ctx, protocol_error fault, file_hit option) comp" where
  "search_file job p rel read target =
     (case read of
        Inl source \<Rightarrow>
          (case target of ExplicitFile \<Rightarrow> raise (Err (explicit_read_error p source)) | TreeEntry \<Rightarrow> ret None)
      | Inr bytes \<Rightarrow>
          (case classify_grep_text bytes target of
             Inl error \<Rightarrow> raise (Err (protocol_error_of_contract error))
           | Inr SkipBinary \<Rightarrow> (\<lambda>ctx. (Inr None, ctx\<lparr>gc_skipped_binary := gc_skipped_binary ctx + 1\<rparr>))
           | Inr SkipInvalidUtf8 \<Rightarrow> (\<lambda>ctx. (Inr None, ctx\<lparr>gc_skipped_utf8 := gc_skipped_utf8 ctx + 1\<rparr>))
           | Inr (Search text) \<Rightarrow>
               (case match_lines (gj_search job) text of
                  None \<Rightarrow> ret None
                | Some matched \<Rightarrow>
                    if matched = [] then ret None
                    else (case render_hit (gj_externs job) (gj_lossy job) bytes rel matched
                                 (gj_before job) (gj_after job) (gj_mode job) of
                            Inr hit \<Rightarrow> ret (Some hit)
                          | Inl (Err _) \<Rightarrow> ret None
                          | Inl Panic \<Rightarrow> raise Panic))))"

section \<open>The parallel walk\<close>

datatype walk_state = Continue | Quit

text \<open>
  An entry the walker delivers: an error, or a path with its kind and what reading it gives.
  A worker is a number; \<open>gw_hits\<close> holds its batch.
\<close>

datatype walk_entry = EntryError | Entry (we_path: path) (we_is_file: bool) (we_read: "io_error + bytes")

record grep_walk =
  gw_ctx :: grep_ctx
  gw_hits :: "nat \<Rightarrow> file_hit list"

definition grep_visit ::
    "grep_job \<Rightarrow> path \<Rightarrow> nat \<Rightarrow> nat \<Rightarrow> walk_entry \<Rightarrow> (grep_walk, protocol_error fault, walk_state) comp" where
  "grep_visit job root quit_threshold worker entry = (\<lambda>w.
     case entry of
       EntryError \<Rightarrow> (Inr Continue, w)
     | Entry p is_file read \<Rightarrow>
         if \<not> is_file then (Inr Continue, w)
         else
           let rel = (case path_strip_prefix root p of None \<Rightarrow> p | Some r \<Rightarrow> r) in
           (case search_file job p rel read TreeEntry (gw_ctx w) of
              (Inr (Some hit), ctx) \<Rightarrow>
                let found = gc_total ctx + of_nat (fh_matches hit);
                    w' = w\<lparr>gw_ctx := ctx\<lparr>gc_total := found\<rparr>,
                      gw_hits := (gw_hits w)(worker := gw_hits w worker @ [hit])\<rparr>
                in (Inr (if unat found > quit_threshold then Quit else Continue), w')
            | (Inr None, ctx) \<Rightarrow> (Inr Continue, w\<lparr>gw_ctx := ctx\<rparr>)
            | (Inl (Err error), ctx) \<Rightarrow>
                (Inr Quit, w\<lparr>gw_ctx := (if gc_error ctx = None then ctx\<lparr>gc_error := Some error\<rparr> else ctx)\<rparr>)
            | (Inl Panic, ctx) \<Rightarrow> (Inl Panic, w\<lparr>gw_ctx := ctx\<rparr>)))"

text \<open>
  A schedule: the visits in the order they take effect, each with its worker.  The answers tell
  the walker to go on or to stop; which further entries it still delivers is its choice.
\<close>

type_synonym schedule = "(nat \<times> walk_entry) list"

fun grep_visits ::
    "grep_job \<Rightarrow> path \<Rightarrow> nat \<Rightarrow> schedule \<Rightarrow> (grep_walk, protocol_error fault, walk_state list) comp" where
  "grep_visits job root quit_threshold [] = ret []"
| "grep_visits job root quit_threshold ((worker, entry) # rest) =
     bind (grep_visit job root quit_threshold worker entry) (\<lambda>answer.
     bind (grep_visits job root quit_threshold rest) (\<lambda>answers. ret (answer # answers)))"

text \<open>The workers drop in some order, each pushing its batch when it is not empty.\<close>

fun drop_visitors :: "grep_walk \<Rightarrow> nat list \<Rightarrow> file_hit list list" where
  "drop_visitors w [] = []"
| "drop_visitors w (worker # rest) =
     (if gw_hits w worker = [] then drop_visitors w rest else gw_hits w worker # drop_visitors w rest)"

definition sort_hits :: "file_hit list \<Rightarrow> file_hit list" where
  "sort_hits hits = sort_key (\<lambda>hit. path_key (fh_rel hit)) hits"

definition grep_tree ::
    "grep_job \<Rightarrow> path \<Rightarrow> nat \<Rightarrow> schedule \<Rightarrow> nat list \<Rightarrow> protocol_error fault + string" where
  "grep_tree job root max_matches schedule drops =
     (let quit_threshold = sat_mul_usize max_matches 8 in
      case grep_visits job root quit_threshold schedule \<lparr>gw_ctx = grep_ctx_new, gw_hits = \<lambda>_. []\<rparr> of
        (Inl e, _) \<Rightarrow> Inl e
      | (Inr _, w) \<Rightarrow>
          (case gc_error (gw_ctx w) of
             Some error \<Rightarrow> Inl (Err error)
           | None \<Rightarrow>
               let hits = sort_hits (concat (drop_visitors w drops)) in
               Inr (assemble_output (gj_lossy job) (gj_mode job) hits max_matches
                 (gc_skipped_binary (gw_ctx w)) (gc_skipped_utf8 (gw_ctx w)))))"

section \<open>The request\<close>

text \<open>
  The crates and the file system a request meets: the regex builder, the override builder
  (\<open>Some message\<close> is its error), \<open>metadata\<close> (whether the path is a file), \<open>read\<close>, and the
  walk with its visits and the order in which workers finish.
\<close>

record grep_env =
  ge_externs :: externs
  ge_lossy :: "path \<Rightarrow> string"
  ge_view :: os_view
  ge_regex :: "string \<Rightarrow> bool \<Rightarrow> string + searcher"
  ge_override :: "path \<Rightarrow> string \<Rightarrow> string option"
  ge_is_file :: "path \<Rightarrow> io_error + bool"
  ge_read :: "path \<Rightarrow> io_error + bytes"
  ge_schedule :: "path \<Rightarrow> string option \<Rightarrow> schedule"
  ge_drops :: "nat list"

definition grep_run :: "grep_env \<Rightarrow> workspace \<Rightarrow> grep_request \<Rightarrow> protocol_error fault + string" where
  "grep_run env ws input =
     rbind (as_protocol_error (lift_err (grep_request_validate input))) (\<lambda>_.
     rbind (map_err (\<lambda>e. Err (protocol_error_new CodeInvalidPattern
              (''Invalid regex pattern \"'' @ gr_pattern input @ ''\": '' @ e)))
            (ge_regex env (gr_pattern input) (gr_ignore_case input))) (\<lambda>search.
     let (before_u16, after_u16) = effective_context input;
         max_matches = unat (max (gr_max_matches input) 1);
         job = \<lparr>gj_externs = ge_externs env, gj_lossy = ge_lossy env, gj_search = search,
           gj_before = unat before_u16, gj_after = unat after_u16, gj_mode = gr_output_mode input\<rparr> in
     rbind (lift_err (resolve_workspace_path (ge_view env) ws (case_option ''.'' id (gr_path input)))) (\<lambda>search_root.
     rbind (map_err (\<lambda>_. Err (protocol_error_new CodeNotFound (''Search path not found: '' @ search_root)))
            (ge_is_file env search_root)) (\<lambda>is_file.
     if is_file then
       let rel = (case path_file_name search_root of None \<Rightarrow> search_root | Some n \<Rightarrow> n) in
       (case search_file job search_root rel (ge_read env search_root) ExplicitFile grep_ctx_new of
          (Inl e, _) \<Rightarrow> Inl e
        | (Inr hit, ctx) \<Rightarrow>
            Inr (assemble_output (ge_lossy env) (gr_output_mode input) (case hit of None \<Rightarrow> [] | Some h \<Rightarrow> [h])
              max_matches (gc_skipped_binary ctx) (gc_skipped_utf8 ctx)))
     else
       rbind (case gr_glob input of None \<Rightarrow> Inr ()
              | Some glob \<Rightarrow>
                  (case ge_override env search_root glob of
                     None \<Rightarrow> Inr ()
                   | Some e \<Rightarrow> Inl (Err (protocol_error_new CodeInvalidPattern
                       (''Invalid glob \"'' @ glob @ ''\": '' @ e))))) (\<lambda>_.
       grep_tree job search_root max_matches (ge_schedule env search_root (gr_glob input)) (ge_drops env))))))"

section \<open>What a content section shows\<close>

definition grep_text_line :: "bytes \<Rightarrow> nat list \<Rightarrow> nat \<Rightarrow> string" where
  "grep_text_line text matched k =
     grep_line_render \<lparr>gline_position = line_position text k,
       gline_kind = (if Suc k \<in> set matched then MatchLine else ContextLine),
       gline_content = text_line text k\<rparr> @ [LF]"

fun spans_body :: "bytes \<Rightarrow> nat list \<Rightarrow> nat \<Rightarrow> span list \<Rightarrow> string" where
  "spans_body text matched span_position [] = []"
| "spans_body text matched span_position (span # rest) =
     (if span_position > 0 then ''--'' @ [LF] else []) @
     concat (map (grep_text_line text matched) [fst span..<snd span]) @
     spans_body text matched (Suc span_position) rest"

definition count_below :: "nat list \<Rightarrow> nat \<Rightarrow> nat" where
  "count_below matched l = length (takeWhile (\<lambda>m. m < l) matched)"

lemma advance_cursor_eq: "advance_cursor ms l = length (takeWhile (\<lambda>m. m < l) ms)"
  by (induction ms) auto

lemma advance_from:
  assumes "cursor \<le> count_below matched l"
  shows "cursor + advance_cursor (drop cursor matched) l = count_below matched l"
  using assms
proof (induction matched arbitrary: cursor)
  case Nil
  then show ?case by (simp add: count_below_def)
next
  case (Cons m matched)
  then show ?case by (cases cursor) (auto simp: count_below_def advance_cursor_eq split: if_splits)
qed

lemma count_below_mono: "l \<le> l' \<Longrightarrow> count_below matched l \<le> count_below matched l'"
  by (induction matched) (auto simp: count_below_def)

lemma get_at_count_below:
  "sorted_wrt (<) matched \<Longrightarrow> get_at matched (count_below matched l) = Some l \<longleftrightarrow> l \<in> set matched"
proof (induction matched)
  case (Cons m matched)
  then show ?case
    by (cases "m < l") (auto simp: count_below_def get_at_def)
qed (simp add: get_at_def)

lemma some_line_start_run:
  assumes "page_state x m" "k < seg_count (sn_text m)"
  shows "some_line_start x (of_nat (Suc k)) m = (Inr (of_nat (seg_off (sn_text m) k)), m)"
  using page_line_start [OF assms]
  by (simp add: some_line_start_def try_snapshot_def comp_simps del: of_nat_Suc split: prod.splits sum.splits)
    (auto simp: map_err_def split: sum.splits)

lemma render_grep_line_run:
  assumes m: "page_state x m" and k: "k < seg_count (sn_text m)" and strict: "sorted_wrt (<) matched"
    and cursor: "cursor \<le> count_below matched (Suc k)"
  shows "render_grep_line x matched k (body, cursor) m =
    (Inr (body @ grep_text_line (sn_text m) matched k, count_below matched (Suc k)), m)"
proof -
  have wf: "wf_snapshot x m" using m by (simp add: page_state_def)
  note lt = word_Suc_lt_count [OF wf k]
  have nz: "(of_nat (Suc k) :: u64) \<noteq> 0" using lt(2) by (metis nat.simps(3) unsigned_0)
  have "(if of_nat (Suc k) < sn_line_count m then some_line_start x (of_nat (Suc k) + 1) m
      else (Inr (sn_byte_len m), m)) = (Inr (of_nat (seg_off (sn_text m) (Suc k))), m)"
  proof (cases "Suc k < seg_count (sn_text m)")
    case True
    then show ?thesis unfolding lt(1) if_P [OF True] next_line_word by (rule some_line_start_run [OF m])
  next
    case False
    then show ?thesis unfolding lt(1) if_not_P [OF False] using wf by (simp add: wf_snapshot_def)
  qed
  then show ?thesis
    using advance_from [OF cursor] get_at_count_below [OF strict, of "Suc k"]
    by (simp add: render_grep_line_def Let_def comp_simps some_line_start_run [OF m k] unat_seg_off [OF wf]
        display_line_segment [OF wf_line_count(4) [OF wf] k] position_new_def nz grep_text_line_def
        line_position_def del: of_nat_Suc)
qed

lemma render_grep_lines_run:
  assumes m: "page_state x m" and strict: "sorted_wrt (<) matched"
  shows "b \<le> seg_count (sn_text m) \<Longrightarrow> cursor \<le> count_below matched (Suc a) \<Longrightarrow>
    \<exists>cursor'. render_grep_lines x matched [a..<b] (body, cursor) m =
      (Inr (body @ concat (map (grep_text_line (sn_text m) matched) [a..<b]), cursor'), m) \<and>
      cursor' \<le> count_below matched (Suc (max a b))"
proof (induction "b - a" arbitrary: a body cursor)
  case 0
  then have "[a..<b] = []" "max a b = a" by auto
  then show ?case using 0 by (simp add: comp_simps)
next
  case (Suc d)
  then have ab: "a < b" "d = b - Suc a" by auto
  then have upt: "[a..<b] = a # [Suc a..<b]" by (simp add: upt_conv_Cons)
  have a: "a < seg_count (sn_text m)" using ab Suc.prems by simp
  have "count_below matched (Suc a) \<le> count_below matched (Suc (Suc a))" by (intro count_below_mono) simp
  then obtain cursor' where "render_grep_lines x matched [Suc a..<b]
      (body @ grep_text_line (sn_text m) matched a, count_below matched (Suc a)) m =
      (Inr ((body @ grep_text_line (sn_text m) matched a) @
        concat (map (grep_text_line (sn_text m) matched) [Suc a..<b]), cursor'), m)"
    "cursor' \<le> count_below matched (Suc (max (Suc a) b))"
    using Suc.hyps(1) [OF ab(2) Suc.prems(1)] by blast
  moreover have "max (Suc a) b = max a b" using ab by simp
  ultimately show ?case
    unfolding upt using render_grep_line_run [OF m a strict Suc.prems(2)] by (simp add: comp_simps)
qed

lemma render_spans_run:
  assumes m: "page_state x m" and strict: "sorted_wrt (<) matched"
  shows "\<forall>s\<in>set spans. snd s \<le> seg_count (sn_text m) \<Longrightarrow>
    sorted_wrt (\<lambda>s t. fst s \<le> fst t \<and> snd s \<le> fst t) spans \<Longrightarrow>
    (\<forall>s\<in>set spans. cursor \<le> count_below matched (Suc (fst s))) \<Longrightarrow>
    \<exists>cursor'. render_spans x matched i spans (body, cursor) m =
      (Inr (body @ spans_body (sn_text m) matched i spans, cursor'), m)"
proof (induction spans arbitrary: i body cursor)
  case (Cons s spans)
  let ?body = "if i > 0 then body @ ''--'' @ [LF] else body"
  obtain c1 where c1: "render_grep_lines x matched [fst s..<snd s] (?body, cursor) m =
      (Inr (?body @ concat (map (grep_text_line (sn_text m) matched) [fst s..<snd s]), c1), m)"
    "c1 \<le> count_below matched (Suc (max (fst s) (snd s)))"
    using render_grep_lines_run [OF m strict, of "snd s" cursor "fst s" ?body] Cons.prems by auto
  have "\<forall>t\<in>set spans. c1 \<le> count_below matched (Suc (fst t))"
  proof
    fix t assume "t \<in> set spans"
    then have "max (fst s) (snd s) \<le> fst t" using Cons.prems(2) by simp
    then show "c1 \<le> count_below matched (Suc (fst t))" using c1(2) count_below_mono le_trans by (meson Suc_le_mono)
  qed
  then obtain c2 where "render_spans x matched (Suc i) spans
      (?body @ concat (map (grep_text_line (sn_text m) matched) [fst s..<snd s]), c1) m =
      (Inr ((?body @ concat (map (grep_text_line (sn_text m) matched) [fst s..<snd s])) @
        spans_body (sn_text m) matched (Suc i) spans, c2), m)"
    using Cons.IH [of c1 "Suc i" "?body @ concat (map (grep_text_line (sn_text m) matched) [fst s..<snd s])"] Cons.prems
    by auto
  then show ?case using c1(1) by (auto simp: comp_simps)
qed (simp add: comp_simps)

text \<open>How many lines \<open>str::lines\<close> would give: the empty last segment is not one.\<close>

definition line_total :: "bytes \<Rightarrow> nat" where
  "line_total text = (if text = [] \<or> last text = LF then seg_count text - 1 else seg_count text)"

lemma searchable_lines_eq: "wf_snapshot x s \<Longrightarrow> searchable_lines s = line_total (sn_text s)"
  using wf_line_count [of x s] by (simp add: searchable_lines_def line_total_def unat_sat_sub_u64)

lemma trim_spans_sorted:
  "spans_ok spans \<Longrightarrow> sorted_wrt (\<lambda>s t. fst s \<le> fst t \<and> snd s \<le> fst t) (trim_spans n spans)"
  by (induction spans) (fastforce simp: spans_ok_def trim_spans_def)+

lemma render_hit_content:
  assumes x: "externs_ok x" and ok: "text_ok bytes" and room: "x_reserve x (seg_count bytes)"
    and strict: "sorted_wrt (<) matched" and range: "\<forall>n\<in>set matched. n - 1 + after < usize_max"
  shows "render_hit x lossy bytes rel matched before after Content =
    Inr \<lparr>fh_rel = rel,
      fh_header = snapshot_header_render (x_json x) (text_header (lossy rel) (content_id x bytes) bytes),
      fh_body = spans_body bytes matched 0 (trim_spans (line_total bytes) (included_spans matched before after)),
      fh_matches = length matched\<rparr>"
proof -
  let ?s = "fresh_snapshot x bytes None" and ?spans = "trim_spans (line_total bytes) (included_spans matched before after)"
  have wf: "wf_snapshot x ?s" using ok by simp
  have fit: "offsets_fit x ?s" using room by (simp add: offsets_fit_def)
  have m: "page_state x (materialized x ?s)" by (rule page_state_materialized [OF x wf fit])
  obtain offsets where "snapshot_offsets x ?s = (Inr offsets, materialized x ?s)"
    using snapshot_offsets_ok [OF x wf fit] by blast
  then have mat: "materialize_offsets x ?s = (Inr (offsets_kind offsets), materialized x ?s)"
    by (simp add: materialize_offsets_def comp_simps)
  have "sorted matched" using strict by (rule strict_sorted_imp_sorted)
  then have "spans_ok (included_spans matched before after)" using included_spans_ok range by blast
  then have sorted: "sorted_wrt (\<lambda>s t. fst s \<le> fst t \<and> snd s \<le> fst t) ?spans" by (rule trim_spans_sorted)
  have "line_total bytes \<le> seg_count bytes" by (simp add: line_total_def)
  then have "\<forall>s\<in>set ?spans. snd s \<le> seg_count (sn_text (materialized x ?s))"
    by (auto simp: trim_spans_def)
  from render_spans_run [OF m strict this sorted, of 0 0 "[]"]
  obtain cursor where spans: "render_spans x matched 0 ?spans ([], 0) (materialized x ?s) =
      (Inr (spans_body bytes matched 0 ?spans, cursor), materialized x ?s)" by auto
  have lines: "searchable_lines (materialized x ?s) = line_total bytes"
    using searchable_lines_eq [of x "materialized x ?s"] wf by simp
  have header: "snapshot_header_new (lossy rel) (sn_id (materialized x ?s)) (sn_line_count (materialized x ?s))
      (sn_byte_len (materialized x ?s)) = Inr (text_header (lossy rel) (content_id x bytes) bytes)"
    using header_of_snapshot [OF wf, of "lossy rel"] by simp
  show ?thesis
    unfolding render_hit_def
    by (simp add: from_validated_bytes_ok [OF x ok] comp_simps mat Let_def lines header spans del: materialized_simps)
qed

section \<open>The contract of the searcher\<close>

definition callback_numbers :: "u64 option list \<Rightarrow> nat list" where
  "callback_numbers callbacks = List.map_filter (\<lambda>n. Option.bind n usize_of_u64) callbacks"

text \<open>Documented behaviour: line numbers ascend, start at one and are lines of the haystack.\<close>

definition search_ok :: "searcher \<Rightarrow> bool" where
  "search_ok search \<longleftrightarrow> (\<forall>content callbacks binary. search content = Some (callbacks, binary) \<longrightarrow>
     sorted (callback_numbers callbacks) \<and>
     (\<forall>n\<in>set (callback_numbers callbacks). 1 \<le> n \<and> n \<le> seg_count content))"

lemma strict_remdups_adj: "sorted (xs :: nat list) \<Longrightarrow> sorted_wrt (<) (remdups_adj xs)"
proof (induction xs rule: remdups_adj.induct)
  case (3 x y xs)
  then show ?case by (cases "x = y") (auto simp: le_neq_implies_less intro: le_less_trans)
qed auto

lemma match_lines_strict:
  assumes "search_ok search" "match_lines search content = Some lines"
  shows "sorted_wrt (<) lines" "\<forall>n\<in>set lines. 1 \<le> n \<and> n \<le> seg_count content"
proof -
  obtain callbacks binary where s: "search content = Some (callbacks, binary)"
    "lines = remdups_adj (callback_numbers callbacks)"
    using assms(2) sink_lines
    by (auto simp: match_lines_def Let_def sink_finish_def callback_numbers_def split: option.splits if_splits)
  have ok: "sorted (callback_numbers callbacks)"
    "\<forall>n\<in>set (callback_numbers callbacks). 1 \<le> n \<and> n \<le> seg_count content"
    using assms(1) s(1) unfolding search_ok_def by blast+
  then show "sorted_wrt (<) lines" "\<forall>n\<in>set lines. 1 \<le> n \<and> n \<le> seg_count content"
    using strict_remdups_adj s(2) by simp_all
qed

section \<open>The walk does not depend on its schedule\<close>

text \<open>What one entry contributes, whoever visits it and whenever.\<close>

definition entry_search :: "grep_job \<Rightarrow> path \<Rightarrow> walk_entry \<Rightarrow> (protocol_error fault + file_hit option) \<times> grep_ctx" where
  "entry_search job root entry =
     (case entry of
        EntryError \<Rightarrow> (Inr None, grep_ctx_new)
      | Entry p is_file read \<Rightarrow>
          if is_file
          then search_file job p (case path_strip_prefix root p of None \<Rightarrow> p | Some r \<Rightarrow> r) read TreeEntry grep_ctx_new
          else (Inr None, grep_ctx_new))"

definition entry_ok :: "grep_job \<Rightarrow> path \<Rightarrow> walk_entry \<Rightarrow> bool" where
  "entry_ok job root entry \<longleftrightarrow> (case fst (entry_search job root entry) of Inr _ \<Rightarrow> True | Inl _ \<Rightarrow> False)"

definition entry_hit :: "grep_job \<Rightarrow> path \<Rightarrow> walk_entry \<Rightarrow> file_hit option" where
  "entry_hit job root entry = (case fst (entry_search job root entry) of Inr hit \<Rightarrow> hit | Inl _ \<Rightarrow> None)"

definition entry_hits :: "grep_job \<Rightarrow> path \<Rightarrow> walk_entry list \<Rightarrow> file_hit list" where
  "entry_hits job root entries = List.map_filter (entry_hit job root) entries"

lemma search_file_ctx:
  "search_file job p rel read target ctx =
    (fst (search_file job p rel read target grep_ctx_new),
     ctx\<lparr>gc_skipped_binary := gc_skipped_binary ctx + gc_skipped_binary (snd (search_file job p rel read target grep_ctx_new)),
       gc_skipped_utf8 := gc_skipped_utf8 ctx + gc_skipped_utf8 (snd (search_file job p rel read target grep_ctx_new))\<rparr>)"
  by (simp add: search_file_def comp_simps grep_ctx_new_def
      split: sum.split grep_target.split grep_text.split option.split fault.split)

lemma grep_visit_run:
  assumes "entry_ok job root entry"
  shows "\<exists>answer total. grep_visit job root q worker entry w =
    (Inr answer, w\<lparr>gw_ctx := (gw_ctx w)\<lparr>gc_total := total,
        gc_skipped_binary := gc_skipped_binary (gw_ctx w) + gc_skipped_binary (snd (entry_search job root entry)),
        gc_skipped_utf8 := gc_skipped_utf8 (gw_ctx w) + gc_skipped_utf8 (snd (entry_search job root entry))\<rparr>,
      gw_hits := (gw_hits w)(worker := gw_hits w worker @ entry_hits job root [entry])\<rparr>)"
proof (cases entry)
  case EntryError
  then show ?thesis
    by (intro exI [of _ Continue] exI [of _ "gc_total (gw_ctx w)"])
      (simp add: grep_visit_def entry_search_def entry_hits_def entry_hit_def map_filter_def grep_ctx_new_def)
next
  case (Entry p is_file read)
  let ?rel = "case path_strip_prefix root p of None \<Rightarrow> p | Some r \<Rightarrow> r"
  show ?thesis
  proof (cases is_file)
    case False
    then show ?thesis using Entry
      by (intro exI [of _ Continue] exI [of _ "gc_total (gw_ctx w)"])
        (simp add: grep_visit_def entry_search_def entry_hits_def entry_hit_def map_filter_def grep_ctx_new_def)
  next
    case True
    obtain r c where rc: "search_file job p ?rel read TreeEntry grep_ctx_new = (r, c)" by fastforce
    then have search: "entry_search job root entry = (r, c)" using Entry True by (simp add: entry_search_def)
    have run: "search_file job p ?rel read TreeEntry (gw_ctx w) =
        (r, (gw_ctx w)\<lparr>gc_skipped_binary := gc_skipped_binary (gw_ctx w) + gc_skipped_binary c,
          gc_skipped_utf8 := gc_skipped_utf8 (gw_ctx w) + gc_skipped_utf8 c\<rparr>)"
      using search_file_ctx [of job p ?rel read TreeEntry "gw_ctx w"] rc by simp
    obtain hit where r: "r = Inr hit" using assms search by (cases r) (auto simp: entry_ok_def)
    have eff: "entry_search job root (Entry p True read) = (Inr hit, c)" using search r Entry True by simp
    show ?thesis
    proof (cases hit)
      case None
      then show ?thesis
        using eff by (intro exI [of _ Continue] exI [of _ "gc_total (gw_ctx w)"])
          (simp add: grep_visit_def Entry True run r entry_hits_def entry_hit_def map_filter_def)
    next
      case (Some h)
      let ?found = "gc_total (gw_ctx w) + of_nat (fh_matches h)"
      show ?thesis
        using eff by (intro exI [of _ "if unat ?found > q then Quit else Continue"] exI [of _ ?found])
          (simp add: grep_visit_def Entry True run r Some Let_def entry_hits_def entry_hit_def map_filter_def)
    qed
  qed
qed

definition worker_entries :: "schedule \<Rightarrow> nat \<Rightarrow> walk_entry list" where
  "worker_entries sch k = map snd (filter (\<lambda>(worker, _). worker = k) sch)"

lemma entry_hits_append: "entry_hits job root (xs @ ys) = entry_hits job root xs @ entry_hits job root ys"
  by (simp add: entry_hits_def map_filter_def)

lemma worker_hits_Cons:
  "entry_hits job root (worker_entries ((worker, entry) # sch) k) =
    (if worker = k then entry_hits job root [entry] else []) @ entry_hits job root (worker_entries sch k)"
  by (simp add: worker_entries_def entry_hits_def map_filter_def)

lemma grep_visits_run:
  "\<forall>entry\<in>set (map snd sch). entry_ok job root entry \<Longrightarrow>
    \<exists>answers w'. grep_visits job root q sch w = (Inr answers, w') \<and>
      gc_error (gw_ctx w') = gc_error (gw_ctx w) \<and>
      gc_skipped_binary (gw_ctx w') = gc_skipped_binary (gw_ctx w) +
        (\<Sum>e\<leftarrow>map snd sch. gc_skipped_binary (snd (entry_search job root e))) \<and>
      gc_skipped_utf8 (gw_ctx w') = gc_skipped_utf8 (gw_ctx w) +
        (\<Sum>e\<leftarrow>map snd sch. gc_skipped_utf8 (snd (entry_search job root e))) \<and>
      (\<forall>k. gw_hits w' k = gw_hits w k @ entry_hits job root (worker_entries sch k))"
proof (induction sch arbitrary: w)
  case Nil
  then show ?case by (simp add: comp_simps worker_entries_def entry_hits_def map_filter_def)
next
  case (Cons we sch)
  obtain worker entry where we: "we = (worker, entry)" by (cases we)
  have "entry_ok job root entry" using Cons.prems we by simp
  from grep_visit_run [OF this, of q worker w] obtain answer total where v:
    "grep_visit job root q worker entry w =
    (Inr answer, w\<lparr>gw_ctx := (gw_ctx w)\<lparr>gc_total := total,
        gc_skipped_binary := gc_skipped_binary (gw_ctx w) + gc_skipped_binary (snd (entry_search job root entry)),
        gc_skipped_utf8 := gc_skipped_utf8 (gw_ctx w) + gc_skipped_utf8 (snd (entry_search job root entry))\<rparr>,
      gw_hits := (gw_hits w)(worker := gw_hits w worker @ entry_hits job root [entry])\<rparr>)" (is "_ = (_, ?w1)")
    by blast
  from Cons.IH [of ?w1] Cons.prems obtain answers w' where rest: "grep_visits job root q sch ?w1 = (Inr answers, w')"
    and facts: "gc_error (gw_ctx w') = gc_error (gw_ctx ?w1)"
      "gc_skipped_binary (gw_ctx w') = gc_skipped_binary (gw_ctx ?w1) +
        (\<Sum>e\<leftarrow>map snd sch. gc_skipped_binary (snd (entry_search job root e)))"
      "gc_skipped_utf8 (gw_ctx w') = gc_skipped_utf8 (gw_ctx ?w1) +
        (\<Sum>e\<leftarrow>map snd sch. gc_skipped_utf8 (snd (entry_search job root e)))"
      "\<forall>k. gw_hits w' k = gw_hits ?w1 k @ entry_hits job root (worker_entries sch k)"
    by auto
  have hits: "entry_hits job root (worker_entries (we # sch) k) =
      (if worker = k then entry_hits job root [entry] else []) @ entry_hits job root (worker_entries sch k)" for k
    unfolding we by (rule worker_hits_Cons)
  have "grep_visits job root q (we # sch) w = (Inr (answer # answers), w')"
    using v rest by (simp add: we comp_simps)
  moreover have "\<forall>k. gw_hits w' k = gw_hits w k @ entry_hits job root (worker_entries (we # sch) k)"
    using facts(4) hits by (auto simp: fun_upd_def)
  ultimately show ?case using facts(1-3) we by (intro exI conjI) (simp_all add: algebra_simps)
qed

lemma concat_drop_visitors: "concat (drop_visitors w drops) = concat (map (gw_hits w) drops)"
  by (induction drops) auto

lemma mset_concat_update:
  "distinct ks \<Longrightarrow> k \<in> set ks \<Longrightarrow>
    mset (concat (map (f(k := y @ f k)) ks)) = mset y + mset (concat (map f ks))"
proof (induction ks)
  case (Cons j ks)
  show ?case
  proof (cases "j = k")
    case True
    then have "concat (map (f(k := y @ f k)) ks) = concat (map f ks)"
      using Cons.prems by (intro arg_cong [of _ _ concat] map_cong) auto
    with True show ?thesis by (simp del: fun_upd_apply add: fun_upd_same)
  next
    case False
    then show ?thesis using Cons by simp
  qed
qed simp

lemma mset_worker_hits:
  "distinct drops \<Longrightarrow> set (map fst sch) \<subseteq> set drops \<Longrightarrow>
    mset (concat (map (\<lambda>k. entry_hits job root (worker_entries sch k)) drops)) =
    mset (entry_hits job root (map snd sch))"
proof (induction sch)
  case Nil
  then show ?case by (simp add: worker_entries_def entry_hits_def map_filter_def)
next
  case (Cons we sch)
  obtain worker entry where we: "we = (worker, entry)" by (cases we)
  let ?f = "\<lambda>k. entry_hits job root (worker_entries sch k)"
  have "(\<lambda>k. entry_hits job root (worker_entries (we # sch) k)) =
      ?f(worker := entry_hits job root [entry] @ ?f worker)"
    unfolding we worker_hits_Cons by (intro ext) simp
  then have "mset (concat (map (\<lambda>k. entry_hits job root (worker_entries (we # sch) k)) drops)) =
      mset (entry_hits job root [entry]) + mset (concat (map ?f drops))"
    using mset_concat_update [of drops worker ?f "entry_hits job root [entry]"] Cons.prems we by simp
  also have "\<dots> = mset (entry_hits job root ([entry] @ map snd sch))"
    using Cons we unfolding entry_hits_append by simp
  finally show ?case by (simp add: we)
qed

lemma mset_entry_hits: "mset xs = mset ys \<Longrightarrow> mset (entry_hits job root xs) = mset (entry_hits job root ys)"
  by (simp add: entry_hits_def map_filter_def)

lemma grep_tree_run:
  assumes ok: "\<forall>entry\<in>set (map snd sch). entry_ok job root entry"
    and drops: "distinct drops" "set (map fst sch) \<subseteq> set drops"
  shows "\<exists>hits. mset hits = mset (entry_hits job root (map snd sch)) \<and>
    grep_tree job root max_matches sch drops =
      Inr (assemble_output (gj_lossy job) (gj_mode job) (sort_hits hits) max_matches
        (\<Sum>e\<leftarrow>map snd sch. gc_skipped_binary (snd (entry_search job root e)))
        (\<Sum>e\<leftarrow>map snd sch. gc_skipped_utf8 (snd (entry_search job root e))))"
proof -
  let ?w = "\<lparr>gw_ctx = grep_ctx_new, gw_hits = \<lambda>_. []\<rparr>"
  obtain answers w' where run: "grep_visits job root (sat_mul_usize max_matches 8) sch ?w = (Inr answers, w')"
    and facts: "gc_error (gw_ctx w') = None"
      "gc_skipped_binary (gw_ctx w') = (\<Sum>e\<leftarrow>map snd sch. gc_skipped_binary (snd (entry_search job root e)))"
      "gc_skipped_utf8 (gw_ctx w') = (\<Sum>e\<leftarrow>map snd sch. gc_skipped_utf8 (snd (entry_search job root e)))"
      "\<forall>k. gw_hits w' k = entry_hits job root (worker_entries sch k)"
    using grep_visits_run [OF ok, of "sat_mul_usize max_matches 8" ?w] by (auto simp: grep_ctx_new_def)
  have "gw_hits w' = (\<lambda>k. entry_hits job root (worker_entries sch k))" using facts(4) by auto
  then have "mset (concat (drop_visitors w' drops)) = mset (entry_hits job root (map snd sch))"
    using mset_worker_hits [OF drops] by (simp add: concat_drop_visitors)
  then show ?thesis
    by (intro exI [of _ "concat (drop_visitors w' drops)"]) (simp add: grep_tree_def run facts Let_def)
qed

lemma sort_hits_unique:
  assumes "mset hs = mset hs'" "distinct (map (\<lambda>hit. path_key (fh_rel hit)) hs)"
  shows "sort_hits hs = sort_hits hs'"
proof -
  have "inj_on (\<lambda>hit. path_key (fh_rel hit)) (set hs)" using assms(2) by (simp add: distinct_map)
  then show ?thesis
    unfolding sort_hits_def using assms(1) by (intro sort_key_inj_key_eq) simp_all
qed

lemma sum_list_mset_cong:
  fixes f :: "'a \<Rightarrow> 'b :: comm_monoid_add"
  shows "mset xs = mset ys \<Longrightarrow> sum_list (map f xs) = sum_list (map f ys)"
  by (metis mset_map sum_mset_sum_list)

section \<open>No panic\<close>

lemma render_hit_no_panic:
  assumes x: "externs_ok x" and ok: "text_ok bytes" and strict: "sorted_wrt (<) matched"
    and range: "\<forall>n\<in>set matched. n - 1 + after < usize_max"
  shows "render_hit x lossy bytes rel matched before after mode \<noteq> Inl Panic"
proof (cases "mode = Content \<and> \<not> x_reserve x (seg_count bytes)")
  case True
  let ?s = "fresh_snapshot x bytes None"
  have wf: "wf_snapshot x ?s" using ok by simp
  have "\<not> offsets_fit x ?s" using True by (simp add: offsets_fit_def)
  from snapshot_offsets_refused [OF wf this] show ?thesis
    using True by (simp add: render_hit_def from_validated_bytes_ok [OF x ok] materialize_offsets_def comp_simps)
next
  case False
  then show ?thesis
    using render_hit_content [OF x ok _ strict range, of lossy rel before]
    by (cases "mode = Content") (auto simp: render_hit_def)
qed

lemma classify_search: "classify_grep_text bytes target = Inr (Search t) \<Longrightarrow> t = bytes \<and> text_ok bytes"
  by (auto simp: classify_grep_text_def validate_text_eq_Inr split: sum.splits contract_error.splits if_splits)

lemma match_range:
  assumes "text_ok content" "\<forall>n\<in>set lines. 1 \<le> n \<and> n \<le> seg_count content" "after \<le> 65535"
  shows "\<forall>n\<in>set lines. n - 1 + after < usize_max"
proof
  fix n assume "n \<in> set lines"
  then have "n \<le> Suc (length content)" using assms(2) seg_count_le [of content] by fastforce
  moreover have "length content \<le> max_file_len" using assms(1) by (simp add: text_ok_def)
  ultimately show "n - 1 + after < usize_max" using assms(3) by (simp add: max_file_len_def usize_max_def)
qed

lemma search_file_no_panic:
  assumes x: "externs_ok (gj_externs job)" and search: "search_ok (gj_search job)" and after: "gj_after job \<le> 65535"
  shows "fst (search_file job p rel read target ctx) \<noteq> Inl Panic"
proof (cases read)
  case (Inl e)
  then show ?thesis by (simp add: search_file_def comp_simps split: grep_target.split)
next
  case (Inr bytes)
  have "render_hit (gj_externs job) (gj_lossy job) bytes rel matched (gj_before job) (gj_after job) (gj_mode job) \<noteq> Inl Panic"
    if "classify_grep_text bytes target = Inr (Search t)" "match_lines (gj_search job) t = Some matched" for t matched
  proof -
    have t: "t = bytes" "text_ok bytes" using classify_search [OF that(1)] by auto
    note m = match_lines_strict [OF search that(2)]
    show ?thesis by (rule render_hit_no_panic [OF x t(2) m(1) match_range [OF t(2) m(2) [unfolded t(1)] after]])
  qed
  then show ?thesis
    using Inr by (auto simp: search_file_def comp_simps split: sum.split grep_text.split option.split fault.split)
qed

section \<open>Properties\<close>

text \<open>
  Property C34.  A content section on valid text: the header of the file, then its context spans
  separated by \<open>--\<close>, each line with its token and content, marked as a match exactly when it
  is one.  No index or slice of the loop panics and no line start is missing.
\<close>

theorem content_section_exact:
  assumes "externs_ok x" and "text_ok bytes" and "x_reserve x (seg_count bytes)"
    and "sorted_wrt (<) matched" and "\<forall>n\<in>set matched. n - 1 + after < usize_max"
  shows "render_hit x lossy bytes rel matched before after Content =
    Inr \<lparr>fh_rel = rel,
      fh_header = snapshot_header_render (x_json x) (text_header (lossy rel) (content_id x bytes) bytes),
      fh_body = spans_body bytes matched 0 (trim_spans (line_total bytes) (included_spans matched before after)),
      fh_matches = length matched\<rparr>"
  by (rule render_hit_content [OF assms])

theorem content_section_exact_witness:
  "map_err (\<lambda>_. ()) (render_hit plain_externs id (''a'' @ [LF] @ ''b'') ''f'' [2] 1 0 Content) =
    Inr \<lparr>fh_rel = ''f'',
      fh_header = snapshot_header_render id (text_header ''f'' (SnapshotId 3) (''a'' @ [LF] @ ''b'')),
      fh_body = grep_text_line (''a'' @ [LF] @ ''b'') [2] 0 @ grep_text_line (''a'' @ [LF] @ ''b'') [2] 1,
      fh_matches = 1\<rparr>"
proof -
  let ?t = "''a'' @ [LF] @ ''b''"
  have t: "text_ok ?t" by (simp add: text_ok_def max_file_len_def utf8_ok_ascii code_of_def)
  have room: "x_reserve plain_externs (seg_count ?t)" by (simp add: plain_externs_def)
  have strict: "sorted_wrt (<) [2 :: nat]" and range: "\<forall>n\<in>set [2 :: nat]. n - 1 + 0 < usize_max"
    by (simp_all add: usize_max_def)
  have spans: "trim_spans (line_total ?t) (included_spans [2] 1 0) = [(0, 2)]"
    by (simp add: included_spans_def Let_def add_window_def sat_add_usize_def usize_max_def trim_spans_def
        line_total_def seg_count_def)
  have "x_json plain_externs = id" "content_id plain_externs ?t = SnapshotId 3"
    by (simp_all add: plain_externs_def content_id_def fun_eq_iff)
  then show ?thesis
    using content_section_exact [OF plain_externs_ok t room strict range, of id "''f''" 1]
    unfolding spans by (simp add: upt_rec)
qed

text \<open>
  Property C17.  The answer of a tree search does not depend on the parallel walk: whichever
  worker visits an entry, in whatever order the visits take effect and the workers finish, the
  same delivered entries give the same response, if no entry fails and no two hits share a path.
\<close>

theorem grep_schedule_independent:
  assumes "mset (map snd sch) = mset (map snd sch')"
    and "\<forall>entry\<in>set (map snd sch). entry_ok job root entry"
    and "distinct (map (\<lambda>hit. path_key (fh_rel hit)) (entry_hits job root (map snd sch)))"
    and "distinct drops" and "set (map fst sch) \<subseteq> set drops"
    and "distinct drops'" and "set (map fst sch') \<subseteq> set drops'"
  shows "grep_tree job root max_matches sch drops = grep_tree job root max_matches sch' drops'"
proof -
  have ok': "\<forall>entry\<in>set (map snd sch'). entry_ok job root entry"
    using assms(1,2) by (metis set_mset_mset)
  obtain hits where hits: "mset hits = mset (entry_hits job root (map snd sch))"
    "grep_tree job root max_matches sch drops =
      Inr (assemble_output (gj_lossy job) (gj_mode job) (sort_hits hits) max_matches
        (\<Sum>e\<leftarrow>map snd sch. gc_skipped_binary (snd (entry_search job root e)))
        (\<Sum>e\<leftarrow>map snd sch. gc_skipped_utf8 (snd (entry_search job root e))))"
    using grep_tree_run [OF assms(2,4,5)] by blast
  obtain hits' where hits': "mset hits' = mset (entry_hits job root (map snd sch'))"
    "grep_tree job root max_matches sch' drops' =
      Inr (assemble_output (gj_lossy job) (gj_mode job) (sort_hits hits') max_matches
        (\<Sum>e\<leftarrow>map snd sch'. gc_skipped_binary (snd (entry_search job root e)))
        (\<Sum>e\<leftarrow>map snd sch'. gc_skipped_utf8 (snd (entry_search job root e))))"
    using grep_tree_run [OF ok' assms(6,7)] by blast
  have same: "mset hits = mset hits'"
    using hits(1) hits'(1) mset_entry_hits [OF assms(1)] by simp
  have "mset (map (\<lambda>hit. path_key (fh_rel hit)) hits) =
      mset (map (\<lambda>hit. path_key (fh_rel hit)) (entry_hits job root (map snd sch)))"
    using hits(1) by simp
  then have "distinct (map (\<lambda>hit. path_key (fh_rel hit)) hits)"
    using assms(3) mset_eq_imp_distinct_iff by blast
  then have "sort_hits hits = sort_hits hits'" using sort_hits_unique same by blast
  then show ?thesis
    unfolding hits(2) hits'(2)
      sum_list_mset_cong [OF assms(1), of "\<lambda>e. gc_skipped_binary (snd (entry_search job root e))"]
      sum_list_mset_cong [OF assms(1), of "\<lambda>e. gc_skipped_utf8 (snd (entry_search job root e))"] by simp
qed

theorem grep_schedule_independent_witness:
  "grep_tree \<lparr>gj_externs = plain_externs, gj_lossy = id, gj_search = \<lambda>_. Some ([Some 1], None),
      gj_before = 0, gj_after = 0, gj_mode = Count\<rparr> ''/r'' 5
      [(0, Entry ''/r/b'' True (Inr ''x'')), (1, Entry ''/r/a'' True (Inr ''y''))] [1, 0] =
   grep_tree \<lparr>gj_externs = plain_externs, gj_lossy = id, gj_search = \<lambda>_. Some ([Some 1], None),
      gj_before = 0, gj_after = 0, gj_mode = Count\<rparr> ''/r'' 5
      [(0, Entry ''/r/a'' True (Inr ''y'')), (0, Entry ''/r/b'' True (Inr ''x''))] [0]"
proof -
  let ?job = "\<lparr>gj_externs = plain_externs, gj_lossy = id, gj_search = \<lambda>_. Some ([Some 1], None),
      gj_before = 0, gj_after = 0, gj_mode = Count\<rparr>"
  let ?a = "Entry ''/r/a'' True (Inr ''y'')" and ?b = "Entry ''/r/b'' True (Inr ''x'')"
  have text_x: "classify_grep_text ''x'' TreeEntry = Inr (Search ''x'')" "classify_grep_text ''y'' TreeEntry = Inr (Search ''y'')"
    by (simp_all add: classify_grep_text_def text_ok_def max_file_len_def utf8_ok_ascii code_of_def)
  have rel: "path_strip_prefix ''/r'' ''/r/a'' = Some ''a''" "path_strip_prefix ''/r'' ''/r/b'' = Some ''b''"
    by code_simp+
  have search: "match_lines (gj_search ?job) t = Some [1]" for t
    by (simp add: match_lines_def Let_def sink_finish_def sink_matched_def)
  have ea: "fst (entry_search ?job ''/r'' ?a) = Inr (Some \<lparr>fh_rel = ''a'', fh_header = [], fh_body = [], fh_matches = 1\<rparr>)"
    and eb: "fst (entry_search ?job ''/r'' ?b) = Inr (Some \<lparr>fh_rel = ''b'', fh_header = [], fh_body = [], fh_matches = 1\<rparr>)"
    using search by (simp_all add: entry_search_def rel search_file_def text_x render_hit_def comp_simps)
  have keys: "path_key ''a'' \<noteq> path_key ''b''" by code_simp
  show ?thesis
    using keys by (intro grep_schedule_independent)
      (auto simp: entry_ok_def ea eb entry_hits_def entry_hit_def map_filter_def)
qed

text \<open>
  Searching a file never panics, whatever its bytes are, whatever reading it gives
  and whatever the allocator does, for every output mode and context within the request limits.
\<close>

theorem search_file_total:
  assumes "externs_ok (gj_externs job)" and "search_ok (gj_search job)" and "gj_after job \<le> 65535"
  shows "fst (search_file job p rel read target ctx) \<noteq> Inl Panic"
  by (rule search_file_no_panic [OF assms])

theorem search_file_total_witness:
  "fst (search_file \<lparr>gj_externs = plain_externs, gj_lossy = id, gj_search = \<lambda>_. Some ([], None),
      gj_before = 0, gj_after = 2, gj_mode = Content\<rparr> ''/r/a'' ''a'' (Inr [NUL]) ExplicitFile grep_ctx_new) \<noteq> Inl Panic"
proof -
  have "search_ok (\<lambda>_. Some ([], None))" by (simp add: search_ok_def callback_numbers_def map_filter_def)
  then show ?thesis
    using search_file_total [of "\<lparr>gj_externs = plain_externs, gj_lossy = id, gj_search = \<lambda>_. Some ([], None),
      gj_before = 0, gj_after = 2, gj_mode = Content\<rparr>"] by simp
qed

end
