(* ===== verification/Glob_Listing.thy ===== *)
theory Glob_Listing
  imports Grep_Search
begin

text \<open>
  The \<open>glob\<close> tool (\<open>src/glob.rs\<close>): match the files of a walk, order them newest first and
  report the first \<open>max_results\<close> of them under a summary.  The pattern compiler and the walk of
  the ignore rules are parameters.
\<close>

section \<open>The code\<close>

text \<open>
  One item of the walk: an error, or a path, whether its kind is known to be a file, and what
  \<open>metadata\<close> and \<open>modified\<close> give (\<open>None\<close> when either fails).
\<close>

datatype glob_item =
  WalkError
| WalkItem (wi_path: path) (wi_is_file: bool) (wi_modified: "system_time option")

text \<open>\<open>genv_glob\<close> is the builder of the matcher with a literal separator.\<close>

record glob_env =
  genv_view :: os_view
  genv_glob :: "string \<Rightarrow> string + (path \<Rightarrow> bool)"
  genv_is_dir :: "path \<Rightarrow> io_error + bool"
  genv_walk :: "path \<Rightarrow> glob_item list"

definition UNIX_EPOCH :: system_time where
  "UNIX_EPOCH = 0"

text \<open>One round of the walk loop: \<open>None\<close> is \<open>continue\<close>.\<close>

definition glob_item_entry :: "(path \<Rightarrow> bool) \<Rightarrow> path \<Rightarrow> string option \<Rightarrow> glob_item \<Rightarrow> glob_entry option" where
  "glob_item_entry is_match walk_root display_prefix item =
     (case item of
        WalkError \<Rightarrow> None
      | WalkItem p is_file modified \<Rightarrow>
          if \<not> is_file then None
          else (case path_strip_prefix walk_root p of
              None \<Rightarrow> None
            | Some relative \<Rightarrow>
                if \<not> is_match relative then None
                else
                  let display = (case display_prefix of None \<Rightarrow> relative | Some prefix \<Rightarrow> path_join prefix relative) in
                  if \<not> utf8_ok display then None
                  else Some \<lparr>ge_path = display, ge_modified = case_option UNIX_EPOCH id modified\<rparr>))"

fun glob_walk_loop :: "(path \<Rightarrow> bool) \<Rightarrow> path \<Rightarrow> string option \<Rightarrow> glob_entry list \<Rightarrow> glob_item list \<Rightarrow> glob_entry list" where
  "glob_walk_loop is_match walk_root display_prefix entries [] = entries"
| "glob_walk_loop is_match walk_root display_prefix entries (item # rest) =
     (case glob_item_entry is_match walk_root display_prefix item of
        None \<Rightarrow> glob_walk_loop is_match walk_root display_prefix entries rest
      | Some e \<Rightarrow> glob_walk_loop is_match walk_root display_prefix (entries @ [e]) rest)"

definition glob_output :: "u16 \<Rightarrow> glob_entry list \<Rightarrow> protocol_error fault + string" where
  "glob_output max_results entries =
     (let total = length entries;
          sorted = sort_reference_glob_entries entries;
          cap = unat max_results;
          truncated = total > cap;
          kept = take cap sorted in
      rbind (expect (u64_of_usize (length kept))) (\<lambda>files.
      Inr (concat (map (\<lambda>e. ge_path e @ [LF]) kept) @
        glob_summary_render \<lparr>gls_files = files, gls_truncated = truncated\<rparr>)))"

definition glob_run :: "glob_env \<Rightarrow> workspace \<Rightarrow> glob_request \<Rightarrow> protocol_error fault + string" where
  "glob_run env ws input =
     rbind (as_protocol_error (lift_err (glob_request_validate input))) (\<lambda>_.
     rbind (map_err (\<lambda>e. Err (protocol_error_new CodeInvalidPattern
              (''Invalid glob pattern \"'' @ gl_pattern input @ ''\": '' @ e)))
            (genv_glob env (gl_pattern input))) (\<lambda>is_match.
     rbind (lift_err (resolve_workspace_path (genv_view env) ws (case_option ''.'' id (gl_path input)))) (\<lambda>walk_root.
     rbind (map_err (\<lambda>_. Err (protocol_error_new CodeNotFound (''Glob path not found: '' @ walk_root)))
            (genv_is_dir env walk_root)) (\<lambda>is_dir.
     if \<not> is_dir then
       Inl (Err (protocol_error_new CodeNotAFile (''Glob path is not a directory: '' @ walk_root)))
     else
       let display_prefix = (case gl_path input of Some p \<Rightarrow> if p \<noteq> ''.'' then Some p else None | None \<Rightarrow> None);
           entries = glob_walk_loop is_match walk_root display_prefix [] (genv_walk env walk_root) in
       glob_output (gl_max_results input) entries))))"

definition run_glob :: "(protocol_error \<Rightarrow> string + string) \<Rightarrow> glob_env \<Rightarrow> workspace \<Rightarrow> glob_request \<Rightarrow> unit fault + tool_outcome" where
  "run_glob encode env ws input =
     (case glob_run env ws input of
        Inr t \<Rightarrow> Inr (outcome_success t)
      | Inl (Err e) \<Rightarrow> Inr (protocol_outcome encode e)
      | Inl Panic \<Rightarrow> Inl Panic)"

section \<open>What is listed\<close>

text \<open>The files the request asks for: everything the walk yields that the loop keeps.\<close>

definition glob_found :: "glob_env \<Rightarrow> path \<Rightarrow> (path \<Rightarrow> bool) \<Rightarrow> string option \<Rightarrow> glob_entry list" where
  "glob_found env walk_root is_match path =
     List.map_filter (glob_item_entry is_match walk_root
       (case path of Some p \<Rightarrow> if p \<noteq> ''.'' then Some p else None | None \<Rightarrow> None)) (genv_walk env walk_root)"

definition newer :: "glob_entry \<Rightarrow> glob_entry \<Rightarrow> bool" where
  "newer a b \<longleftrightarrow> ge_modified a > ge_modified b \<or>
     (ge_modified a = ge_modified b \<and> map code_of (ge_path a) \<le> map code_of (ge_path b))"

lemma glob_walk_loop_eq:
  "glob_walk_loop is_match root prefix entries items =
    entries @ List.map_filter (glob_item_entry is_match root prefix) items"
  by (induction items arbitrary: entries) (auto simp: map_filter_simps split: option.splits)

lemma newer_key: "newer a b \<longleftrightarrow> glob_key a \<le> glob_key b"
  by (auto simp: newer_def glob_key_def less_eq_prod_def less_prod_def)

lemma glob_output_eq:
  assumes "unat m \<le> usize_max"
  shows "glob_output m entries =
    (let kept = take (unat m) (sort_reference_glob_entries entries) in
     Inr (concat (map (\<lambda>e. ge_path e @ [LF]) kept) @
       glob_summary_render \<lparr>gls_files = of_nat (length kept), gls_truncated = unat m < length entries\<rparr>))"
proof -
  have "length (take (unat m) (sort_reference_glob_entries entries)) \<le> usize_max" using assms by simp
  then show ?thesis by (simp add: glob_output_def Let_def u64_of_usize_def)
qed

lemma u16_usize: "unat (m :: u16) \<le> usize_max"
  using unsigned_less [of m, where 'a = nat] by (simp add: usize_max_def)

lemma sort_glob_newer: "sorted_wrt newer (sort_reference_glob_entries es)"
  using sort_glob_sorted [of es] by (simp only: sorted_map newer_key [abs_def])

lemma glob_output_cong: "mset es = mset es' \<Longrightarrow> glob_output m es = glob_output m es'"
  unfolding glob_output_def using sort_glob_unique by (metis size_mset)

lemma glob_run_ok:
  assumes "glob_request_validate req = Inr ()" "genv_glob env (gl_pattern req) = Inr is_match"
    and "resolve_workspace_path (genv_view env) ws (case_option ''.'' id (gl_path req)) = Inr root"
    and "genv_is_dir env root = Inr True"
  shows "glob_run env ws req = glob_output (gl_max_results req) (glob_found env root is_match (gl_path req))"
  using assms by (simp add: glob_run_def as_protocol_error_def glob_walk_loop_eq glob_found_def Let_def)

section \<open>Properties\<close>

text \<open>
  Property C31.  A successful listing is the newest \<open>max_results\<close> of the matching files: every
  matching file is either shown or omitted, no omitted file is newer than a shown one, the shown
  ones are in order, and the summary counts them and says \<open>truncated\<close> exactly when some file was
  omitted.
\<close>

theorem glob_listing_exact:
  assumes "glob_request_validate req = Inr ()" "genv_glob env (gl_pattern req) = Inr is_match"
    and "resolve_workspace_path (genv_view env) ws (case_option ''.'' id (gl_path req)) = Inr root"
    and "genv_is_dir env root = Inr True"
  shows "\<exists>shown omitted.
    glob_run env ws req = Inr (concat (map (\<lambda>e. ge_path e @ [LF]) shown) @
      glob_summary_render \<lparr>gls_files = of_nat (length shown), gls_truncated = (omitted \<noteq> [])\<rparr>) \<and>
    mset shown + mset omitted = mset (glob_found env root is_match (gl_path req)) \<and>
    length shown = min (unat (gl_max_results req)) (length (glob_found env root is_match (gl_path req))) \<and>
    sorted_wrt newer shown \<and> (\<forall>s\<in>set shown. \<forall>h\<in>set omitted. newer s h)"
proof -
  let ?es = "glob_found env root is_match (gl_path req)" and ?m = "unat (gl_max_results req)"
  let ?s = "sort_reference_glob_entries ?es"
  have len: "length ?s = length ?es" using sort_glob_mset [of ?es] by (metis size_mset)
  have parts: "sorted_wrt newer (take ?m ?s @ drop ?m ?s)" using sort_glob_newer by simp
  have "glob_run env ws req = Inr (concat (map (\<lambda>e. ge_path e @ [LF]) (take ?m ?s)) @
      glob_summary_render \<lparr>gls_files = of_nat (length (take ?m ?s)), gls_truncated = (drop ?m ?s \<noteq> [])\<rparr>)"
    by (simp add: glob_run_ok [OF assms] glob_output_eq [OF u16_usize] len Let_def not_le)
  moreover have "mset (take ?m ?s) + mset (drop ?m ?s) = mset ?es"
    by (simp add: sort_glob_mset flip: mset_append)
  moreover have "length (take ?m ?s) = min ?m (length ?es)" by (simp add: len)
  ultimately show ?thesis using parts unfolding sorted_wrt_append by blast
qed

theorem glob_listing_exact_witness:
  "glob_run \<lparr>genv_view = \<lparr>v_exists = \<lambda>_. True, v_canonicalize = Inr\<rparr>, genv_glob = \<lambda>_. Inr (\<lambda>_. True),
      genv_is_dir = \<lambda>_. Inr True, genv_walk = \<lambda>_. [WalkError, WalkItem ''/w/a'' True (Some 1)]\<rparr>
     (workspace_new ''/w'' False) \<lparr>gl_pattern = ''*'', gl_path = None, gl_max_results = 5\<rparr> =
   Inr (''a'' @ [LF] @ ''[hashline files=1 truncated=false]'')"
proof -
  let ?env = "\<lparr>genv_view = \<lparr>v_exists = \<lambda>_. True, v_canonicalize = Inr\<rparr>, genv_glob = \<lambda>_. Inr (\<lambda>_. True),
      genv_is_dir = \<lambda>_. Inr True, genv_walk = \<lambda>_. [WalkError, WalkItem ''/w/a'' True (Some 1)]\<rparr>"
  let ?req = "\<lparr>gl_pattern = ''*'', gl_path = None, gl_max_results = 5\<rparr>"
  have found: "glob_found ?env ''/w/.'' (\<lambda>_. True) None = [\<lparr>ge_path = ''a'', ge_modified = 1\<rparr>]" by code_simp
  have one: "dec_string (Suc 0) = ''1''" by code_simp
  have "glob_request_validate ?req = Inr ()" by (simp add: glob_request_validate_def MAX_GLOB_RESULTS_def)
  from glob_listing_exact [OF this, of ?env "\<lambda>_. True" "workspace_new ''/w'' False" "''/w/.''"]
  obtain shown omitted where run: "glob_run ?env (workspace_new ''/w'' False) ?req =
      Inr (concat (map (\<lambda>e. ge_path e @ [LF]) shown) @
        glob_summary_render \<lparr>gls_files = of_nat (length shown), gls_truncated = (omitted \<noteq> [])\<rparr>)"
    and parts: "mset shown + mset omitted = {#\<lparr>ge_path = ''a'', ge_modified = 1\<rparr>#}" "length shown = 1"
    by (auto simp: found resolve_workspace_path_def workspace_resolve_def workspace_new_def resolve_path_def
        is_absolute_def path_join_def)
  then have "omitted = []" "shown = [\<lparr>ge_path = ''a'', ge_modified = 1\<rparr>]"
    by (cases shown; auto)+
  then show ?thesis unfolding run by (simp add: glob_summary_render_def bool_display_def one)
qed

text \<open>
  The listing depends on the set of files, not on the order in which the walk
  delivers them: two walks that yield the same items give the same response, whatever it is.
\<close>

theorem glob_walk_order_irrelevant:
  assumes "\<And>root. mset (genv_walk env root) = mset (genv_walk env' root)"
    and "genv_view env' = genv_view env" "genv_glob env' = genv_glob env" "genv_is_dir env' = genv_is_dir env"
  shows "run_glob encode env' ws req = run_glob encode env ws req"
proof -
  have "mset (List.map_filter f (genv_walk env' root)) = mset (List.map_filter f (genv_walk env root))" for f :: "glob_item \<Rightarrow> glob_entry option" and root
    using assms(1) [of root] unfolding map_filter_def by (metis mset_filter mset_map)
  then have "glob_output m (List.map_filter f (genv_walk env' root)) = glob_output m (List.map_filter f (genv_walk env root))"
    for f root m by (rule glob_output_cong)
  then have "glob_run env' ws req = glob_run env ws req"
    by (simp only: glob_run_def assms(2-4) glob_walk_loop_eq append_Nil Let_def)
  then show ?thesis by (simp add: run_glob_def)
qed

theorem glob_walk_order_irrelevant_witness:
  "(let env = \<lambda>walk. \<lparr>genv_view = \<lparr>v_exists = \<lambda>_. True, v_canonicalize = Inr\<rparr>, genv_glob = \<lambda>_. Inr (\<lambda>_. True),
      genv_is_dir = \<lambda>_. Inr True, genv_walk = \<lambda>_. walk\<rparr>;
        run = \<lambda>walk. run_glob (\<lambda>_. Inl ''no'') (env walk) (workspace_new ''/w'' False)
          \<lparr>gl_pattern = ''*'', gl_path = None, gl_max_results = 5\<rparr>
    in run [WalkItem ''/w/a'' True (Some 1), WalkItem ''/w/b'' True None] =
       run [WalkItem ''/w/b'' True None, WalkItem ''/w/a'' True (Some 1)])"
  unfolding Let_def by (rule glob_walk_order_irrelevant) (simp_all add: add_mset_commute)

end
