(* ===== verification/File_World.thy ===== *)
theory File_World
  imports Glob_Listing
begin

text \<open>
  The file system the tools run against, as \<open>std::fs\<close> presents it: names that map to inodes,
  inodes with bytes and times, a clock, and a script of what the rest of the system does between
  two calls (other processes, faults, short reads).  Every call takes the next entry of the
  script, so a claim for all scripts is a claim for all interleavings with other writers.  The
  world keeps a log of the states around every call, which the properties speak about.  Symbolic
  links are not part of this world: a name is its components.
\<close>

section \<open>The world\<close>

record inode =
  in_dir :: bool
  in_bytes :: bytes
  in_mtime :: file_time
  in_ctime :: file_time

text \<open>\<open>f_next\<close> is the first inode number not in use.\<close>

record fsys =
  f_names :: "component list \<Rightarrow> nat option"
  f_inodes :: "nat \<Rightarrow> inode"
  f_next :: nat

text \<open>
  A tick: what others do before the call, the time at the call, a fault of the call, and how many
  bytes (less one) a read or write transfers at most.
\<close>

record tick =
  tk_env :: "fsys \<Rightarrow> fsys"
  tk_now :: system_time
  tk_fault :: "io_error option"
  tk_chunk :: nat

definition quiet_tick :: "system_time \<Rightarrow> tick" where
  "quiet_tick now = \<lparr>tk_env = id, tk_now = now, tk_fault = None, tk_chunk = usize_max\<rparr>"

text \<open>
  \<open>w_clock\<close> gives the time stamp the kernel writes at a time, \<open>w_counter\<close> is the program's
  \<open>TEMP_COUNTER\<close>.
\<close>

record world =
  w_fs :: fsys
  w_now :: system_time
  w_script :: "tick list"
  w_log :: "(fsys \<times> fsys) list"
  w_clock :: "system_time \<Rightarrow> file_time"
  w_device :: u64
  w_pid :: nat
  w_counter :: u64

definition next_tick :: "'z world_scheme \<Rightarrow> tick" where
  "next_tick w = (case w_script w of [] \<Rightarrow> quiet_tick (w_now w) | t # _ \<Rightarrow> t)"

text \<open>A system call: the others move, then the call fails or takes effect; both states are logged.\<close>

definition syscall ::
    "(file_time \<Rightarrow> nat \<Rightarrow> fsys \<Rightarrow> (io_error + 'a) \<times> fsys) \<Rightarrow> ('z world_scheme, io_error, 'a) comp" where
  "syscall act = (\<lambda>w.
     let t = next_tick w; f = tk_env t (w_fs w);
         (r, f') = (case tk_fault t of
             Some e \<Rightarrow> (Inl e, f) | None \<Rightarrow> act (w_clock w (tk_now t)) (tk_chunk t) f)
     in (r, w\<lparr>w_fs := f', w_now := tk_now t, w_script := tl (w_script w), w_log := (f, f') # w_log w\<rparr>))"

section \<open>The calls\<close>

definition not_found :: io_error where
  "not_found = \<lparr>io_kind_of = IoNotFound, io_text = ''No such file or directory (os error 2)''\<rparr>"

definition already_exists :: io_error where
  "already_exists = \<lparr>io_kind_of = IoAlreadyExists, io_text = ''File exists (os error 17)''\<rparr>"

definition is_a_directory :: io_error where
  "is_a_directory = \<lparr>io_kind_of = IoOther, io_text = ''Is a directory (os error 21)''\<rparr>"

definition write_zero :: io_error where
  "write_zero = \<lparr>io_kind_of = IoOther, io_text = ''failed to write whole buffer''\<rparr>"

definition lookup :: "fsys \<Rightarrow> path \<Rightarrow> nat option" where
  "lookup f p = f_names f (path_components p)"

text \<open>What a name holds: the bytes of its inode.\<close>

definition content_at :: "fsys \<Rightarrow> path \<Rightarrow> bytes option" where
  "content_at f p = map_option (\<lambda>i. in_bytes (f_inodes f i)) (lookup f p)"

text \<open>The directory that must exist for a name to be created; the empty path is the current one.\<close>

definition parent_exists :: "fsys \<Rightarrow> path \<Rightarrow> bool" where
  "parent_exists f p \<longleftrightarrow>
     (let k = butlast (path_components p) in
      k = [] \<or> (case f_names f k of None \<Rightarrow> False | Some i \<Rightarrow> in_dir (f_inodes f i)))"

definition inode_metadata :: "u64 \<Rightarrow> fsys \<Rightarrow> nat \<Rightarrow> metadata" where
  "inode_metadata device f i =
     (let n = f_inodes f i in
      \<lparr>md_identity = \<lparr>fi_device = device, fi_inode = of_nat i\<rparr>, md_len = of_nat (length (in_bytes n)),
       md_mtime = in_mtime n, md_ctime = in_ctime n, md_is_file = (\<not> in_dir n)\<rparr>)"

text \<open>Observing calls.\<close>

definition sys_open :: "path \<Rightarrow> ('z world_scheme, io_error, nat) comp" where
  "sys_open p = syscall (\<lambda>now chunk f. (ok_or not_found (lookup f p), f))"

definition sys_fstat :: "nat \<Rightarrow> ('z world_scheme, io_error, metadata) comp" where
  "sys_fstat i = (\<lambda>w. syscall (\<lambda>now chunk f. (Inr (inode_metadata (w_device w) f i), f)) w)"

definition sys_stat :: "path \<Rightarrow> ('z world_scheme, io_error, metadata) comp" where
  "sys_stat p = (\<lambda>w. syscall (\<lambda>now chunk f.
     (case lookup f p of None \<Rightarrow> Inl not_found | Some i \<Rightarrow> Inr (inode_metadata (w_device w) f i), f)) w)"

definition sys_read :: "nat \<Rightarrow> nat \<Rightarrow> nat \<Rightarrow> ('z world_scheme, io_error, bytes) comp" where
  "sys_read i offset limit = syscall (\<lambda>now chunk f.
     (if in_dir (f_inodes f i) then Inl is_a_directory
      else Inr (take (min limit (Suc chunk)) (drop offset (in_bytes (f_inodes f i)))), f))"

text \<open>Changing calls.\<close>

definition sys_mkdir :: "path \<Rightarrow> ('z world_scheme, io_error, unit) comp" where
  "sys_mkdir p = syscall (\<lambda>now chunk f.
     if lookup f p \<noteq> None then (Inl already_exists, f)
     else if \<not> parent_exists f p then (Inl not_found, f)
     else (Inr (), f\<lparr>f_names := (f_names f)(path_components p := Some (f_next f)),
       f_inodes := (f_inodes f)(f_next f := \<lparr>in_dir = True, in_bytes = [], in_mtime = now, in_ctime = now\<rparr>),
       f_next := Suc (f_next f)\<rparr>))"

definition sys_create_new :: "path \<Rightarrow> ('z world_scheme, io_error, nat) comp" where
  "sys_create_new p = syscall (\<lambda>now chunk f.
     if lookup f p \<noteq> None then (Inl already_exists, f)
     else if \<not> parent_exists f p then (Inl not_found, f)
     else (Inr (f_next f), f\<lparr>f_names := (f_names f)(path_components p := Some (f_next f)),
       f_inodes := (f_inodes f)(f_next f := \<lparr>in_dir = False, in_bytes = [], in_mtime = now, in_ctime = now\<rparr>),
       f_next := Suc (f_next f)\<rparr>))"

definition write_at :: "nat \<Rightarrow> bytes \<Rightarrow> bytes \<Rightarrow> bytes" where
  "write_at offset data old =
     take offset old @ replicate (offset - length old) NUL @ data @ drop (offset + length data) old"

definition sys_write :: "nat \<Rightarrow> nat \<Rightarrow> bytes \<Rightarrow> ('z world_scheme, io_error, nat) comp" where
  "sys_write i offset data = syscall (\<lambda>now chunk f.
     let part = take (Suc chunk) data; n = f_inodes f i in
     (Inr (length part), f\<lparr>f_inodes := (f_inodes f)
        (i := n\<lparr>in_bytes := write_at offset part (in_bytes n), in_mtime := now, in_ctime := now\<rparr>)\<rparr>))"

definition sys_sync :: "nat \<Rightarrow> ('z world_scheme, io_error, unit) comp" where
  "sys_sync i = syscall (\<lambda>now chunk f. (Inr (), f))"

text \<open>Renaming and linking touch the change time of the inode; a rename onto itself does nothing.\<close>

definition touch :: "file_time \<Rightarrow> nat \<Rightarrow> fsys \<Rightarrow> fsys" where
  "touch now i f = f\<lparr>f_inodes := (f_inodes f)(i := (f_inodes f i)\<lparr>in_ctime := now\<rparr>)\<rparr>"

definition sys_rename :: "path \<Rightarrow> path \<Rightarrow> ('z world_scheme, io_error, unit) comp" where
  "sys_rename from to = syscall (\<lambda>now chunk f.
     case lookup f from of
       None \<Rightarrow> (Inl not_found, f)
     | Some i \<Rightarrow>
         if \<not> parent_exists f to then (Inl not_found, f)
         else (case lookup f to of
             Some j \<Rightarrow>
               if j = i then (Inr (), f)
               else if in_dir (f_inodes f j) then (Inl is_a_directory, f)
               else (Inr (), touch now i (f\<lparr>f_names := (f_names f)
                 (path_components from := None, path_components to := Some i)\<rparr>))
           | None \<Rightarrow> (Inr (), touch now i (f\<lparr>f_names := (f_names f)
                 (path_components from := None, path_components to := Some i)\<rparr>))))"

definition sys_hard_link :: "path \<Rightarrow> path \<Rightarrow> ('z world_scheme, io_error, unit) comp" where
  "sys_hard_link from to = syscall (\<lambda>now chunk f.
     case lookup f from of
       None \<Rightarrow> (Inl not_found, f)
     | Some i \<Rightarrow>
         if lookup f to \<noteq> None then (Inl already_exists, f)
         else if \<not> parent_exists f to then (Inl not_found, f)
         else (Inr (), touch now i (f\<lparr>f_names := (f_names f)(path_components to := Some i)\<rparr>)))"

definition sys_remove_file :: "path \<Rightarrow> ('z world_scheme, io_error, unit) comp" where
  "sys_remove_file p = syscall (\<lambda>now chunk f.
     case lookup f p of
       None \<Rightarrow> (Inl not_found, f)
     | Some i \<Rightarrow>
         if in_dir (f_inodes f i) then (Inl is_a_directory, f)
         else (Inr (), touch now i (f\<lparr>f_names := (f_names f)(path_components p := None)\<rparr>)))"

text \<open>\<open>let _ = m;\<close>: the result is dropped.\<close>

definition ignore :: "('s, 'e, 'a) comp \<Rightarrow> ('s, 'f, unit) comp" where
  "ignore m = (\<lambda>w. (Inr (), snd (m w)))"

section \<open>The compound calls of the standard library\<close>

lemma syscall_script: "syscall act w = (r, w') \<Longrightarrow> w_script w' = tl (w_script w)"
  by (auto simp: syscall_def Let_def split: prod.splits)

lemma syscall_interrupted:
  assumes "syscall act w = (Inl e, w')" "io_kind_of e = IoInterrupted"
    and "\<And>now chunk f e' f'. act now chunk f = (Inl e', f') \<Longrightarrow> io_kind_of e' \<noteq> IoInterrupted"
  shows "length (w_script w') < length (w_script w)"
proof (cases "w_script w")
  case Nil
  then have "act (w_clock w (w_now w)) usize_max (w_fs w) = (Inl e, w_fs w')"
    using assms(1) by (auto simp: syscall_def Let_def next_tick_def quiet_tick_def split: prod.splits)
  then show ?thesis using assms(2,3) by blast
next
  case (Cons t ts)
  then show ?thesis using syscall_script [OF assms(1)] by simp
qed

lemma sys_read_interrupted:
  "sys_read i off n w = (Inl e, w') \<Longrightarrow> io_kind_of e = IoInterrupted \<Longrightarrow> length (w_script w') < length (w_script w)"
  unfolding sys_read_def by (erule syscall_interrupted) (auto simp: is_a_directory_def split: if_splits)

lemma sys_write_interrupted:
  "sys_write i off d w = (Inl e, w') \<Longrightarrow> io_kind_of e = IoInterrupted \<Longrightarrow> length (w_script w') < length (w_script w)"
  unfolding sys_write_def by (erule syscall_interrupted) (auto simp: Let_def split: if_splits)

lemma sys_read_progress:
  assumes "sys_read i (length pre) n w = (Inr data, w')" "data \<noteq> []"
  shows "length (w_script w') < length (w_script w) \<or>
    length (w_script w') = length (w_script w) \<and>
    length (in_bytes (f_inodes (w_fs w') i)) - length (pre @ data) < length (in_bytes (f_inodes (w_fs w) i)) - length pre"
proof (cases "w_script w")
  case Nil
  then have "data = take (min n (Suc usize_max)) (drop (length pre) (in_bytes (f_inodes (w_fs w) i)))" "w_fs w' = w_fs w"
    "w_script w' = []"
    using assms(1) by (auto simp: sys_read_def syscall_def Let_def next_tick_def quiet_tick_def split: if_splits)
  then show ?thesis using assms(2) Nil by (auto simp: not_le)
next
  case (Cons t ts)
  then have "w_script w' = ts" using syscall_script [OF assms(1) [unfolded sys_read_def]] by simp
  then show ?thesis using Cons by simp
qed

lemma sys_write_progress:
  assumes "sys_write i off d w = (Inr n, w')" "0 < n" "d \<noteq> []"
  shows "length (w_script w') + (length d - n) < length (w_script w) + length d"
proof -
  have "length (w_script w') \<le> length (w_script w)" using syscall_script [OF assms(1) [unfolded sys_write_def]] by simp
  moreover have "length d - n < length d" using assms(2,3) by (cases d) auto
  ultimately show ?thesis by linarith
qed

text \<open>
  \<open>read_to_end\<close>, on a whole file (\<open>limit\<close> is \<open>None\<close>) or through \<open>take(n)\<close>; interrupted reads are
  retried.  The loop ends: every call uses up the script, and once it is used up the rest of the
  file shrinks.
\<close>

function read_all :: "nat \<Rightarrow> nat option \<Rightarrow> bytes \<Rightarrow> ('z world_scheme, io_error, bytes) comp" where
  "read_all i limit acc w =
     (let room = (case limit of None \<Rightarrow> usize_max | Some n \<Rightarrow> n - length acc) in
      if room = 0 then (Inr acc, w)
      else (case sys_read i (length acc) room w of
          (Inl e, w') \<Rightarrow> if io_kind_of e = IoInterrupted then read_all i limit acc w' else (Inl e, w')
        | (Inr data, w') \<Rightarrow> if data = [] then (Inr acc, w') else read_all i limit (acc @ data) w'))"
  by pat_completeness auto

termination
  by (relation "measures [\<lambda>(i, limit, acc, w). length (w_script w),
      \<lambda>(i, limit, acc, w). length (in_bytes (f_inodes (w_fs w) i)) - length acc]")
    (auto dest: sys_read_interrupted [OF sym] sys_read_progress [OF sym])

declare read_all.simps [simp del]

definition fs_read :: "path \<Rightarrow> ('z world_scheme, io_error, bytes) comp" where
  "fs_read p = bind (sys_open p) (\<lambda>i. read_all i None [])"

function write_all :: "nat \<Rightarrow> nat \<Rightarrow> bytes \<Rightarrow> ('z world_scheme, io_error, unit) comp" where
  "write_all i offset data w =
     (if data = [] then (Inr (), w)
      else (case sys_write i offset data w of
          (Inl e, w') \<Rightarrow> if io_kind_of e = IoInterrupted then write_all i offset data w' else (Inl e, w')
        | (Inr n, w') \<Rightarrow> if n = 0 then (Inl write_zero, w') else write_all i (offset + n) (drop n data) w'))"
  by pat_completeness auto

termination
  by (relation "measure (\<lambda>(i, offset, data, w). length (w_script w) + length data)")
    (auto dest: sys_write_interrupted [OF sym] sys_write_progress [OF sym])

declare write_all.simps [simp del]

definition sys_is_dir :: "path \<Rightarrow> ('z world_scheme, 'e, bool) comp" where
  "sys_is_dir p = handle (sys_stat p) (\<lambda>_. ret False) (\<lambda>m. ret (\<not> md_is_file m))"

definition whole_tree :: io_error where
  "whole_tree = \<lparr>io_kind_of = IoOther, io_text = ''failed to create whole tree''\<rparr>"

text \<open>\<open>create_dir_all\<close>: the directory, or its ancestors first.\<close>

function create_dir_all :: "path \<Rightarrow> ('z world_scheme, io_error, unit) comp" where
  "create_dir_all p =
     (if path_components p = [] then ret ()
      else handle (sys_mkdir p)
        (\<lambda>e. if io_kind_of e = IoNotFound then
           (case path_parent p of
              None \<Rightarrow> raise whole_tree
            | Some parent \<Rightarrow>
                bind (create_dir_all parent) (\<lambda>_.
                handle (sys_mkdir p) (\<lambda>e. bind (sys_is_dir p) (\<lambda>d. if d then ret () else raise e)) ret))
         else bind (sys_is_dir p) (\<lambda>d. if d then ret () else raise e)) ret)"
  by pat_completeness auto

termination by (relation "measure length") (auto dest: path_parent_shorter)

declare create_dir_all.simps [simp del]

end
