(* ===== verification/File_Logic.thy ===== *)
theory File_Logic
  imports File_World
begin

text \<open>
  Reasoning about programs over the world: a triple whose assertions speak of the file system, the
  time and the log, and whose script obeys a rely condition on every tick.  An assertion has to
  survive what the others do only at the calls.
\<close>

section \<open>Triples\<close>

type_synonym assertion = "fsys \<Rightarrow> system_time \<Rightarrow> (fsys \<times> fsys) list \<Rightarrow> bool"
type_synonym rely = "system_time \<Rightarrow> tick \<Rightarrow> bool"
type_synonym host = "(system_time \<Rightarrow> file_time) \<times> u64 \<times> nat"

definition host_of :: "'z world_scheme \<Rightarrow> host" where
  "host_of w = (w_clock w, w_device w, w_pid w)"

fun script_ok :: "rely \<Rightarrow> system_time \<Rightarrow> tick list \<Rightarrow> bool" where
  "script_ok E now [] \<longleftrightarrow> True"
| "script_ok E now (t # ts) \<longleftrightarrow> E now t \<and> script_ok E (tk_now t) ts"

definition holds :: "assertion \<Rightarrow> 'z world_scheme \<Rightarrow> bool" where
  "holds A w \<longleftrightarrow> A (w_fs w) (w_now w) (w_log w)"

definition rg :: "host \<Rightarrow> rely \<Rightarrow> assertion \<Rightarrow> ('z world_scheme, 'e, 'a) comp \<Rightarrow> ('e + 'a \<Rightarrow> assertion) \<Rightarrow> bool" where
  "rg h E A m B \<longleftrightarrow>
     (\<forall>w r w'. host_of w = h \<longrightarrow> script_ok E (w_now w) (w_script w) \<longrightarrow> holds A w \<longrightarrow> m w = (r, w') \<longrightarrow>
        host_of w' = h \<and> script_ok E (w_now w') (w_script w') \<and> holds (B r) w')"

text \<open>A tick the others may take: one the rely condition allows, or the idle one.\<close>

definition allowed :: "rely \<Rightarrow> system_time \<Rightarrow> tick \<Rightarrow> bool" where
  "allowed E now t \<longleftrightarrow> E now t \<or> t = quiet_tick now"

definition stable :: "rely \<Rightarrow> assertion \<Rightarrow> bool" where
  "stable E A \<longleftrightarrow> (\<forall>f now l t. A f now l \<longrightarrow> allowed E now t \<longrightarrow>
     A (tk_env t f) (tk_now t) ((tk_env t f, tk_env t f) # l))"

named_theorems rg_rules

lemma rgI:
  assumes "\<And>w r w'. host_of w = h \<Longrightarrow> script_ok E (w_now w) (w_script w) \<Longrightarrow> holds A w \<Longrightarrow> m w = (r, w') \<Longrightarrow>
    host_of w' = h \<and> script_ok E (w_now w') (w_script w') \<and> holds (B r) w'"
  shows "rg h E A m B"
  using assms unfolding rg_def by blast

lemma rgD:
  assumes "rg h E A m B" "host_of w = h" "script_ok E (w_now w) (w_script w)" "holds A w" "m w = (r, w')"
  shows "host_of w' = h" "script_ok E (w_now w') (w_script w')" "holds (B r) w'"
  using assms unfolding rg_def by blast+

lemma rg_conseq:
  assumes "rg h E A' m B'" "\<And>f now l. A f now l \<Longrightarrow> A' f now l" "\<And>r f now l. B' r f now l \<Longrightarrow> B r f now l"
  shows "rg h E A m B"
  using assms unfolding rg_def holds_def by blast

lemma rg_post: "rg h E A m B' \<Longrightarrow> (\<And>r f now l. B' r f now l \<Longrightarrow> B r f now l) \<Longrightarrow> rg h E A m B"
  by (rule rg_conseq)

lemma rg_pre: "rg h E A' m B \<Longrightarrow> (\<And>f now l. A f now l \<Longrightarrow> A' f now l) \<Longrightarrow> rg h E A m B"
  by (rule rg_conseq)

lemma rg_ret: "(\<And>f now l. A f now l \<Longrightarrow> B (Inr x) f now l) \<Longrightarrow> rg h E A (ret x) B"
  by (auto simp: rg_def ret_def holds_def)

lemma rg_raise: "(\<And>f now l. A f now l \<Longrightarrow> B (Inl e) f now l) \<Longrightarrow> rg h E A (raise e) B"
  by (auto simp: rg_def raise_def holds_def)

lemma rg_lift: "(\<And>f now l. A f now l \<Longrightarrow> B m f now l) \<Longrightarrow> rg h E A (lift m) B"
  by (auto simp: rg_def lift_def holds_def)

lemma rg_bind:
  assumes "rg h E A m (\<lambda>r. case r of Inl e \<Rightarrow> B (Inl e) | Inr x \<Rightarrow> C x)" "\<And>x. rg h E (C x) (k x) B"
  shows "rg h E A (bind m k) B"
proof (rule rgI)
  fix w r w' assume w: "host_of w = h" "script_ok E (w_now w) (w_script w)" "holds A w" "bind m k w = (r, w')"
  obtain q w1 where q: "m w = (q, w1)" by (cases "m w")
  note one = rgD [OF assms(1) w(1-3) q]
  show "host_of w' = h \<and> script_ok E (w_now w') (w_script w') \<and> holds (B r) w'"
  proof (cases q)
    case (Inl e)
    then show ?thesis using one w(4) q by (simp add: bind_def)
  next
    case (Inr x)
    then have "k x w1 = (r, w')" "holds (C x) w1" using w(4) q one by (simp_all add: bind_def)
    then show ?thesis using rgD [OF assms(2) one(1,2)] by blast
  qed
qed

lemma rg_handle:
  assumes "rg h E A m (\<lambda>r. case r of Inl e \<Rightarrow> D e | Inr x \<Rightarrow> C x)"
    and "\<And>e. rg h E (D e) (g e) B" "\<And>x. rg h E (C x) (k x) B"
  shows "rg h E A (handle m g k) B"
proof (rule rgI)
  fix w r w' assume w: "host_of w = h" "script_ok E (w_now w) (w_script w)" "holds A w" "handle m g k w = (r, w')"
  obtain q w1 where q: "m w = (q, w1)" by (cases "m w")
  note one = rgD [OF assms(1) w(1-3) q]
  show "host_of w' = h \<and> script_ok E (w_now w') (w_script w') \<and> holds (B r) w'"
  proof (cases q)
    case (Inl e)
    then have "g e w1 = (r, w')" "holds (D e) w1" using w(4) q one by (simp_all add: handle_def)
    then show ?thesis using rgD [OF assms(2) one(1,2)] by blast
  next
    case (Inr x)
    then have "k x w1 = (r, w')" "holds (C x) w1" using w(4) q one by (simp_all add: handle_def)
    then show ?thesis using rgD [OF assms(3) one(1,2)] by blast
  qed
qed

lemma rg_with_err:
  fixes m :: "('z world_scheme, 'e, 'a) comp"
  assumes "rg h E A m (\<lambda>r. B (map_err g r))"
  shows "rg h E A (with_err g m) B"
proof (rule rgI)
  fix w :: "'z world_scheme" and r w'
  assume w: "host_of w = h" "script_ok E (w_now w) (w_script w)" "holds A w" "with_err g m w = (r, w')"
  have "m w = (fst (m w), w')" "r = map_err g (fst (m w))" using w(4) by (auto simp: with_err_def split: prod.splits)
  with rgD [OF assms w(1-3) this(1)]
  show "host_of w' = h \<and> script_ok E (w_now w') (w_script w') \<and> holds (B r) w'" by simp
qed

lemma rg_ignore:
  fixes m :: "('z world_scheme, 'e, 'a) comp"
  assumes "rg h E A m (\<lambda>_. B (Inr ()))"
  shows "rg h E A (ignore m :: ('z world_scheme, 'f, unit) comp) B"
proof (rule rgI)
  fix w :: "'z world_scheme" and r :: "'f + unit" and w'
  assume w: "host_of w = h" "script_ok E (w_now w) (w_script w)" "holds A w" "ignore m w = (r, w')"
  have "m w = (fst (m w), w')" "r = Inr ()" using w(4) by (auto simp: ignore_def)
  with rgD [OF assms w(1-3) this(1)]
  show "host_of w' = h \<and> script_ok E (w_now w') (w_script w') \<and> holds (B r) w'" by simp
qed

lemma rg_dep:
  assumes "\<And>w. host_of w = h \<Longrightarrow> rg h E A (m w) B"
  shows "rg h E A (\<lambda>w. m w w) B"
  using assms unfolding rg_def by blast

section \<open>System calls\<close>

text \<open>
  The rule of a call: the others move to \<open>f\<close>, then the call fails and changes nothing or takes
  effect.
\<close>

lemma rg_syscall:
  assumes fault: "\<And>f now l t e. A f now l \<Longrightarrow> allowed E now t \<Longrightarrow> tk_fault t = Some e \<Longrightarrow>
      B (Inl e) (tk_env t f) (tk_now t) ((tk_env t f, tk_env t f) # l)"
    and act: "\<And>f now l t r f'. A f now l \<Longrightarrow> allowed E now t \<Longrightarrow>
      act (fst h (tk_now t)) (tk_chunk t) (tk_env t f) = (r, f') \<Longrightarrow>
      B r f' (tk_now t) ((tk_env t f, f') # l)"
  shows "rg h E A (syscall act) B"
proof (rule rgI)
  fix w :: "'z world_scheme" and r w'
  assume w: "host_of w = h" "script_ok E (w_now w) (w_script w)" "holds A w" "syscall act w = (r, w')"
  define t where "t = next_tick w"
  have ok: "script_ok E (tk_now t) (tl (w_script w))" "allowed E (w_now w) t"
    using w(2) by (cases "w_script w"; simp add: t_def next_tick_def allowed_def)+
  have A: "A (w_fs w) (w_now w) (w_log w)" using w(3) by (simp add: holds_def)
  obtain r' f' where run: "(case tk_fault t of Some e \<Rightarrow> (Inl e, tk_env t (w_fs w))
      | None \<Rightarrow> act (w_clock w (tk_now t)) (tk_chunk t) (tk_env t (w_fs w))) = (r', f')" by (metis surj_pair)
  then have w': "r = r'" "w' = w\<lparr>w_fs := f', w_now := tk_now t, w_script := tl (w_script w),
      w_log := (tk_env t (w_fs w), f') # w_log w\<rparr>"
    using w(4) unfolding syscall_def Let_def t_def [symmetric] run by simp_all
  have "fst h = w_clock w" using w(1) by (auto simp: host_of_def)
  then have "B r f' (tk_now t) ((tk_env t (w_fs w), f') # w_log w)"
    using run fault [OF A ok(2)] act [OF A ok(2)] unfolding w'(1) by (cases "tk_fault t") auto
  then show "host_of w' = h \<and> script_ok E (w_now w') (w_script w') \<and> holds (B r) w'"
    using ok(1) w(1) by (simp add: w'(2) holds_def host_of_def)
qed

text \<open>The last call was made in \<open>f\<close>, from a state with \<open>A\<close>.\<close>

definition logged :: "assertion \<Rightarrow> fsys \<Rightarrow> (fsys \<times> fsys) list \<Rightarrow> bool" where
  "logged A f l \<longleftrightarrow> (\<exists>l' f0 now0. l = (f, f) # l' \<and> A f0 now0 l')"

text \<open>A call that only observes keeps a stable assertion, and its answer is about the state it logs.\<close>

lemma rg_observe:
  assumes stable: "stable E A" and obs: "\<And>now chunk f. snd (act now chunk f) = f"
  shows "rg h E A (syscall act) (\<lambda>r f now l. A f now l \<and> logged A f l \<and>
    ((\<exists>e. r = Inl e) \<or> (\<exists>st chunk. r = fst (act st chunk f))))"
proof (rule rg_syscall)
  fix f now l t e assume a: "A f now l" "allowed E now t"
  then have "A (tk_env t f) (tk_now t) ((tk_env t f, tk_env t f) # l)" using stable unfolding stable_def by blast
  then show "A (tk_env t f) (tk_now t) ((tk_env t f, tk_env t f) # l) \<and>
      logged A (tk_env t f) ((tk_env t f, tk_env t f) # l) \<and>
      ((\<exists>e'. Inl e = Inl e') \<or> (\<exists>st chunk. Inl e = fst (act st chunk (tk_env t f))))"
    using a unfolding logged_def by blast
next
  fix f now l t r f' assume a: "A f now l" "allowed E now t" "act (fst h (tk_now t)) (tk_chunk t) (tk_env t f) = (r, f')"
  have f': "f' = tk_env t f" using obs [of "fst h (tk_now t)" "tk_chunk t" "tk_env t f"] a(3) by simp
  have "A (tk_env t f) (tk_now t) ((tk_env t f, tk_env t f) # l)" using a stable unfolding stable_def by blast
  moreover have "r = fst (act (fst h (tk_now t)) (tk_chunk t) (tk_env t f))" using a(3) by simp
  ultimately show "A f' (tk_now t) ((tk_env t f, f') # l) \<and> logged A f' ((tk_env t f, f') # l) \<and>
      ((\<exists>e. r = Inl e) \<or> (\<exists>st chunk. r = fst (act st chunk f')))"
    using a(1) unfolding f' logged_def by blast
qed

lemma rg_open:
  assumes "stable E A"
  shows "rg h E A (sys_open p) (\<lambda>r f now l. A f now l \<and> logged A f l \<and>
    (\<forall>i. r = Inr i \<longrightarrow> lookup f p = Some i))"
  unfolding sys_open_def
  by (rule rg_post [OF rg_observe [OF assms]]) (auto simp: ok_or_def split: option.splits)

lemma rg_fstat:
  assumes "stable E A"
  shows "rg h E A (sys_fstat i) (\<lambda>r f now l. A f now l \<and> logged A f l \<and>
    (\<forall>m. r = Inr m \<longrightarrow> m = inode_metadata (fst (snd h)) f i))"
  unfolding sys_fstat_def
  by (rule rg_dep, rule rg_post [OF rg_observe [OF assms]]) (auto simp: host_of_def)

lemma rg_stat:
  assumes "stable E A"
  shows "rg h E A (sys_stat p) (\<lambda>r f now l. A f now l \<and> logged A f l \<and>
    (\<forall>m. r = Inr m \<longrightarrow> (\<exists>i. lookup f p = Some i \<and> m = inode_metadata (fst (snd h)) f i)))"
  unfolding sys_stat_def
  by (rule rg_dep, rule rg_post [OF rg_observe [OF assms]]) (auto simp: host_of_def split: option.splits)

lemma rg_read:
  assumes "stable E A"
  shows "rg h E A (sys_read i off n) (\<lambda>r f now l. A f now l \<and> logged A f l \<and>
    (\<forall>d. r = Inr d \<longrightarrow> \<not> in_dir (f_inodes f i) \<and>
      (\<exists>k. d = take (min n (Suc k)) (drop off (in_bytes (f_inodes f i))))))"
  unfolding sys_read_def
  by (rule rg_post [OF rg_observe [OF assms]]) (auto split: if_splits)

lemma rg_sync:
  assumes "stable E A"
  shows "rg h E A (sys_sync i) (\<lambda>r f now l. A f now l)"
  unfolding sys_sync_def by (rule rg_post [OF rg_observe [OF assms]]) auto

lemma rg_is_dir:
  assumes "stable E A"
  shows "rg h E A (sys_is_dir p) (\<lambda>r f now l. A f now l \<and> (\<exists>d. r = Inr d))"
  unfolding sys_is_dir_def
  by (rule rg_handle [where D = "\<lambda>_. A" and C = "\<lambda>_. A"], rule rg_post [OF rg_stat [OF assms]])
    (auto intro!: rg_ret split: sum.splits)

lemma rg_read_all:
  assumes "stable E A"
  shows "rg h E A (read_all i limit acc) (\<lambda>r f now l. A f now l)"
proof (rule rgI)
  fix w :: "'z world_scheme" and r w'
  assume w: "host_of w = h" "script_ok E (w_now w) (w_script w)" "holds A w" "read_all i limit acc w = (r, w')"
  then show "host_of w' = h \<and> script_ok E (w_now w') (w_script w') \<and> holds (\<lambda>f now l. A f now l) w'"
  proof (induction i limit acc w rule: read_all.induct)
    case (1 i limit acc w)
    let ?room = "case limit of None \<Rightarrow> usize_max | Some n \<Rightarrow> n - length acc"
    show ?case
    proof (cases "?room = 0")
      case True
      then show ?thesis using 1(3-6) by (subst (asm) read_all.simps) (simp add: Let_def)
    next
      case False
      obtain q w1 where q: "sys_read i (length acc) ?room w = (q, w1)" by (metis surj_pair)
      note one = rgD [OF rg_read [OF assms] 1(3-5) q]
      have A1: "holds A w1" using one(3) by (auto simp: holds_def)
      have run: "(case (q, w1) of (Inl e, w') \<Rightarrow> if io_kind_of e = IoInterrupted then read_all i limit acc w' else (Inl e, w')
          | (Inr d, w') \<Rightarrow> if d = [] then (Inr acc, w') else read_all i limit (acc @ d) w') = (r, w')"
        using 1(6) False unfolding read_all.simps [of i limit acc w] Let_def q by simp
      show ?thesis
      proof (cases q)
        case (Inl e)
        then show ?thesis
          using run one(1,2) A1 1(1) [OF refl False q [symmetric] Inl _ one(1,2) A1] by (auto split: if_splits)
      next
        case (Inr d)
        then show ?thesis
          using run one(1,2) A1 1(2) [OF refl False q [symmetric] Inr _ one(1,2) A1] by (auto split: if_splits)
      qed
    qed
  qed
qed

end
