(* ===== verification/Snapshot_Load.thy ===== *)
theory Snapshot_Load
  imports File_Logic
begin

text \<open>
  Loading a snapshot from a file that others may change meanwhile (\<open>Snapshot::load\<close> and
  \<open>read_candidate\<close> of \<open>src/snapshot.rs\<close>): two attempts, each of which reads the descriptor to the
  end between two looks at its metadata, compares with the path, and reads again when the stamp
  is racy.
\<close>

section \<open>The code\<close>

definition READ_BUFFER_BYTES :: nat where
  "READ_BUFFER_BYTES = 64 * 1024"

definition MAX_READ_ATTEMPTS :: nat where
  "MAX_READ_ATTEMPTS = 2"

text \<open>\<open>FileStamp::from_metadata\<close> looks at the clock; on Unix it does not fail.\<close>

definition stamp_of :: "metadata \<Rightarrow> ('z world_scheme, 'e, file_stamp) comp" where
  "stamp_of m = (\<lambda>w. (Inr (stamp_from_metadata (w_now w) m), w))"

text \<open>
  The read loop; \<open>capacity\<close> is that of the buffer, which only grows when it must.  The loop ends
  like \<open>read_all\<close>.
\<close>

function read_loop :: "externs \<Rightarrow> path \<Rightarrow> nat \<Rightarrow> bytes \<Rightarrow> nat \<Rightarrow> ('z world_scheme, snapshot_error, bytes) comp" where
  "read_loop x p i bs capacity w =
     (case sys_read i (length bs) READ_BUFFER_BYTES w of
        (Inl source, w') \<Rightarrow>
          if io_kind_of source = IoInterrupted then read_loop x p i bs capacity w'
          else (Inl (SnIo ''read'' p source), w')
      | (Inr chunk, w') \<Rightarrow>
          if chunk = [] then (Inr bs, w')
          else (case checked_add_usize (length bs) (length chunk) of
              None \<Rightarrow> (Inl (SnAddressSpace (- 1)), w')
            | Some new_len \<Rightarrow>
                (case u64_of_usize new_len of
                   None \<Rightarrow> (Inl (SnAddressSpace (- 1)), w')
                 | Some new_len_u64 \<Rightarrow>
                     (case validate_file_size new_len_u64 of
                        Inl e \<Rightarrow> (Inl (SnContract e), w')
                      | Inr _ \<Rightarrow>
                          if new_len > capacity \<and> \<not> x_reserve x (new_len - length bs)
                          then (Inl (SnAllocation new_len_u64), w')
                          else read_loop x p i (bs @ chunk) (max capacity new_len) w'))))"
  by pat_completeness auto

termination
  by (relation "measures [\<lambda>(x, p, i, bs, capacity, w). length (w_script w),
      \<lambda>(x, p, i, bs, capacity, w). length (in_bytes (f_inodes (w_fs w) i)) - length bs]")
    (auto dest: sys_read_interrupted [OF sym] sys_read_progress [OF sym])

declare read_loop.simps [simp del]

definition path_stamp :: "path \<Rightarrow> ('z world_scheme, snapshot_error, file_stamp option) comp" where
  "path_stamp p =
     handle (sys_stat p)
       (\<lambda>source. if io_kind_of source = IoNotFound then ret None
                else raise (SnIo ''read path metadata for'' p source))
       (\<lambda>m. bind (stamp_of m) (\<lambda>s. ret (Some s)))"

definition accept_text :: "externs \<Rightarrow> bytes \<Rightarrow> file_stamp \<Rightarrow> ('z world_scheme, snapshot_error, (bytes \<times> file_stamp) option) comp" where
  "accept_text x bytes after =
     bind (lift (map_err SnContract (validated_text x bytes))) (\<lambda>text. ret (Some (text, after)))"

text \<open>Equal but racy stamps cannot rule out a rewrite in one tick of the clock: read once more.\<close>

definition settle_candidate ::
    "externs \<Rightarrow> path \<Rightarrow> bytes \<Rightarrow> file_stamp \<Rightarrow> ('z world_scheme, snapshot_error, (bytes \<times> file_stamp) option) comp" where
  "settle_candidate x p bytes after =
     (if fs_racy after then
        handle (fs_read p)
          (\<lambda>source. if io_kind_of source = IoNotFound then ret None
                   else raise (SnIo ''verify racy read of'' p source))
          (\<lambda>reread. if reread \<noteq> bytes then ret None else accept_text x bytes after)
      else accept_text x bytes after)"

definition read_candidate ::
    "externs \<Rightarrow> path \<Rightarrow> ('z world_scheme, snapshot_error, (bytes \<times> file_stamp) option) comp" where
  "read_candidate x p =
     bind (with_err (SnIo ''open'' p) (sys_open p)) (\<lambda>i.
     bind (with_err (SnIo ''read initial metadata for'' p) (sys_fstat i)) (\<lambda>before_metadata.
     bind (stamp_of before_metadata) (\<lambda>before.
     bind (lift (map_err SnContract (validate_file_size (fs_len before)))) (\<lambda>_.
     bind (lift (ok_or (SnAddressSpace (fs_len before)) (usize_of_u64 (fs_len before)))) (\<lambda>expected.
     bind (lift (if x_reserve x expected then Inr () else Inl (SnAllocation (fs_len before)))) (\<lambda>_.
     bind (read_loop x p i [] expected) (\<lambda>bytes.
     bind (with_err (SnIo ''read final metadata for'' p) (sys_fstat i)) (\<lambda>after_metadata.
     bind (stamp_of after_metadata) (\<lambda>after.
     bind (path_stamp p) (\<lambda>current.
     bind (lift (ok_or (SnAddressSpace (- 1)) (u64_of_usize (length bytes)))) (\<lambda>actual_len.
     if \<not> stamp_eq before after \<or> \<not> stamp_opt_eq current (Some after) \<or> actual_len \<noteq> fs_len after
     then ret None
     else settle_candidate x p bytes after)))))))))))"

fun load_attempts :: "externs \<Rightarrow> path \<Rightarrow> nat \<Rightarrow> ('z world_scheme, snapshot_error, snapshot) comp" where
  "load_attempts x p 0 = raise (SnConcurrent p)"
| "load_attempts x p (Suc n) =
     bind (read_candidate x p) (\<lambda>c.
       case c of
         Some (text, stamp) \<Rightarrow> lift (from_validated_with_stamp x text (Some stamp))
       | None \<Rightarrow> load_attempts x p n)"

definition snapshot_load :: "externs \<Rightarrow> path \<Rightarrow> ('z world_scheme, snapshot_error, snapshot) comp" where
  "snapshot_load x p = load_attempts x p MAX_READ_ATTEMPTS"

end
