(* ===== verification/Load_Rules.thy ===== *)
theory Load_Rules
  imports Snapshot_Load
begin

text \<open>
  What every proof about a load shares: the rules of its steps, and two contracts.  A
  \<open>byte_watch\<close> is an assertion on the bytes of an inode that reads can refine; a \<open>load_watch\<close> is a
  reason to trust what an attempt of \<open>Snapshot::load\<close> returns, with the triple of the whole load.
\<close>

section \<open>Steps\<close>

lemma stamp_opt_eq_Some: "stamp_opt_eq c (Some a) \<longleftrightarrow> (\<exists>s. c = Some s \<and> stamp_eq s a)"
  by (cases c) (simp_all add: stamp_opt_eq_def)

lemma validated_text_same: "validated_text x bytes = Inr text \<Longrightarrow> text = bytes"
  by (auto simp: validated_text_def result_iffs split: option.splits)

lemma from_validated_fields:
  "from_validated_with_stamp x text stamp = Inr s \<Longrightarrow> sn_text s = text \<and> sn_stamp s = stamp"
  by (auto simp: from_validated_with_stamp_def result_iffs Let_def)

lemma rg_pure:
  assumes "P \<Longrightarrow> rg h E A m B"
  shows "rg h E (\<lambda>f now l. P \<and> A f now l) m B"
  using assms unfolding rg_def holds_def by blast

lemma rg_conj: "rg h E A m B \<Longrightarrow> rg h E A' m B' \<Longrightarrow>
    rg h E (\<lambda>f now l. A f now l \<and> A' f now l) m (\<lambda>r f now l. B r f now l \<and> B' r f now l)"
  unfolding rg_def holds_def by blast

lemma rg_stamp_of:
  assumes "\<And>f now l. A f now l \<Longrightarrow> B (Inr (stamp_from_metadata now m)) f now l"
  shows "rg h E A (stamp_of m) B"
  using assms by (auto simp: rg_def stamp_of_def holds_def)

definition stamp_at :: "u64 \<Rightarrow> fsys \<Rightarrow> path \<Rightarrow> file_stamp \<Rightarrow> bool" where
  "stamp_at device f p s \<longleftrightarrow> (\<exists>j. lookup f p = Some j \<and>
     fs_identity s = \<lparr>fi_device = device, fi_inode = of_nat j\<rparr> \<and>
     fs_len s = of_nat (length (in_bytes (f_inodes f j))) \<and> fs_modified s = in_mtime (f_inodes f j) \<and>
     fs_changed s = Some (in_ctime (f_inodes f j)))"

lemma stamp_at_metadata:
  "lookup f p = Some j \<Longrightarrow> stamp_at device f p (stamp_from_metadata now (inode_metadata device f j))"
  by (simp add: stamp_at_def stamp_from_metadata_def inode_metadata_def Let_def)

lemma rg_path_stamp:
  assumes "stable E A"
  shows "rg h E A (path_stamp p) (\<lambda>r f now l. A f now l \<and>
    (\<forall>s. r = Inr (Some s) \<longrightarrow> stamp_at (fst (snd h)) f p s \<and> logged A f l))"
  unfolding path_stamp_def
proof (rule rg_handle [where D = "\<lambda>_. A" and
      C = "\<lambda>m f now l. A f now l \<and> logged A f l \<and>
        (\<exists>j. lookup f p = Some j \<and> m = inode_metadata (fst (snd h)) f j)"], goal_cases)
  case 1
  show ?case by (rule rg_post [OF rg_stat [OF assms]]) (auto split: sum.splits)
next
  case (2 e)
  then show ?case by (auto intro!: rg_ret rg_raise)
next
  case (3 m)
  show ?case
    by (rule rg_bind [where C = "\<lambda>s f now l. A f now l \<and> logged A f l \<and> stamp_at (fst (snd h)) f p s"],
        rule rg_stamp_of)
      (auto intro!: rg_ret dest: stamp_at_metadata)
qed

text \<open>Validation gives back the bytes, so only the bytes of the attempt can be accepted.\<close>

lemma rg_accept:
  assumes "\<And>f now l. A f now l \<Longrightarrow> B (Inr (Some (bytes, after))) f now l" "\<And>e f now l. B (Inl e) f now l"
  shows "rg h E A (accept_text x bytes after) B"
  unfolding accept_text_def
  by (rule rg_bind [where C = "\<lambda>text f now l. B (Inr (Some (text, after))) f now l"], rule rg_lift)
    (use assms in \<open>auto intro!: rg_ret simp: result_iffs dest: validated_text_same split: sum.splits\<close>)

text \<open>At one of the moments the log has since \<open>l0\<close>, the path held the text.\<close>

definition held_text :: "(fsys \<times> fsys) list \<Rightarrow> path \<Rightarrow> bytes \<Rightarrow> (fsys \<times> fsys) list \<Rightarrow> bool" where
  "held_text l0 p t l \<longleftrightarrow> (\<exists>new. l = new @ l0 \<and> (\<exists>moment\<in>set new. content_at (fst moment) p = Some t))"

lemma held_text_later: "held_text l0 p t l \<Longrightarrow> \<exists>new. l' = new @ l \<Longrightarrow> held_text l0 p t l'"
  unfolding held_text_def by (elim exE conjE bexE, rename_tac a b m, rule_tac x = "b @ a" in exI) auto

lemma held_text_more: "held_text l0 p t l \<Longrightarrow> held_text l0 p t (s # l)"
  by (erule held_text_later) simp

lemma held_text_now: "content_at f p = Some t \<Longrightarrow> held_text l0 p t ((f, f') # new @ l0)"
  unfolding held_text_def by (intro exI [of _ "(f, f') # new"]) simp

section \<open>Reads that refine what is known of the bytes\<close>

abbreviation begins :: "bytes \<Rightarrow> bytes \<Rightarrow> bool" where
  "begins bs b \<equiv> take (length bs) b = bs"

lemma begins_more: "begins bs b \<Longrightarrow> begins (bs @ take n (drop (length bs) b)) b"
  by (metis append_eq_conv_conj append_take_drop_id length_append take_add)

lemma begins_end: "begins bs b \<Longrightarrow> 0 < n \<Longrightarrow> take n (drop (length bs) b) = [] \<Longrightarrow> b = bs"
  by (metis append_Nil2 append_take_drop_id drop_eq_Nil length_0_conv less_nat_zero_code take_eq_Nil)

locale byte_watch =
  fixes E :: rely and i :: nat and watch :: "(bytes \<Rightarrow> bool) \<Rightarrow> assertion"
  assumes stable_watch: "stable E (watch Q)"
    and watch_mono: "watch Q f now l \<Longrightarrow> (Q (in_bytes (f_inodes f i)) \<Longrightarrow> Q' (in_bytes (f_inodes f i))) \<Longrightarrow> watch Q' f now l"
begin

lemma rg_read_loop:
  fixes x :: externs
  shows "rg h E (watch (begins bs)) (read_loop x p i bs cap)
    (\<lambda>r f now l. \<forall>bs'. r = Inr bs' \<longrightarrow> watch (\<lambda>b. b = bs') f now l)"
proof (rule rgI)
  fix w :: "'z world_scheme" and r w'
  assume w: "host_of w = h" "script_ok E (w_now w) (w_script w)"
    "holds (watch (begins bs)) w" "read_loop x p i bs cap w = (r, w')"
  obtain j where j: "j = i" by simp
  from w [folded j] j show "host_of w' = h \<and> script_ok E (w_now w') (w_script w') \<and>
      holds (\<lambda>f now l. \<forall>bs'. r = Inr bs' \<longrightarrow> watch (\<lambda>b. b = bs') f now l) w'"
  proof (induction x p j bs cap w rule: read_loop.induct)
    case (1 x p j bs cap w)
    obtain q w1 where q: "sys_read i (length bs) READ_BUFFER_BYTES w = (q, w1)" by (metis surj_pair)
    note one = rgD [OF rg_read [OF stable_watch] 1(3-5) q]
    have A1: "holds (watch (begins bs)) w1" using one(3) by (auto simp: holds_def)
    note q' = q [folded 1(7), symmetric]
    show ?case
    proof (cases q)
      case (Inl e)
      then show ?thesis
        using 1(6,7) one(1,2) 1(1) [OF q' Inl _ one(1,2) A1]
        by (subst (asm) read_loop.simps) (auto simp: q holds_def split: if_splits)
    next
      case (Inr chunk)
      then obtain k where chunk: "chunk = take (min READ_BUFFER_BYTES (Suc k)) (drop (length bs) (in_bytes (f_inodes (w_fs w1) i)))"
        using one(3) by (auto simp: holds_def)
      show ?thesis
      proof (cases "chunk = []")
        case True
        then have "holds (watch (\<lambda>b. b = bs)) w1"
          using A1 chunk begins_end [of bs "in_bytes (f_inodes (w_fs w1) i)" "min READ_BUFFER_BYTES (Suc k)"]
          unfolding holds_def by (auto intro: watch_mono simp: READ_BUFFER_BYTES_def)
        moreover have "r = Inr bs" "w' = w1" using 1(6,7) Inr True by (subst (asm) read_loop.simps; simp add: q)+
        ultimately show ?thesis using one(1,2) by (simp add: holds_def)
      next
        case False
        have A2: "holds (watch (begins (bs @ chunk))) w1"
          using A1 chunk begins_more unfolding holds_def by (auto intro: watch_mono)
        note run = 1(6) [unfolded read_loop.simps [of x p j bs cap w], unfolded q' [symmetric] Inr, simplified]
        show ?thesis
          using 1(2) [OF q' Inr False _ _ _ _ one(1,2) A2 _ 1(7)] run one(1,2) False
          by (auto simp: holds_def split: option.splits sum.splits if_splits)
      qed
    qed
  qed
qed

text \<open>\<open>read_to_end\<close> gives the bytes, or a prefix that fills the bound of \<open>take\<close>.\<close>

lemma rg_read_all_bytes:
  "rg h E (watch (begins acc)) (read_all i limit acc) (\<lambda>r f now l. \<forall>bs. r = Inr bs \<longrightarrow>
     watch (\<lambda>b. b = bs \<or> begins bs b \<and> (case limit of None \<Rightarrow> usize_max = 0 | Some n \<Rightarrow> n \<le> length bs)) f now l)"
proof (rule rgI)
  fix w :: "'z world_scheme" and r w'
  let ?B = "\<lambda>bs. watch (\<lambda>b. b = bs \<or> begins bs b \<and> (case limit of None \<Rightarrow> usize_max = 0 | Some n \<Rightarrow> n \<le> length bs))"
  assume w: "host_of w = h" "script_ok E (w_now w) (w_script w)"
    "holds (watch (begins acc)) w" "read_all i limit acc w = (r, w')"
  obtain j m where jm: "j = i" "m = limit" by simp
  from w [folded jm] jm show "host_of w' = h \<and> script_ok E (w_now w') (w_script w') \<and>
      holds (\<lambda>f now l. \<forall>bs. r = Inr bs \<longrightarrow> ?B bs f now l) w'"
  proof (induction j m acc w rule: read_all.induct)
    case (1 j m acc w)
    let ?room = "case m of None \<Rightarrow> usize_max | Some n \<Rightarrow> n - length acc"
    show ?case
    proof (cases "?room = 0")
      case True
      then have "r = Inr acc" "w' = w" using 1(6) by (subst (asm) read_all.simps; simp)+
      then show ?thesis using 1(3-5,8) True unfolding holds_def by (auto intro: watch_mono split: option.splits)
    next
      case False
      obtain q w1 where q: "sys_read i (length acc) ?room w = (q, w1)" by (metis surj_pair)
      note one = rgD [OF rg_read [OF stable_watch] 1(3-5) q]
      have A1: "holds (watch (begins acc)) w1" using one(3) by (auto simp: holds_def)
      have run: "(case (q, w1) of (Inl e, w') \<Rightarrow> if io_kind_of e = IoInterrupted then read_all j m acc w' else (Inl e, w')
          | (Inr d, w') \<Rightarrow> if d = [] then (Inr acc, w') else read_all j m (acc @ d) w') = (r, w')"
        using 1(6) False q [folded 1(7)] by (subst (asm) read_all.simps) (simp add: Let_def)
      note q' = q [folded 1(7), symmetric]
      show ?thesis
      proof (cases q)
        case (Inl e)
        then show ?thesis
          using run one(1,2) A1 1(1) [OF refl False q' Inl _ one(1,2) A1 _ 1(7,8)]
          by (auto split: if_splits simp: holds_def)
      next
        case (Inr d)
        then obtain k where d: "d = take (min ?room (Suc k)) (drop (length acc) (in_bytes (f_inodes (w_fs w1) i)))"
          using one(3) by (auto simp: holds_def)
        show ?thesis
        proof (cases "d = []")
          case True
          have "in_bytes (f_inodes (w_fs w1) i) = acc" if "begins acc (in_bytes (f_inodes (w_fs w1) i))"
            by (rule begins_end [OF that, of "min ?room (Suc k)"]) (use False True d in auto)
          then have "holds (?B acc) w1" using A1 unfolding holds_def by (auto intro: watch_mono)
          then show ?thesis using run Inr True one(1,2) by (auto simp: holds_def)
        next
          case more: False
          have "holds (watch (begins (acc @ d))) w1"
            using A1 d begins_more unfolding holds_def by (auto intro: watch_mono)
          then show ?thesis
            using run Inr more 1(2) [OF refl False q' Inr more one(1,2) _ _ 1(7,8)] by simp
        qed
      qed
    qed
  qed
qed

lemma rg_read_whole:
  "rg h E (watch (begins [])) (read_all i None []) (\<lambda>r f now l. \<forall>bs. r = Inr bs \<longrightarrow> watch (\<lambda>b. b = bs) f now l)"
  by (rule rg_post [OF rg_read_all_bytes]) (auto simp: usize_max_def)

end

text \<open>The settling of a racy stamp accepts the bytes only when the path, opened and read anew, has them.\<close>

lemma rg_settle_candidate:
  assumes settled: "\<And>f now l. A f now l \<Longrightarrow> fs_racy after \<or> B (Inr (Some (bytes, after))) f now l"
    and racy: "\<And>f now l. A f now l \<Longrightarrow> D f now l" "stable E D"
    and open_path: "\<And>f now l j. D f now l \<Longrightarrow> logged D f l \<Longrightarrow> lookup f p = Some j \<Longrightarrow> W j (begins []) f now l"
    and watches: "\<And>j. byte_watch E j (W j)" "\<And>j Q f now l. W j Q f now l \<Longrightarrow> D f now l"
    and same: "\<And>j f now l. fs_racy after \<Longrightarrow> W j (\<lambda>b. b = bytes) f now l \<Longrightarrow> B (Inr (Some (bytes, after))) f now l"
    and none: "\<And>f now l. D f now l \<Longrightarrow> B (Inr None) f now l" and err: "\<And>e f now l. B (Inl e) f now l"
  shows "rg h E A (settle_candidate x p bytes after) B"
proof (cases "fs_racy after")
  case False
  then have "rg h E A (accept_text x bytes after) B" using settled err by (intro rg_accept) auto
  then show ?thesis using False by (simp add: settle_candidate_def)
next
  case True
  let ?C = "\<lambda>bs f now l. D f now l \<and> (\<exists>j. W j (\<lambda>b. b = bs) f now l)"
  have reread: "rg h E D (fs_read p) (\<lambda>r f now l. D f now l \<and> (\<forall>bs. r = Inr bs \<longrightarrow> ?C bs f now l))"
    unfolding fs_read_def
  proof (rule rg_bind [where C = "\<lambda>j. W j (begins [])"], goal_cases)
    case 1
    show ?case
      by (rule rg_post [OF rg_open [OF racy(2)]]) (auto intro: open_path [simplified] split: sum.splits)
  next
    case (2 j)
    show ?case
      by (rule rg_pre [OF rg_post [OF rg_conj [OF rg_read_all [OF racy(2)] byte_watch.rg_read_whole [OF watches(1)]]]])
        (use watches(2) in blast)+
  qed
  have "rg h E D (settle_candidate x p bytes after) B"
    unfolding settle_candidate_def if_P [OF True]
  proof (rule rg_handle [where C = ?C and D = "\<lambda>_. D"], goal_cases)
    case 1
    show ?case by (rule rg_post [OF reread]) (auto split: sum.splits)
  next
    case (2 e)
    show ?case using none err by (auto intro!: rg_ret rg_raise)
  next
    case (3 bs)
    show ?case using none err same True by (auto intro!: rg_ret rg_accept)
  qed
  from rg_pre [OF this racy(1)] show ?thesis .
qed

section \<open>Reasons to trust a load\<close>

text \<open>
  What is known while an attempt runs: from its begin (\<open>started\<close>), since the file was opened as the
  inode \<open>i\<close> (\<open>opened\<close>), since it was seen to have the change time \<open>c\<close> (\<open>reading\<close>), and since the
  bytes were read and the stamp after them was taken (\<open>stamped\<close>).  The law \<open>settle\<close> is about the
  end of the attempt, when the stamps before and after agree with that of the path; \<open>settling\<close> is that
  end of the code, a parameter only to give its state a type.
\<close>

definition attempt_post :: "assertion \<Rightarrow> (bytes \<Rightarrow> file_stamp \<Rightarrow> assertion) \<Rightarrow>
    snapshot_error + (bytes \<times> file_stamp) option \<Rightarrow> assertion" where
  "attempt_post started trusted r f now l \<longleftrightarrow>
     (case r of
        Inl e \<Rightarrow> True
      | Inr None \<Rightarrow> started f now l
      | Inr (Some (text, stamp)) \<Rightarrow> trusted text stamp f now l)"

lemma attempt_post_simps [simp]:
  "attempt_post started trusted (Inl e) f now l"
  "attempt_post started trusted (Inr None) f now l \<longleftrightarrow> started f now l"
  "attempt_post started trusted (Inr (Some (text, stamp))) f now l \<longleftrightarrow> trusted text stamp f now l"
  by (simp_all add: attempt_post_def)

definition trusted_load :: "(bytes \<Rightarrow> file_stamp \<Rightarrow> assertion) \<Rightarrow> snapshot_error + snapshot \<Rightarrow> assertion" where
  "trusted_load trusted r f now l \<longleftrightarrow>
     (\<forall>s. r = Inr s \<longrightarrow> (\<exists>stamp. sn_stamp s = Some stamp \<and> trusted (sn_text s) stamp f now l))"

locale load_watch =
  fixes h :: host and E :: rely and x :: externs and p :: path
    and started :: assertion
    and opened :: "nat \<Rightarrow> assertion"
    and reading :: "nat \<Rightarrow> file_time \<Rightarrow> (bytes \<Rightarrow> bool) \<Rightarrow> assertion"
    and stamped :: "nat \<Rightarrow> file_time \<Rightarrow> bytes \<Rightarrow> file_stamp \<Rightarrow> assertion"
    and trusted :: "bytes \<Rightarrow> file_stamp \<Rightarrow> assertion"
    and settling :: "bytes \<Rightarrow> file_stamp \<Rightarrow> ('z world_scheme, snapshot_error, (bytes \<times> file_stamp) option) comp"
  assumes stable_started: "stable E started"
    and open_path: "started f now l \<Longrightarrow> logged started f l \<Longrightarrow> lookup f p = Some i \<Longrightarrow> opened i f now l"
    and stable_opened: "stable E (opened i)"
    and first_stat: "opened i f now l \<Longrightarrow> reading i (in_ctime (f_inodes f i)) (begins []) f now l"
    and watches: "byte_watch E i (reading i c)"
    and last_stat: "reading i c (\<lambda>b. b = bytes) f now l \<Longrightarrow>
      stamped i c bytes (stamp_from_metadata now (inode_metadata (fst (snd h)) f i)) f now l"
    and stable_stamped: "stable E (stamped i c bytes after)"
    and retry: "stamped i c bytes after f now l \<Longrightarrow> started f now l"
    and code: "settling = settle_candidate x p"
    and settle: "stamp_eq s after \<Longrightarrow> fs_changed after = Some c \<Longrightarrow>
      rg h E (\<lambda>f now l. stamped i c bytes after f now l \<and> stamp_at (fst (snd h)) f p s \<and> logged (stamped i c bytes after) f l)
        (settling bytes after) (attempt_post started trusted)"
begin

lemma rg_confirm:
  fixes len :: "snapshot_error + u64"
  assumes before: "fs_changed before = Some c"
  shows "rg h E (stamped i c bytes after)
    (bind (path_stamp p) (\<lambda>current. bind (lift len) (\<lambda>actual_len.
       if \<not> stamp_eq before after \<or> \<not> stamp_opt_eq current (Some after) \<or> actual_len \<noteq> fs_len after
       then ret None else settle_candidate x p bytes after)) :: ('z world_scheme, snapshot_error, (bytes \<times> file_stamp) option) comp)
    (attempt_post started trusted)"
proof -
  let ?V = "stamped i c bytes after"
  let ?C = "\<lambda>current f now l. ?V f now l \<and> (\<forall>s. current = Some s \<longrightarrow> stamp_at (fst (snd h)) f p s \<and> logged ?V f l)"
  show ?thesis
  proof (rule rg_bind [where C = ?C], goal_cases)
    case 1
    from rg_path_stamp [OF stable_stamped] show ?case by (rule rg_post) (simp split: sum.splits)
  next
    case (2 current)
    show ?case
    proof (rule rg_bind [where C = "\<lambda>_. ?C current"], goal_cases)
      case 1
      show ?case by (rule rg_lift) (simp split: sum.splits)
    next
      case (2 len)
      show ?case
      proof (cases "\<not> stamp_eq before after \<or> \<not> stamp_opt_eq current (Some after) \<or> len \<noteq> fs_len after")
        case True
        then show ?thesis by (auto intro!: rg_ret dest: retry)
      next
        case False
        then obtain s where s: "current = Some s" "stamp_eq s after" unfolding stamp_opt_eq_Some by blast
        have "fs_changed after = Some c" using False before by (simp add: stamp_eq_def)
        from settle [OF s(2) this, unfolded code] show ?thesis
          unfolding if_not_P [OF False] by (rule rg_pre) (use s(1) in blast)
      qed
    qed
  qed
qed

lemma rg_read_contents:
  assumes before: "fs_changed before = Some c"
  shows "rg h E (reading i c (begins []))
    (bind (read_loop x p i [] expected) (\<lambda>bytes.
     bind (with_err (SnIo ''read final metadata for'' p) (sys_fstat i)) (\<lambda>after_metadata.
     bind (stamp_of after_metadata) (\<lambda>after.
     bind (path_stamp p) (\<lambda>current.
     bind (lift (ok_or (SnAddressSpace (- 1)) (u64_of_usize (length bytes)))) (\<lambda>actual_len.
     if \<not> stamp_eq before after \<or> \<not> stamp_opt_eq current (Some after) \<or> actual_len \<noteq> fs_len after
     then ret None else settle_candidate x p bytes after))))) :: ('z world_scheme, snapshot_error, (bytes \<times> file_stamp) option) comp)
    (attempt_post started trusted)"
proof (rule rg_bind [where C = "\<lambda>bytes. reading i c (\<lambda>b. b = bytes)"], goal_cases)
  case 1
  show ?case by (rule rg_post [OF byte_watch.rg_read_loop [OF watches]]) (simp split: sum.splits)
next
  case (2 bytes)
  let ?R = "reading i c (\<lambda>b. b = bytes)"
  show ?case
  proof (rule rg_bind [where C = "\<lambda>m f now l. ?R f now l \<and> m = inode_metadata (fst (snd h)) f i"], goal_cases)
    case 1
    show ?case
      by (rule rg_with_err, rule rg_post [OF rg_fstat [OF byte_watch.stable_watch [OF watches]]])
        (auto simp: map_err_eq_Inr split: sum.splits)
  next
    case (2 m)
    show ?case
      by (rule rg_bind [OF _ rg_confirm [OF before]], rule rg_stamp_of) (auto intro: last_stat)
  qed
qed

lemma rg_candidate:
  "rg h E started (read_candidate x p :: ('z world_scheme, snapshot_error, (bytes \<times> file_stamp) option) comp)
     (attempt_post started trusted)"
  unfolding read_candidate_def
proof (rule rg_bind [where C = opened], goal_cases)
  case 1
  show ?case
    by (rule rg_with_err, rule rg_post [OF rg_open [OF stable_started]])
      (auto simp: map_err_eq_Inr intro: open_path split: sum.splits)
next
  case (2 i)
  show ?case
  proof (rule rg_bind [where C = "\<lambda>m. reading i (md_ctime m) (begins [])"], goal_cases)
    case 1
    show ?case
      by (rule rg_with_err, rule rg_post [OF rg_fstat [OF stable_opened]])
        (auto simp: map_err_eq_Inr inode_metadata_def Let_def dest: first_stat split: sum.splits)
  next
    case (2 m)
    show ?case
    proof (rule rg_bind [where C = "\<lambda>before f now l. fs_changed before = Some (md_ctime m) \<and>
        reading i (md_ctime m) (begins []) f now l"], goal_cases)
      case 1
      show ?case by (rule rg_stamp_of) (simp add: stamp_from_metadata_def)
    next
      case (2 before)
      have lifts: "rg h E A (lift v) (\<lambda>r. case r of Inl e \<Rightarrow> attempt_post started trusted (Inl e) | Inr _ \<Rightarrow> A)"
        for A and v :: "snapshot_error + 'q"
        by (rule rg_lift) (simp split: sum.splits)
      show ?case by (rule rg_pure, intro rg_bind [OF lifts] rg_read_contents)
    qed
  qed
qed

lemma rg_attempts:
  "rg h E started (load_attempts x p n :: ('z world_scheme, snapshot_error, snapshot) comp) (trusted_load trusted)"
proof (induction n)
  case 0
  show ?case by (auto intro!: rg_raise simp: trusted_load_def)
next
  case (Suc n)
  show ?case
    unfolding load_attempts.simps
  proof (rule rg_bind [where C = "\<lambda>c. attempt_post started trusted (Inr c)"], goal_cases)
    case 1
    show ?case by (rule rg_post [OF rg_candidate]) (auto simp: trusted_load_def split: sum.splits)
  next
    case (2 c)
    show ?case
    proof (cases c)
      case None
      then show ?thesis using Suc.IH by (auto intro: rg_pre)
    next
      case (Some ts)
      then show ?thesis by (cases ts) (auto intro!: rg_lift simp: trusted_load_def dest: from_validated_fields)
    qed
  qed
qed

end

end
