(* ===== verification/Load_Settled.thy ===== *)
theory Load_Settled
  imports Load_Rules
begin

text \<open>
  Loads on a system with a coarse clock: the assumption on the others, what a stamp that is not racy
  promises of the file, and the triple of a load that is quick enough for that promise.
\<close>

section \<open>Honest systems\<close>

text \<open>
  What the proofs rely on of the other processes and the kernel: time does not go back, and a
  change of the bytes of a file, or of its change time, sets the change time to the clock's
  reading at some moment in between.  \<open>clk\<close> is the kernel's clock, whose reading lags behind the
  time by at most \<open>gran\<close> (up to the year 2262, where a 64-bit count of nanoseconds ends).
\<close>

definition honest :: "(system_time \<Rightarrow> file_time) \<Rightarrow> system_time \<Rightarrow> tick \<Rightarrow> bool" where
  "honest clk now t \<longleftrightarrow> now \<le> tk_now t \<and>
     (\<forall>f i. (in_bytes (f_inodes (tk_env t f) i) \<noteq> in_bytes (f_inodes f i) \<or>
             in_ctime (f_inodes (tk_env t f) i) \<noteq> in_ctime (f_inodes f i)) \<longrightarrow>
        (\<exists>s. now \<le> s \<and> s \<le> tk_now t \<and> in_ctime (f_inodes (tk_env t f) i) = clk s))"

definition clock_lag :: "(system_time \<Rightarrow> file_time) \<Rightarrow> int \<Rightarrow> bool" where
  "clock_lag clk gran \<longleftrightarrow> (\<forall>s < 2 ^ 63. \<exists>t. to_system_time (clk s) = Some t \<and> s - gran \<le> t)"

text \<open>Inode numbers and file lengths fit the 64 bits that metadata has for them.\<close>

definition fs_small :: "fsys \<Rightarrow> bool" where
  "fs_small f \<longleftrightarrow> (\<forall>k i. f_names f k = Some i \<longrightarrow> i < 2 ^ 64) \<and> (\<forall>i. length (in_bytes (f_inodes f i)) < 2 ^ 64)"

definition keeps_small :: "tick \<Rightarrow> bool" where
  "keeps_small t \<longleftrightarrow> (\<forall>f. fs_small f \<longrightarrow> fs_small (tk_env t f))"

definition settled_rely :: "(system_time \<Rightarrow> file_time) \<Rightarrow> rely" where
  "settled_rely clk now t \<longleftrightarrow> honest clk now t \<and> keeps_small t"

lemma honest_quiet [simp]: "honest clk now (quiet_tick now)"
  by (simp add: honest_def quiet_tick_def)

lemma keeps_small_quiet [simp]: "keeps_small (quiet_tick now)"
  by (simp add: keeps_small_def quiet_tick_def)

lemma allowed_settled: "allowed (settled_rely clk) now t \<Longrightarrow> honest clk now t \<and> keeps_small t"
  by (auto simp: allowed_def settled_rely_def)

text \<open>The change time of \<open>i\<close> was set since \<open>t0\<close>; once so, always so.\<close>

definition dirty :: "(system_time \<Rightarrow> file_time) \<Rightarrow> system_time \<Rightarrow> system_time \<Rightarrow> nat \<Rightarrow> fsys \<Rightarrow> bool" where
  "dirty clk t0 now i f \<longleftrightarrow> (\<exists>s. t0 \<le> s \<and> s \<le> now \<and> in_ctime (f_inodes f i) = clk s)"

text \<open>
  The assertion of the read: since \<open>t0\<close> the inode was touched, or it has the change time \<open>c\<close> and
  its bytes satisfy \<open>Q\<close>.
\<close>

definition since ::
    "(system_time \<Rightarrow> file_time) \<Rightarrow> system_time \<Rightarrow> (fsys \<times> fsys) list \<Rightarrow> nat \<Rightarrow> file_time \<Rightarrow> (bytes \<Rightarrow> bool) \<Rightarrow> assertion" where
  "since clk t0 l0 i c Q f now l \<longleftrightarrow>
     t0 \<le> now \<and> i < 2 ^ 64 \<and> fs_small f \<and> (\<exists>new. l = new @ l0) \<and>
     (dirty clk t0 now i f \<or> in_ctime (f_inodes f i) = c \<and> Q (in_bytes (f_inodes f i)))"

lemma stable_since: "stable (settled_rely clk) (since clk t0 l0 i c Q)"
  unfolding stable_def
proof (intro allI impI)
  fix f now l t assume r: "since clk t0 l0 i c Q f now l" and "allowed (settled_rely clk) now t"
  then have h: "honest clk now t" "keeps_small t" using allowed_settled by blast+
  let ?f = "tk_env t f"
  have time: "now \<le> tk_now t" using h(1) by (simp add: honest_def)
  have "dirty clk t0 (tk_now t) i ?f \<or> in_ctime (f_inodes ?f i) = c \<and> Q (in_bytes (f_inodes ?f i))"
  proof (cases "in_bytes (f_inodes ?f i) = in_bytes (f_inodes f i) \<and> in_ctime (f_inodes ?f i) = in_ctime (f_inodes f i)")
    case True
    then show ?thesis using r time by (auto simp: since_def dirty_def)
  next
    case False
    then obtain s where "now \<le> s" "s \<le> tk_now t" "in_ctime (f_inodes ?f i) = clk s"
      using h(1) unfolding honest_def by blast
    moreover have "t0 \<le> now" using r by (simp add: since_def)
    ultimately have "dirty clk t0 (tk_now t) i ?f" unfolding dirty_def by (intro exI [of _ s]) auto
    then show ?thesis by blast
  qed
  moreover have "fs_small ?f" using r h(2) by (simp add: since_def keeps_small_def)
  ultimately show "since clk t0 l0 i c Q ?f (tk_now t) ((?f, ?f) # l)"
    using r time by (auto simp: since_def)
qed

lemma since_mono: "since clk t0 l0 i c Q f now l \<Longrightarrow> (Q (in_bytes (f_inodes f i)) \<Longrightarrow> Q' (in_bytes (f_inodes f i))) \<Longrightarrow>
    since clk t0 l0 i c Q' f now l"
  by (auto simp: since_def)

interpretation since: byte_watch "settled_rely clk" i "since clk t0 l0 i c" for clk t0 l0 i c
  by unfold_locales (auto intro: stable_since since_mono)

section \<open>A settled attempt\<close>

lemma stable_timed:
  assumes "stable (settled_rely clk) A" "\<And>now now'. G now \<Longrightarrow> now \<le> now' \<Longrightarrow> G now'"
  shows "stable (settled_rely clk) (\<lambda>f now l. A f now l \<and> G now)"
  using assms unfolding stable_def by (meson allowed_settled honest_def)

definition begun :: "system_time \<Rightarrow> (fsys \<times> fsys) list \<Rightarrow> assertion" where
  "begun t0 l0 f now l \<longleftrightarrow> t0 \<le> now \<and> fs_small f \<and> (\<exists>new. l = new @ l0)"

lemma stable_begun: "stable (settled_rely clk) (begun t0 l0)"
  unfolding stable_def begun_def
  by (auto dest!: allowed_settled simp: honest_def keeps_small_def intro: order_trans)

text \<open>What the last stamp of the descriptor says when it is not racy.\<close>

definition aged :: "u64 \<Rightarrow> nat \<Rightarrow> file_stamp \<Rightarrow> system_time \<Rightarrow> bool" where
  "aged device i after now \<longleftrightarrow>
     fs_identity after = \<lparr>fi_device = device, fi_inode = of_nat i\<rparr> \<and>
     (\<not> fs_racy after \<longrightarrow>
       (\<exists>t. to_system_time (the (fs_changed after)) = Some t \<and> t + RACY_WINDOW < now))"

text \<open>
  What a stamp promises of the file system: its change time lies behind the clock by more than the
  granularity, so that no later change can set it again, and the inode it names, as long as it has
  that change time, holds the text.
\<close>

definition vouched :: "u64 \<Rightarrow> int \<Rightarrow> file_stamp \<Rightarrow> bytes \<Rightarrow> fsys \<Rightarrow> system_time \<Rightarrow> bool" where
  "vouched device gran stamp text f now \<longleftrightarrow>
     (\<exists>t. to_system_time (the (fs_changed stamp)) = Some t \<and> t + gran < now) \<and>
     (\<forall>i < 2 ^ 64. fs_identity stamp = \<lparr>fi_device = device, fi_inode = of_nat i\<rparr> \<longrightarrow>
        in_ctime (f_inodes f i) = the (fs_changed stamp) \<longrightarrow> in_bytes (f_inodes f i) = text)"

lemma identity_inj: "(of_nat i :: u64) = of_nat j \<Longrightarrow> i < 2 ^ 64 \<Longrightarrow> j < 2 ^ 64 \<Longrightarrow> i = j"
proof -
  assume a: "(of_nat i :: u64) = of_nat j" "i < 2 ^ 64" "j < 2 ^ 64"
  then have "i \<le> usize_max" "j \<le> usize_max" by (simp_all add: usize_max_def)
  then show "i = j" using a(1) by (metis unat_of_nat_u64)
qed

text \<open>An old change time was not set since \<open>t0\<close>.\<close>

lemma old_not_dirty:
  assumes "clock_lag clk gran" "now < 2 ^ 63" "in_ctime (f_inodes f i) = c"
    and "to_system_time c = Some t" "t < t0 - gran"
  shows "\<not> dirty clk t0 now i f"
proof
  assume "dirty clk t0 now i f"
  then obtain s where s: "t0 \<le> s" "c = clk s" "s \<le> now" unfolding dirty_def assms(3) by blast
  then have "s < 2 ^ 63" using assms(2) by linarith
  then obtain t' where "to_system_time (clk s) = Some t'" "s - gran \<le> t'" using assms(1) unfolding clock_lag_def by blast
  then show False using assms(4,5) s by simp
qed

lemma settled_vouched:
  assumes since: "since clk t0 l0 i c (\<lambda>b. b = bytes) f now l" and aged: "aged device i after now'" "now' \<le> now"
    and lag: "clock_lag clk gran" and before: "fs_changed after = Some c" and calm: "\<not> fs_racy after"
    and quick: "now \<le> t0 + RACY_WINDOW - gran" and range: "now < 2 ^ 63"
  shows "vouched device gran after bytes f now"
proof -
  obtain t where t: "to_system_time c = Some t" "t + RACY_WINDOW < now'" using aged(1) calm before by (auto simp: aged_def)
  have old: "t < t0 - gran" using t(2) aged(2) quick by linarith
  have "in_bytes (f_inodes f j) = bytes"
    if "j < 2 ^ 64" "fs_identity after = \<lparr>fi_device = device, fi_inode = of_nat j\<rparr>" "in_ctime (f_inodes f j) = c" for j
  proof -
    have "j = i" using identity_inj [of j i] that aged(1) since by (simp add: aged_def since_def)
    then show ?thesis using old_not_dirty [OF lag range that(3) t(1) old] since by (simp add: since_def)
  qed
  moreover have "t + gran < now" using old since by (simp add: since_def)
  ultimately show ?thesis using t(1) before by (simp add: vouched_def)
qed

text \<open>A path whose stamp is vouched for holds the text.\<close>

lemma vouched_content:
  assumes "vouched device gran stamp text f now" "stamp_at device f p cur" "stamp_eq cur stamp" "fs_small f"
  shows "content_at f p = Some text"
proof -
  obtain j where j: "lookup f p = Some j" "fs_identity cur = \<lparr>fi_device = device, fi_inode = of_nat j\<rparr>"
    "fs_changed cur = Some (in_ctime (f_inodes f j))"
    using assms(2) unfolding stamp_at_def by blast
  have "j < 2 ^ 64" using assms(4) j(1) by (auto simp: fs_small_def lookup_def)
  moreover have "fs_identity stamp = \<lparr>fi_device = device, fi_inode = of_nat j\<rparr>" "the (fs_changed stamp) = in_ctime (f_inodes f j)"
    using assms(3) j(2,3) unfolding stamp_eq_def by (metis option.sel)+
  ultimately have "in_bytes (f_inodes f j) = text" using assms(1) unfolding vouched_def by metis
  then show ?thesis using j(1) by (simp add: content_at_def)
qed

text \<open>
  The times of a file that is racy for a stamp taken after \<open>t0\<close>: it was changed shortly before
  \<open>t0\<close>, or later.
\<close>

definition recent :: "system_time \<Rightarrow> file_time \<Rightarrow> file_time \<Rightarrow> bool" where
  "recent t0 modified changed \<longleftrightarrow>
     within_racy_window t0 (to_system_time modified) \<or> within_racy_window t0 (to_system_time changed)"

text \<open>During the calls in \<open>new\<close>, the path named a file with recent times.\<close>

definition lately :: "system_time \<Rightarrow> path \<Rightarrow> (fsys \<times> fsys) list \<Rightarrow> bool" where
  "lately t0 p new \<longleftrightarrow> (\<exists>i. (\<exists>s\<in>set new. lookup (fst s) p = Some i) \<and>
     (\<exists>s\<in>set new. recent t0 (in_mtime (f_inodes (fst s) i)) (in_ctime (f_inodes (fst s) i))))"

lemma within_earlier: "within_racy_window now t \<Longrightarrow> t0 \<le> now \<Longrightarrow> within_racy_window t0 t"
  by (auto simp: within_racy_window_def split: option.splits if_splits)

lemma lately_now:
  assumes "stamp_at device f p cur" "stamp_eq cur after" "recent t0 (fs_modified after) (the (fs_changed after))"
  shows "lately t0 p ((f, f') # new)"
proof -
  obtain j where "lookup f p = Some j" "fs_modified cur = in_mtime (f_inodes f j)"
    "fs_changed cur = Some (in_ctime (f_inodes f j))"
    using assms(1) unfolding stamp_at_def by blast
  then show ?thesis using assms(2,3) unfolding lately_def stamp_eq_def by (intro exI [of _ j]) auto
qed

text \<open>One attempt, from the begin of the load at \<open>t0\<close>.\<close>

definition justified :: "u64 \<Rightarrow> int \<Rightarrow> system_time \<Rightarrow> (fsys \<times> fsys) list \<Rightarrow> path \<Rightarrow> bytes \<Rightarrow> file_stamp \<Rightarrow> assertion" where
  "justified device gran t0 l0 p text stamp f now l \<longleftrightarrow>
     (\<exists>new. l = new @ l0 \<and>
        (if fs_racy stamp then lately t0 p new else \<exists>s\<in>set new. content_at (fst s) p = Some text)) \<and>
     (\<not> fs_racy stamp \<longrightarrow> vouched device gran stamp text f now)"

definition quick :: "int \<Rightarrow> system_time \<Rightarrow> system_time \<Rightarrow> bool" where
  "quick gran t0 now \<longleftrightarrow> now \<le> t0 + RACY_WINDOW - gran \<and> now < 2 ^ 63"

text \<open>A stamp taken since \<open>t0\<close>.\<close>

definition dated :: "system_time \<Rightarrow> file_stamp \<Rightarrow> bool" where
  "dated t0 stamp \<longleftrightarrow> (fs_racy stamp \<longrightarrow> recent t0 (fs_modified stamp) (the (fs_changed stamp)))"

lemma dated_stamp: "t0 \<le> now \<Longrightarrow> dated t0 (stamp_from_metadata now m)"
  by (auto simp: dated_def recent_def stamp_from_metadata_def dest: within_earlier)

lemma aged_stamp:
  "md_identity m = \<lparr>fi_device = device, fi_inode = of_nat i\<rparr> \<Longrightarrow> aged device i (stamp_from_metadata now m) now"
  by (auto simp: aged_def stamp_from_metadata_def within_racy_window_def split: option.splits if_splits)

lemma since_begun: "since clk t0 l0 i c Q f now l \<Longrightarrow> begun t0 l0 f now l"
  by (simp add: since_def begun_def)

text \<open>All stamps agree: what is left is the settling of a racy one.\<close>

definition settled_stamp :: "(system_time \<Rightarrow> file_time) \<Rightarrow> u64 \<Rightarrow> system_time \<Rightarrow> (fsys \<times> fsys) list \<Rightarrow> nat \<Rightarrow> file_time \<Rightarrow>
    bytes \<Rightarrow> file_stamp \<Rightarrow> assertion" where
  "settled_stamp clk device t0 l0 i c bytes after f now l \<longleftrightarrow>
     dated t0 after \<and> since clk t0 l0 i c (\<lambda>b. b = bytes) f now l \<and> aged device i after now"

definition settled_text :: "(system_time \<Rightarrow> file_time) \<Rightarrow> u64 \<Rightarrow> int \<Rightarrow> system_time \<Rightarrow> (fsys \<times> fsys) list \<Rightarrow> path \<Rightarrow>
    bytes \<Rightarrow> file_stamp \<Rightarrow> assertion" where
  "settled_text clk device gran t0 l0 p text stamp f now l \<longleftrightarrow> begun t0 l0 f now l \<and>
     (clock_lag clk gran \<longrightarrow> quick gran t0 now \<longrightarrow> justified device gran t0 l0 p text stamp f now l)"

lemma stable_settled_stamp: "stable (settled_rely clk) (settled_stamp clk device t0 l0 i c bytes after)"
proof -
  have "stable (settled_rely clk) (\<lambda>f now l. since clk t0 l0 i c (\<lambda>b. b = bytes) f now l \<and> aged device i after now)"
    by (rule stable_timed [OF stable_since]) (fastforce simp: aged_def)
  then show ?thesis unfolding settled_stamp_def stable_def by blast
qed

lemma rg_settle_settled:
  assumes s: "stamp_eq s after" and after: "fs_changed after = Some c"
  shows "rg h (settled_rely clk)
    (\<lambda>f now l. settled_stamp clk (fst (snd h)) t0 l0 i c bytes after f now l \<and> stamp_at (fst (snd h)) f p s \<and>
       logged (settled_stamp clk (fst (snd h)) t0 l0 i c bytes after) f l)
    (settle_candidate x p bytes after)
    (attempt_post (begun t0 l0) (settled_text clk (fst (snd h)) gran t0 l0 p))" (is "rg h ?E ?P _ ?B")
proof -
  let ?D = "\<lambda>f now l. begun t0 l0 f now l \<and> (fs_racy after \<longrightarrow> (\<exists>new. l = new @ l0 \<and> lately t0 p new))"
  have entry: "begun t0 l0 f now l \<and> (\<exists>new. l = ((f, f) # new) @ l0) \<and> stamp_at (fst (snd h)) f p s \<and> dated t0 after \<and>
      since clk t0 l0 i c (\<lambda>b. b = bytes) f now l \<and> aged (fst (snd h)) i after now"
    if "?P f now l" for f now l
    using that by (auto simp: settled_stamp_def logged_def since_def begun_def)
  have "lately t0 p new \<Longrightarrow> lately t0 p (s # new)" for s new by (auto simp: lately_def)
  then have "(\<exists>new. l = new @ l0 \<and> lately t0 p new) \<Longrightarrow> (\<exists>new. s # l = new @ l0 \<and> lately t0 p new)" for l s
    by (metis append_Cons)
  then have stable: "stable ?E ?D" using stable_begun [of clk t0 l0] unfolding stable_def by blast
  show ?thesis
  proof (rule rg_settle_candidate [where D = ?D and W = "\<lambda>j Q. ?D"], goal_cases)
    case (1 f now l)
    note e = entry [OF 1]
    then obtain new where new: "l = ((f, f) # new) @ l0" by auto
    have "justified (fst (snd h)) gran t0 l0 p bytes after f now l"
      if q: "clock_lag clk gran" "quick gran t0 now" "\<not> fs_racy after"
    proof -
      have v: "vouched (fst (snd h)) gran after bytes f now"
        using settled_vouched [OF _ _ order_refl q(1) after q(3)] e q(2) unfolding quick_def by blast
      moreover have "content_at f p = Some bytes"
        using vouched_content [OF v _ s] e by (simp add: begun_def)
      ultimately show ?thesis using q(3) new unfolding justified_def by fastforce
    qed
    then show ?case using e by (auto simp: settled_text_def)
  next
    case (2 f now l)
    note e = entry [OF 2]
    then obtain new where "l = ((f, f) # new) @ l0" by auto
    then show ?case using e lately_now [of "fst (snd h)" f p s after t0] s unfolding dated_def by blast
  next
    case 3
    show ?case by (rule stable)
  next
    case (5 j)
    show ?case using stable by unfold_locales
  qed (simp_all add: settled_text_def justified_def)
qed

interpretation settled: load_watch h "settled_rely clk" x p "begun t0 l0"
    "\<lambda>i f now l. i < 2 ^ 64 \<and> begun t0 l0 f now l" "since clk t0 l0" "settled_stamp clk (fst (snd h)) t0 l0"
    "settled_text clk (fst (snd h)) gran t0 l0 p" "settle_candidate x p" for h clk x p t0 l0 gran
proof (unfold_locales, goal_cases)
  case 1
  show ?case by (rule stable_begun)
next
  case 3
  show ?case using stable_begun [of clk t0 l0] unfolding stable_def by blast
next
  case 6
  show ?case by (rule stable_settled_stamp)
next
  case 9
  then show ?case by (rule rg_settle_settled)
qed (auto simp: begun_def fs_small_def lookup_def since_def settled_stamp_def inode_metadata_def Let_def
  intro!: dated_stamp aged_stamp)

section \<open>The load\<close>

definition snapshot_post :: "u64 \<Rightarrow> int \<Rightarrow> system_time \<Rightarrow> (fsys \<times> fsys) list \<Rightarrow> path \<Rightarrow>
    snapshot_error + snapshot \<Rightarrow> assertion" where
  "snapshot_post device gran t0 l0 p r f now l \<longleftrightarrow>
     (\<forall>s. r = Inr s \<longrightarrow> quick gran t0 now \<longrightarrow>
        (\<exists>stamp. sn_stamp s = Some stamp \<and> justified device gran t0 l0 p (sn_text s) stamp f now l))"

lemma rg_load_attempts:
  assumes lag: "clock_lag clk gran"
  shows "rg h (settled_rely clk) (begun t0 l0) (load_attempts x p n) (snapshot_post (fst (snd h)) gran t0 l0 p)"
  by (rule rg_post [OF settled.rg_attempts [where gran = gran]])
    (auto simp: trusted_load_def settled_text_def snapshot_post_def lag)

section \<open>A clock\<close>

text \<open>A kernel clock that advances every \<open>gran\<close> nanoseconds.\<close>

definition coarse_clock :: "int \<Rightarrow> system_time \<Rightarrow> file_time" where
  "coarse_clock gran s =
     (let q = max 0 (s - s mod gran) in
      \<lparr>ft_seconds = of_int (q div 10 ^ 9), ft_nanoseconds = of_int (q mod 10 ^ 9)\<rparr>)"

lemma sint_small: "0 \<le> n \<Longrightarrow> n < 2 ^ 63 \<Longrightarrow> sint (of_int n :: i64) = n"
  by (simp add: signed_of_int signed_take_bit_int_eq_self)

lemma coarse_clock_time:
  assumes "0 < gran" and s: "s < 2 ^ 63"
  shows "to_system_time (coarse_clock gran s) = Some (max 0 (s - s mod gran))"
proof -
  define q where "q = max 0 (s - s mod gran)"
  have q: "0 \<le> q" "q < 9223372036854775808"
    using s pos_mod_bound [OF assms(1), of s] pos_mod_sign [OF assms(1), of s] by (simp_all add: q_def max_def)
  have "q div 1000000000 < 9223372036854775808" using q zdiv_mono2 [of q 1 1000000000] by simp
  moreover have "0 \<le> q div 1000000000" using q(1) by (simp add: pos_imp_zdiv_nonneg_iff)
  moreover have "\<not> q mod 1000000000 < 0 \<and> \<not> 4294967295 < q mod 1000000000" "min (q mod 1000000000) 999999999 = q mod 1000000000"
    using pos_mod_bound [of 1000000000 q] pos_mod_sign [of 1000000000 q] by linarith+
  ultimately have "to_system_time (coarse_clock gran s) = Some (q div 1000000000 * 1000000000 + q mod 1000000000)"
    by (simp add: to_system_time_def coarse_clock_def Let_def sint_small flip: q_def)
  then show ?thesis by (simp flip: q_def)
qed

lemma coarse_clock_lag: "0 < gran \<Longrightarrow> clock_lag (coarse_clock gran) gran"
  unfolding clock_lag_def
proof (intro allI impI)
  fix s :: int assume a: "0 < gran" "s < 2 ^ 63"
  then show "\<exists>t. to_system_time (coarse_clock gran s) = Some t \<and> s - gran \<le> t"
    using less_imp_le [OF pos_mod_bound [OF a(1), of s]] by (simp add: coarse_clock_time le_max_iff_disj)
qed

section \<open>Concrete worlds\<close>

text \<open>Rules that run a load on a concrete world.\<close>

lemma snapshot_load_twice: "snapshot_load x p = load_attempts x p (Suc (Suc 0))"
  by (simp add: snapshot_load_def MAX_READ_ATTEMPTS_def numeral_2_eq_2)

lemmas run_defs = snapshot_load_twice read_candidate_def read_loop.simps settle_candidate_def accept_text_def
  path_stamp_def stamp_of_def sys_open_def sys_fstat_def sys_read_def sys_stat_def syscall_def next_tick_def
  quiet_tick_def lookup_def comp_simps fs_read_def read_all.simps

lemmas stamp_defs = stamp_from_metadata_def within_racy_window_def RACY_WINDOW_def coarse_clock_time inode_metadata_def
  stamp_eq_def stamp_opt_eq_def

lemmas size_defs = validate_file_size_def MAX_FILE_BYTES_def usize_of_u64_def usize_max_def checked_add_usize_def
  u64_of_usize_def READ_BUFFER_BYTES_def

lemma plain_reserve [simp]: "x_reserve plain_externs n"
  by (simp add: plain_externs_def)

lemma two_letters_ok: "text_ok ''ab''" "text_ok ''ay''" "text_ok ''xy''"
  by (simp_all add: text_ok_def max_file_len_def utf8_ok_ascii code_of_def)

lemma path_f: "path_components ''/f'' = [RootDir, Normal ''f'']"
  by code_simp

text \<open>A file of two bytes; the clock of the kernel ticks every four milliseconds.\<close>

definition small_fs :: "bytes \<Rightarrow> file_time \<Rightarrow> fsys" where
  "small_fs bytes time =
     \<lparr>f_names = [[RootDir] \<mapsto> 0, [RootDir, Normal ''f''] \<mapsto> 1],
      f_inodes = \<lambda>i. if i = 1 then \<lparr>in_dir = False, in_bytes = bytes, in_mtime = time, in_ctime = time\<rparr>
        else \<lparr>in_dir = True, in_bytes = [], in_mtime = time, in_ctime = time\<rparr>,
      f_next = 2\<rparr>"

definition small_world :: "bytes \<Rightarrow> system_time \<Rightarrow> system_time \<Rightarrow> tick list \<Rightarrow> world" where
  "small_world bytes written now script =
     \<lparr>w_fs = small_fs bytes (coarse_clock 4000000 written), w_now = now, w_script = script, w_log = [],
      w_clock = coarse_clock 4000000, w_device = 1, w_pid = 7, w_counter = 0\<rparr>"

definition rewrite_f :: "fsys \<Rightarrow> fsys" where
  "rewrite_f f = f\<lparr>f_inodes := (f_inodes f)(1 := (f_inodes f 1)\<lparr>in_bytes := ''xy'',
     in_mtime := coarse_clock 4000000 1000000000, in_ctime := coarse_clock 4000000 1000000000\<rparr>)\<rparr>"

definition torn_script :: "tick list" where
  "torn_script =
     (let idle = \<lambda>now. \<lparr>tk_env = id, tk_now = now, tk_fault = None, tk_chunk = 0\<rparr> in
      [idle 1000000000, idle 1000000000, idle 1000000000,
       \<lparr>tk_env = rewrite_f, tk_now = 4000000000, tk_fault = None, tk_chunk = 0\<rparr>,
       idle 4000000000, idle 4000000000, idle 4000000000])"

lemma torn_script_honest: "script_ok (settled_rely (coarse_clock 4000000)) 1000000000 torn_script"
proof -
  have "fs_small (rewrite_f f)" if "fs_small f" for f
    using that by (auto simp: fs_small_def rewrite_f_def)
  then have "settled_rely (coarse_clock 4000000) 1000000000 \<lparr>tk_env = rewrite_f, tk_now = 4000000000, tk_fault = None, tk_chunk = 0\<rparr>"
    by (auto simp: settled_rely_def honest_def keeps_small_def rewrite_f_def intro!: exI [of _ 1000000000])
  then show ?thesis by (simp add: torn_script_def Let_def settled_rely_def honest_def keeps_small_def)
qed

section \<open>A slow load\<close>

text \<open>
  The bound on the duration is needed: the load asks only its last stamp whether it
  is racy.  A file of \<open>ab\<close> is rewritten to \<open>xy\<close> between two reads, in the tick of the clock in
  which it was written before; the rest of the read takes three seconds, so the last stamp is no
  longer racy, and the load returns \<open>ay\<close>, which the file never held.
\<close>

lemma slow_load_can_tear:
  "clock_lag (coarse_clock 4000000) 4000000 \<and>
   script_ok (settled_rely (coarse_clock 4000000)) 1000000000 torn_script \<and>
   (case snapshot_load plain_externs ''/f'' (small_world ''ab'' 1000000000 1000000000 torn_script) of
      (Inr s, w') \<Rightarrow> sn_text s = ''ay'' \<and> list_all (\<lambda>moment. content_at (fst moment) ''/f'' \<noteq> Some ''ay'') (w_log w')
    | _ \<Rightarrow> False)"
  using coarse_clock_lag [of 4000000] torn_script_honest
  by (simp add: run_defs torn_script_def small_world_def small_fs_def Let_def path_f stamp_defs size_defs
      validated_text_eq rewrite_f_def from_validated_with_stamp_ok two_letters_ok content_at_def)

end
