(* ===== verification/Load_Exact.thy ===== *)
theory Load_Exact
  imports Load_Settled
begin

text \<open>
  The checks of an attempt of \<open>Snapshot::load\<close> and what each is good for.  Where every change of a
  file gives it a later change time, the comparison of the stamps before and after the read and
  of the path makes the load exact.  Where the clock is coarse, a stamp that is not racy does so for
  a quick load, and the second read of the path for a racy one.
\<close>

section \<open>Change times that advance\<close>

definition later :: "file_time \<Rightarrow> file_time \<Rightarrow> bool" where
  "later t t' \<longleftrightarrow> sint (ft_seconds t') < sint (ft_seconds t) \<or>
     ft_seconds t = ft_seconds t' \<and> sint (ft_nanoseconds t') < sint (ft_nanoseconds t)"

lemma later_irrefl [simp]: "\<not> later t t"
  by (simp add: later_def)

lemma later_trans: "later a b \<Longrightarrow> later b c \<Longrightarrow> later a c"
  by (auto simp: later_def)

text \<open>
  What the others do where change times advance: a file keeps its bytes and its change time, or gets
  a strictly later change time.
\<close>

definition advancing :: rely where
  "advancing now t \<longleftrightarrow> keeps_small t \<and>
     (\<forall>f i. in_bytes (f_inodes (tk_env t f) i) = in_bytes (f_inodes f i) \<and>
            in_ctime (f_inodes (tk_env t f) i) = in_ctime (f_inodes f i) \<or>
            later (in_ctime (f_inodes (tk_env t f) i)) (in_ctime (f_inodes f i)))"

lemma advancing_quiet [simp]: "advancing now (quiet_tick now)"
  by (simp add: advancing_def keeps_small_def quiet_tick_def)

lemma allowed_advancing: "allowed advancing now t \<longleftrightarrow> advancing now t"
  by (auto simp: allowed_def)

definition small_since :: "(fsys \<times> fsys) list \<Rightarrow> assertion" where
  "small_since l0 f now l \<longleftrightarrow> fs_small f \<and> (\<exists>new. l = new @ l0)"

text \<open>The inode was touched since it had the change time \<open>c\<close>, or its bytes satisfy \<open>Q\<close>.\<close>

definition unless_later :: "(fsys \<times> fsys) list \<Rightarrow> nat \<Rightarrow> file_time \<Rightarrow> (bytes \<Rightarrow> bool) \<Rightarrow> assertion" where
  "unless_later l0 i c Q f now l \<longleftrightarrow> i < 2 ^ 64 \<and> small_since l0 f now l \<and>
     (later (in_ctime (f_inodes f i)) c \<or> in_ctime (f_inodes f i) = c \<and> Q (in_bytes (f_inodes f i)))"

definition ordered_stamp :: "u64 \<Rightarrow> (fsys \<times> fsys) list \<Rightarrow> nat \<Rightarrow> file_time \<Rightarrow> bytes \<Rightarrow> file_stamp \<Rightarrow> assertion" where
  "ordered_stamp device l0 i c bytes after f now l \<longleftrightarrow> unless_later l0 i c (\<lambda>b. b = bytes) f now l \<and>
     fs_identity after = \<lparr>fi_device = device, fi_inode = of_nat i\<rparr>"

lemma stable_small_since: "stable advancing (small_since l0)"
  by (auto simp: stable_def allowed_advancing small_since_def advancing_def keeps_small_def)

lemma stable_unless_later: "stable advancing (unless_later l0 i c Q)"
  unfolding stable_def allowed_advancing
proof (intro allI impI)
  fix f now l t assume r: "unless_later l0 i c Q f now l" and t: "advancing now t"
  have "small_since l0 (tk_env t f) (tk_now t) ((tk_env t f, tk_env t f) # l)"
    using stable_small_since r t unfolding stable_def allowed_advancing unless_later_def by blast
  moreover have "later (in_ctime (f_inodes (tk_env t f) i)) c \<or>
      in_ctime (f_inodes (tk_env t f) i) = c \<and> Q (in_bytes (f_inodes (tk_env t f) i))"
    using r t unfolding advancing_def unless_later_def by (metis later_trans)
  ultimately show "unless_later l0 i c Q (tk_env t f) (tk_now t) ((tk_env t f, tk_env t f) # l)"
    using r by (simp add: unless_later_def)
qed

lemma stable_ordered_stamp: "stable advancing (ordered_stamp device l0 i c bytes after)"
  using stable_unless_later unfolding ordered_stamp_def stable_def by blast

interpretation strict_bytes: byte_watch advancing i "unless_later l0 i c" for i l0 c
  by unfold_locales (auto intro: stable_unless_later simp: unless_later_def)

text \<open>The stamps agree: the inode was not touched during the read, and the path names it.\<close>

lemma ordered_content:
  assumes "ordered_stamp device l0 i c bytes after f now l" "stamp_at device f p s"
    and "stamp_eq s after" "fs_changed after = Some c"
  shows "content_at f p = Some bytes"
proof -
  obtain j where j: "lookup f p = Some j" "fs_identity s = \<lparr>fi_device = device, fi_inode = of_nat j\<rparr>"
    "fs_changed s = Some (in_ctime (f_inodes f j))"
    using assms(2) unfolding stamp_at_def by blast
  have "j < 2 ^ 64" using assms(1) j(1) by (auto simp: ordered_stamp_def unless_later_def small_since_def fs_small_def lookup_def)
  then have "j = i" using identity_inj [of j i] assms(1,3) j(2)
    by (simp add: stamp_eq_def ordered_stamp_def unless_later_def)
  moreover from this have "in_ctime (f_inodes f i) = c" using assms(3,4) j(3) by (simp add: stamp_eq_def)
  ultimately show ?thesis using assms(1) j(1) by (simp add: content_at_def ordered_stamp_def unless_later_def)
qed

lemma rg_settle_ordered:
  assumes "stamp_eq s after" "fs_changed after = Some c"
  shows "rg h advancing
    (\<lambda>f now l. ordered_stamp (fst (snd h)) l0 i c bytes after f now l \<and> stamp_at (fst (snd h)) f p s \<and>
       logged (ordered_stamp (fst (snd h)) l0 i c bytes after) f l)
    (settle_candidate x p bytes after)
    (attempt_post (small_since l0) (\<lambda>text stamp f now l. held_text l0 p text l))" (is "rg h ?E ?P _ ?B")
proof -
  let ?D = "\<lambda>f now l. small_since l0 f now l \<and> held_text l0 p bytes l"
  have entry: "?D f now l" if "?P f now l" for f now l
  proof -
    from that obtain new where "l = (f, f) # new @ l0"
      by (auto simp: logged_def ordered_stamp_def unless_later_def small_since_def)
    moreover have "content_at f p = Some bytes" using that assms by (blast intro: ordered_content)
    ultimately show ?thesis using that held_text_now by (auto simp: ordered_stamp_def unless_later_def)
  qed
  have stable: "stable advancing ?D"
    using stable_small_since [of l0] held_text_more unfolding stable_def by blast
  show ?thesis
  proof (rule rg_settle_candidate [where D = ?D and W = "\<lambda>j Q. ?D"], goal_cases)
    case (5 j)
    show ?case using stable by unfold_locales
  qed (use entry stable in auto)
qed

interpretation strict: load_watch h advancing x p "small_since l0" "\<lambda>i f now l. i < 2 ^ 64 \<and> small_since l0 f now l"
    "unless_later l0" "ordered_stamp (fst (snd h)) l0" "\<lambda>text stamp f now l. held_text l0 p text l"
    "settle_candidate x p" for h x p l0
proof (unfold_locales, goal_cases)
  case 1
  show ?case by (rule stable_small_since)
next
  case 3
  show ?case using stable_small_since [of l0] unfolding stable_def by blast
next
  case 6
  show ?case by (rule stable_ordered_stamp)
next
  case 9
  then show ?case by (rule rg_settle_ordered)
qed (auto simp: small_since_def fs_small_def lookup_def unless_later_def ordered_stamp_def inode_metadata_def
  stamp_from_metadata_def Let_def)

section \<open>One change of the file\<close>

text \<open>Two states agree on what a path names and on the bytes of that.\<close>

definition agree :: "path \<Rightarrow> fsys \<Rightarrow> fsys \<Rightarrow> bool" where
  "agree p f g \<longleftrightarrow> lookup f p = lookup g p \<and>
     (\<forall>i. lookup f p = Some i \<longrightarrow> in_bytes (f_inodes f i) = in_bytes (f_inodes g i))"

lemma agree_refl [simp]: "agree p f f"
  by (simp add: agree_def)

lemma agree_bytes: "agree p f g \<Longrightarrow> lookup g p = Some i \<Longrightarrow> in_bytes (f_inodes f i) = in_bytes (f_inodes g i)"
  by (simp add: agree_def)

lemma agree_content: "agree p f g \<Longrightarrow> content_at f p = content_at g p"
  by (cases "lookup g p") (auto simp: agree_def content_at_def)

text \<open>The others take the path from \<open>F\<close> to \<open>G\<close>, at most once, in one step; elsewhere they do what they like.\<close>

definition one_change :: "path \<Rightarrow> fsys \<Rightarrow> fsys \<Rightarrow> rely" where
  "one_change p F G now t \<longleftrightarrow>
     (\<forall>f. agree p f F \<longrightarrow> agree p (tk_env t f) F \<or> agree p (tk_env t f) G) \<and>
     (\<forall>f. agree p f G \<longrightarrow> agree p (tk_env t f) G)"

lemma allowed_one_change: "allowed (one_change p F G) now t \<longleftrightarrow> one_change p F G now t"
  by (auto simp: allowed_def one_change_def quiet_tick_def)

definition either :: "path \<Rightarrow> fsys \<Rightarrow> fsys \<Rightarrow> (fsys \<times> fsys) list \<Rightarrow> assertion" where
  "either p F G l0 f now l \<longleftrightarrow> (\<exists>new. l = new @ l0) \<and> (agree p f F \<or> agree p f G)"

text \<open>The change has happened, or the bytes of the inode the path names still satisfy \<open>Q\<close>.\<close>

definition unless_changed :: "path \<Rightarrow> fsys \<Rightarrow> fsys \<Rightarrow> (fsys \<times> fsys) list \<Rightarrow> nat \<Rightarrow> (bytes \<Rightarrow> bool) \<Rightarrow> assertion" where
  "unless_changed p F G l0 i Q f now l \<longleftrightarrow> (\<exists>new. l = new @ l0) \<and>
     (agree p f F \<and> lookup F p = Some i \<and> Q (in_bytes (f_inodes f i)) \<or> agree p f G)"

text \<open>At the second read: the text was seen, or the change has happened, and \<open>j\<close> is what the path names since.\<close>

definition reread :: "path \<Rightarrow> fsys \<Rightarrow> fsys \<Rightarrow> (fsys \<times> fsys) list \<Rightarrow> bytes \<Rightarrow> nat \<Rightarrow> (bytes \<Rightarrow> bool) \<Rightarrow> assertion" where
  "reread p F G l0 t j Q f now l \<longleftrightarrow> either p F G l0 f now l \<and>
     (held_text l0 p t l \<or> agree p f G \<and> (\<exists>g. held_text l0 p g l \<and> content_at G p = Some g) \<and>
        lookup G p = Some j \<and> Q (in_bytes (f_inodes f j)))"

lemma stable_either: "stable (one_change p F G) (either p F G l0)"
  unfolding stable_def either_def allowed_one_change one_change_def by auto

lemma stable_unless_changed: "stable (one_change p F G) (unless_changed p F G l0 i Q)"
proof -
  have "in_bytes (f_inodes (tk_env t f) i) = in_bytes (f_inodes f i)"
    if "agree p f F" "agree p (tk_env t f) F" "lookup F p = Some i" for f t
    using that by (simp add: agree_bytes)
  then show ?thesis unfolding stable_def unless_changed_def allowed_one_change one_change_def by auto
qed

lemma stable_reread: "stable (one_change p F G) (reread p F G l0 t j Q)"
proof -
  have "in_bytes (f_inodes (tk_env s f) j) = in_bytes (f_inodes f j)"
    if "agree p f G" "one_change p F G now s" "lookup G p = Some j" for f now s
    using that agree_bytes unfolding one_change_def by metis
  then show ?thesis
    using stable_either [of p F G l0] held_text_more
    unfolding stable_def reread_def allowed_one_change by (auto simp: one_change_def) 
qed

interpretation once_bytes: byte_watch "one_change p F G" i "unless_changed p F G l0 i" for p F G i l0
  by unfold_locales (auto intro: stable_unless_changed simp: unless_changed_def)

interpretation reread_bytes: byte_watch "one_change p F G" j "reread p F G l0 t j" for p F G l0 t j
  by unfold_locales (auto intro: stable_reread simp: reread_def)

lemma rg_settle_reread:
  "rg h (one_change p F G)
    (\<lambda>f now l. unless_changed p F G l0 i (\<lambda>b. b = bytes) f now l \<and>
       logged (unless_changed p F G l0 i (\<lambda>b. b = bytes)) f l)
    (settle_candidate x p bytes after)
    (attempt_post (either p F G l0) (\<lambda>text stamp f now l. fs_racy stamp \<longrightarrow> held_text l0 p text l))"
    (is "rg h ?E ?P _ ?B")
proof -
  let ?D = "\<lambda>f now l. either p F G l0 f now l \<and> (held_text l0 p bytes l \<or> agree p f G)"
  have entry: "?D f now l" if P: "?P f now l" for f now l
  proof -
    from P obtain new where new: "l = (f, f) # new @ l0" by (auto simp: logged_def unless_changed_def)
    have "content_at f p = Some bytes \<or> agree p f G"
      using P by (auto simp: unless_changed_def agree_def content_at_def)
    then show ?thesis using P new held_text_now by (auto simp: unless_changed_def either_def)
  qed
  have stable: "stable ?E ?D"
    using stable_either [of p F G l0] held_text_more unfolding stable_def allowed_one_change
    by (auto simp: one_change_def)
  show ?thesis
  proof (rule rg_settle_candidate [where D = ?D and W = "reread p F G l0 bytes"], goal_cases)
    case (2 f now l)
    then show ?case by (rule entry)
  next
    case 3
    show ?case by (rule stable)
  next
    case (4 f now l j)
    then obtain new where new: "l = (f, f) # new @ l0" by (auto simp: logged_def either_def)
    have now: "content_at f p = Some (in_bytes (f_inodes f j))" using 4(3) by (simp add: content_at_def)
    then have "held_text l0 p (in_bytes (f_inodes f j)) l" unfolding new by (rule held_text_now)
    moreover have "content_at G p = Some (in_bytes (f_inodes f j))" "lookup G p = Some j" if "agree p f G"
      using now agree_content [OF that] that 4(3) by (simp_all add: agree_def)
    ultimately show ?case using 4(1) by (auto simp: reread_def)
  next
    case (5 j)
    show ?case by unfold_locales
  next
    case (6 j Q f now l)
    then show ?case by (auto simp: reread_def)
  next
    case (7 j f now l)
    then show ?case by (auto simp: reread_def agree_def content_at_def)
  qed (auto simp: either_def unless_changed_def)
qed

interpretation once: load_watch h "one_change p F G" x p "either p F G l0" "\<lambda>i. unless_changed p F G l0 i (begins [])"
    "\<lambda>i c. unless_changed p F G l0 i" "\<lambda>i c bytes after. unless_changed p F G l0 i (\<lambda>b. b = bytes)"
    "\<lambda>text stamp f now l. fs_racy stamp \<longrightarrow> held_text l0 p text l" "settle_candidate x p" for h p F G x l0
proof (unfold_locales, goal_cases)
  case 1
  show ?case by (rule stable_either)
next
  case 3
  show ?case by (rule stable_unless_changed)
next
  case 6
  show ?case by (rule stable_unless_changed)
next
  case 9
  show ?case by (rule rg_pre [OF rg_settle_reread]) blast
qed (auto simp: either_def unless_changed_def agree_def)

section \<open>Properties\<close>

text \<open>A file rewritten between the first two reads of a load, a byte each.\<close>

definition overtaken :: "(fsys \<Rightarrow> fsys) \<Rightarrow> tick list" where
  "overtaken change =
     (let idle = \<lparr>tk_env = id, tk_now = 1000000000, tk_fault = None, tk_chunk = 0\<rparr> in
      [idle, idle, idle, idle\<lparr>tk_env := change\<rparr>, idle])"

lemma script_ok_overtaken:
  assumes "E 1000000000 \<lparr>tk_env = id, tk_now = 1000000000, tk_fault = None, tk_chunk = 0\<rparr>"
    and "E 1000000000 \<lparr>tk_env = change, tk_now = 1000000000, tk_fault = None, tk_chunk = 0\<rparr>"
  shows "script_ok E 1000000000 (overtaken change)"
  using assms by (simp add: overtaken_def Let_def)

lemma fs_small_small: "fs_small (w_fs (small_world ''ab'' written now script))"
  by (auto simp: small_world_def small_fs_def fs_small_def split: if_splits)

definition advance_f :: "fsys \<Rightarrow> fsys" where
  "advance_f f = (if later (coarse_clock 4000000 1000000000) (in_ctime (f_inodes f 1)) then rewrite_f f else f)"

lemma coarse_ticks:
  "later (coarse_clock 4000000 1000000000) (coarse_clock 4000000 500000000)"
  "coarse_clock 4000000 500000000 \<noteq> coarse_clock 4000000 1000000000"
  by (simp_all add: later_def coarse_clock_def Let_def)

text \<open>
  Property C11.  A snapshot loaded while others write to the file is not torn, however long the load
  takes and whatever reads, writes, renames and faults happen in between: on a system where change
  times never go back and every change of the bytes of a file gives it a strictly later one, the
  text of the snapshot is what the path held at one moment during the load. Nothing else is assumed
  of the clock or of the stamps (inode numbers and file lengths fit the 64 bits of the metadata).
  This is what the comparison of the stamps before and after the read, and with the stamp of the
  path, is for.
\<close>

theorem strict_load_exact:
  assumes "fs_small (w_fs w)" "script_ok advancing (w_now w) (w_script w)"
    and "snapshot_load x p w = (Inr s, w')"
  shows "\<exists>new. w_log w' = new @ w_log w \<and> (\<exists>moment\<in>set new. content_at (fst moment) p = Some (sn_text s))"
proof -
  have "holds (small_since (w_log w)) w" using assms(1) by (simp add: holds_def small_since_def)
  from rgD(3) [OF strict.rg_attempts refl assms(2) this assms(3) [unfolded snapshot_load_def]]
  show ?thesis by (auto simp: holds_def trusted_load_def held_text_def)
qed

theorem strict_load_exact_witness:
  "\<exists>s w'. snapshot_load plain_externs ''/f'' (small_world ''ab'' 500000000 1000000000 (overtaken advance_f)) = (Inr s, w') \<and>
     sn_text s = ''xy'' \<and> (\<exists>moment\<in>set (w_log w'). content_at (fst moment) ''/f'' = Some (sn_text s))"
proof -
  let ?w = "small_world ''ab'' 500000000 1000000000 (overtaken advance_f)"
  let ?run = "snapshot_load plain_externs ''/f'' ?w"
  have "\<exists>s w'. ?run = (Inr s, w') \<and> sn_text s = ''xy''"
    by (simp add: run_defs overtaken_def small_world_def small_fs_def Let_def path_f stamp_defs size_defs validated_text_eq
        rewrite_f_def advance_f_def coarse_ticks from_validated_with_stamp_ok two_letters_ok)
  then obtain s w' where r: "?run = (Inr s, w')" "sn_text s = ''xy''" by blast
  have "script_ok advancing (w_now ?w) (w_script ?w)"
    by (simp add: small_world_def, rule script_ok_overtaken)
      (auto simp: advancing_def keeps_small_def advance_f_def fs_small_def rewrite_f_def)
  from strict_load_exact [OF fs_small_small this r(1)] show ?thesis
    using r by (auto simp: small_world_def)
qed

text \<open>
  Property C27.  On a system with a coarse clock, where a change can leave the change time as it
  was: a load whose stamp is not racy, and that took no longer than the racy window less the
  granularity of the clock, returns what the path held at one moment during the load, whatever
  happened in between; and so does a load whose stamp is racy, however long it took, when the others
  changed what the path holds at most once. The second read of the path, after a racy stamp, is what
  makes the latter true: the change may fall between the first reads and leave both stamps equal.
\<close>

theorem coarse_load_exact:
  assumes "clock_lag (w_clock w) gran" "fs_small (w_fs w)"
    and "script_ok (settled_rely (w_clock w)) (w_now w) (w_script w)"
    and "snapshot_load x p w = (Inr s, w')" "sn_stamp s = Some stamp"
    and "\<not> fs_racy stamp \<Longrightarrow> quick gran (w_now w) (w_now w')"
    and "fs_racy stamp \<Longrightarrow> script_ok (one_change p (w_fs w) G) (w_now w) (w_script w)"
  shows "\<exists>new. w_log w' = new @ w_log w \<and> (\<exists>moment\<in>set new. content_at (fst moment) p = Some (sn_text s))"
proof (cases "fs_racy stamp")
  case True
  have "holds (either p (w_fs w) G (w_log w)) w" by (simp add: holds_def either_def)
  from rgD(3) [OF once.rg_attempts refl assms(7) [OF True] this assms(4) [unfolded snapshot_load_def]]
  show ?thesis using True assms(5) by (auto simp: holds_def trusted_load_def held_text_def)
next
  case False
  have "holds (begun (w_now w) (w_log w)) w" using assms(2) by (simp add: holds_def begun_def)
  from rgD(3) [OF rg_load_attempts [OF assms(1)] refl assms(3) this assms(4) [unfolded snapshot_load_def]]
  show ?thesis using False assms(5) assms(6) [OF False] by (auto simp: holds_def snapshot_post_def justified_def)
qed

theorem coarse_load_exact_witness:
  "\<exists>s w'. snapshot_load plain_externs ''/f'' (small_world ''ab'' 1000000000 1000000000 (overtaken rewrite_f)) = (Inr s, w') \<and>
     sn_text s = ''xy'' \<and> (\<exists>moment\<in>set (w_log w'). content_at (fst moment) ''/f'' = Some (sn_text s))"
proof -
  let ?w = "small_world ''ab'' 1000000000 1000000000 (overtaken rewrite_f)"
  let ?G = "small_fs ''xy'' (coarse_clock 4000000 1000000000)"
  let ?run = "snapshot_load plain_externs ''/f'' ?w"
  have "\<exists>s w' stamp. ?run = (Inr s, w') \<and> sn_text s = ''xy'' \<and> sn_stamp s = Some stamp \<and> fs_racy stamp"
    by (simp add: run_defs overtaken_def small_world_def small_fs_def Let_def path_f stamp_defs size_defs validated_text_eq
        rewrite_f_def from_validated_with_stamp_ok two_letters_ok)
  then obtain s w' stamp where r: "?run = (Inr s, w')" "sn_text s = ''xy''" "sn_stamp s = Some stamp" "fs_racy stamp" by blast
  have "script_ok (settled_rely (w_clock ?w)) (w_now ?w) (w_script ?w)"
    by (simp add: small_world_def, rule script_ok_overtaken)
      (auto simp: settled_rely_def honest_def keeps_small_def fs_small_def rewrite_f_def intro!: exI [of _ 1000000000])
  moreover have "script_ok (one_change ''/f'' (w_fs ?w) ?G) (w_now ?w) (w_script ?w)"
    by (simp add: small_world_def, rule script_ok_overtaken)
      (auto simp: one_change_def agree_def lookup_def path_f small_fs_def rewrite_f_def)
  moreover have "clock_lag (w_clock ?w) 4000000" by (simp add: small_world_def coarse_clock_lag)
  ultimately show ?thesis
    using coarse_load_exact [OF _ fs_small_small _ r(1,3), of 4000000 ?G] r by (auto simp: small_world_def)
qed

end
