(* ===== verification/Persistence.thy ===== *)
theory Persistence
  imports Load_Settled
begin

text \<open>
  Atomic same-directory persistence (\<open>src/persist.rs\<close>): a unique temporary file, the guard on the
  destination, the rename or the exclusive link, and the confirmed stamp.  The per-path lock is in
  theory \<open>Path_Locks\<close>; here the other writers are the ticks of the script.
\<close>

section \<open>The code\<close>

record expected_destination =
  ed_stamp :: file_stamp
  ed_content_id :: snapshot_id

definition io_err :: "string \<Rightarrow> path \<Rightarrow> io_error \<Rightarrow> persist_error" where
  "io_err operation p source = PersistIo operation p source"

text \<open>\<open>unique_temp_name\<close>: process, counter and time; a clock before the epoch counts as 0.\<close>

definition temp_name :: "nat \<Rightarrow> u64 \<Rightarrow> system_time \<Rightarrow> string" where
  "temp_name pid discriminator now =
     ''.hashline-'' @ dec_string pid @ ''-'' @ dec_string (unat discriminator) @ ''-'' @
     dec_string (nat now) @ ''.tmp''"

definition unique_temp_name :: "('z world_scheme, 'e, string) comp" where
  "unique_temp_name = (\<lambda>w.
     (Inr (temp_name (w_pid w) (w_counter w) (w_now w)), w\<lparr>w_counter := w_counter w + 1\<rparr>))"

definition sync_temp :: "path \<Rightarrow> durability \<Rightarrow> nat \<Rightarrow> ('z world_scheme, persist_error, unit) comp" where
  "sync_temp p durability i =
     (case durability of
        DurFull \<Rightarrow> with_err (io_err ''fsync temp for'' p) (sys_sync i)
      | DurBarrier \<Rightarrow> with_err (io_err ''barrier-sync temp for'' p) (sys_sync i)
      | DurNone \<Rightarrow> ret ())"

definition write_temp :: "path \<Rightarrow> path \<Rightarrow> bytes \<Rightarrow> durability \<Rightarrow> ('z world_scheme, persist_error, file_stamp) comp" where
  "write_temp temp_path p bytes durability =
     bind (with_err (io_err ''create temp for'' p) (sys_create_new temp_path)) (\<lambda>i.
     bind (with_err (io_err ''write temp for'' p) (write_all i 0 bytes)) (\<lambda>_.
     bind (sync_temp p durability i) (\<lambda>_.
     bind (with_err (io_err ''stat temp for'' p) (sys_fstat i)) stamp_of)))"

definition write_unique_temp ::
    "path \<Rightarrow> path \<Rightarrow> bytes \<Rightarrow> durability \<Rightarrow> ('z world_scheme, persist_error, path \<times> file_stamp) comp" where
  "write_unique_temp parent p bytes durability =
     bind unique_temp_name (\<lambda>name.
     let temp_path = path_join parent name in
     handle (write_temp temp_path p bytes durability)
       (\<lambda>error. bind (ignore (sys_remove_file temp_path)) (\<lambda>_. raise error))
       (\<lambda>stamp. ret (temp_path, stamp)))"

definition fsync_parent :: "path \<Rightarrow> ('z world_scheme, 'e, unit) comp" where
  "fsync_parent parent = handle (sys_open parent) (\<lambda>_. ret ()) (\<lambda>dir. ignore (sys_sync dir))"

definition confirm_stamp :: "path \<Rightarrow> file_stamp \<Rightarrow> ('z world_scheme, 'e, file_stamp option) comp" where
  "confirm_stamp p temp_stamp =
     handle (sys_stat p) (\<lambda>_. ret None)
       (\<lambda>m. bind (stamp_of m) (\<lambda>current. ret (confirmed_after_rename temp_stamp current)))"

definition create_parent :: "path \<Rightarrow> ('z world_scheme, persist_error, unit) comp" where
  "create_parent p =
     (case path_parent p of
        None \<Rightarrow> ret ()
      | Some parent \<Rightarrow> with_err (io_err ''create parent of'' p) (create_dir_all parent))"

definition temp_parent :: "path \<Rightarrow> path" where
  "temp_parent p = (case path_parent p of None \<Rightarrow> ''.'' | Some parent \<Rightarrow> parent)"

text \<open>\<open>fail_removing e\<close> is \<open>let _ = fs::remove_file(&temp_path); return Err(e)\<close>.\<close>

definition fail_removing :: "path \<Rightarrow> persist_error \<Rightarrow> ('z world_scheme, persist_error, 'a) comp" where
  "fail_removing temp_path e = bind (ignore (sys_remove_file temp_path)) (\<lambda>_. raise e)"

text \<open>The content check of a racy stamp: at most one byte more than expected is read.\<close>

definition destination_unchanged ::
    "externs \<Rightarrow> path \<Rightarrow> path \<Rightarrow> expected_destination \<Rightarrow> ('z world_scheme, persist_error, bool) comp" where
  "destination_unchanged x p temp_path expected =
     handle (sys_open p)
       (\<lambda>source. if io_kind_of source = IoNotFound then ret False
                else fail_removing temp_path (io_err ''open destination for'' p source))
       (\<lambda>i. handle (read_all i (Some (unat (sat_add_u64 (fs_len (ed_stamp expected)) 1))) [])
          (\<lambda>source. fail_removing temp_path (io_err ''read destination for'' p source))
          (\<lambda>destination. ret (content_id x destination = ed_content_id expected)))"

definition guard_destination ::
    "externs \<Rightarrow> path \<Rightarrow> path \<Rightarrow> expected_destination option \<Rightarrow> ('z world_scheme, persist_error, unit) comp" where
  "guard_destination x p temp_path expected =
     (case expected of
        None \<Rightarrow> ret ()
      | Some expected \<Rightarrow>
          handle (sys_stat p)
            (\<lambda>source. if io_kind_of source = IoNotFound then fail_removing temp_path (DestinationChanged p)
                     else fail_removing temp_path (io_err ''stat destination'' p source))
            (\<lambda>m. bind (stamp_of m) (\<lambda>current.
               if \<not> stamp_eq current (ed_stamp expected) then fail_removing temp_path (DestinationChanged p)
               else if fs_racy (ed_stamp expected) then
                 bind (destination_unchanged x p temp_path expected) (\<lambda>unchanged.
                   if \<not> unchanged then fail_removing temp_path (DestinationChanged p) else ret ())
               else ret ())))"

definition rename_into :: "path \<Rightarrow> path \<Rightarrow> ('z world_scheme, persist_error, unit) comp" where
  "rename_into temp_path p =
     handle (sys_rename temp_path p)
       (\<lambda>source. fail_removing temp_path (io_err ''rename into'' p source)) ret"

definition finish_persist :: "path \<Rightarrow> durability \<Rightarrow> file_stamp \<Rightarrow> ('z world_scheme, persist_error, file_stamp option) comp" where
  "finish_persist p durability stamp =
     bind (if durability = DurFull then fsync_parent (temp_parent p) else ret ()) (\<lambda>_. confirm_stamp p stamp)"

definition atomic_write ::
    "externs \<Rightarrow> path \<Rightarrow> bytes \<Rightarrow> expected_destination option \<Rightarrow> durability \<Rightarrow> ('z world_scheme, persist_error, file_stamp option) comp" where
  "atomic_write x p bytes expected durability =
     bind (create_parent p) (\<lambda>_.
     bind (write_unique_temp (temp_parent p) p bytes durability) (\<lambda>(temp_path, stamp).
     bind (guard_destination x p temp_path expected) (\<lambda>_.
     bind (rename_into temp_path p) (\<lambda>_.
     finish_persist p durability stamp))))"

text \<open>Whatever the link gave, the temporary name is removed before the answer is looked at.\<close>

definition link_into :: "path \<Rightarrow> path \<Rightarrow> ('z world_scheme, persist_error, unit) comp" where
  "link_into temp_path p =
     handle (sys_hard_link temp_path p)
       (\<lambda>source. bind (ignore (sys_remove_file temp_path)) (\<lambda>_.
          if io_kind_of source = IoAlreadyExists then raise (DestinationExists p)
          else raise (io_err ''link into'' p source)))
       (\<lambda>_. ignore (sys_remove_file temp_path))"

definition atomic_create :: "path \<Rightarrow> bytes \<Rightarrow> durability \<Rightarrow> ('z world_scheme, persist_error, file_stamp option) comp" where
  "atomic_create p bytes durability =
     bind (create_parent p) (\<lambda>_.
     bind (write_unique_temp (temp_parent p) p bytes durability) (\<lambda>(temp_path, stamp).
     bind (link_into temp_path p) (\<lambda>_.
     finish_persist p durability stamp)))"

end
