(* ===== verification/Temp_Names.thy ===== *)
theory Temp_Names
  imports Persistence
begin

text \<open>Where temporary files live: beside the destination, under names no destination has.\<close>

lemma split_slash_nonempty [simp]: "split_slash p \<noteq> []"
  by (cases p) (auto split: list.splits)

lemma split_slash_append: "split_slash (a @ SLASH # b) = split_slash a @ split_slash b"
  by (induction a) (auto split: list.splits)

lemma split_slash_plain: "SLASH \<notin> set b \<Longrightarrow> split_slash b = [b]"
  by (induction b) auto

lemma hd_append_split: "hd (split_slash a @ xs) = hd (split_slash a)"
  by (simp add: hd_append)

definition plain_name :: "string \<Rightarrow> bool" where
  "plain_name s \<longleftrightarrow> s \<noteq> [] \<and> s \<noteq> ''.'' \<and> s \<noteq> ''..'' \<and> SLASH \<notin> set s"

lemma path_components_slash:
  assumes "plain_name b"
  shows "a \<noteq> [] \<Longrightarrow> path_components (a @ SLASH # b) = path_components a @ [Normal b]"
  using assms
  by (simp add: path_components_def split_slash_append split_slash_plain plain_name_def Let_def is_absolute_def
      body_component_def hd_append_split)

lemma path_components_trailing:
  "a \<noteq> [] \<Longrightarrow> path_components (a @ [SLASH]) = path_components a"
  using split_slash_append [of a "[]"]
  by (simp add: path_components_def Let_def is_absolute_def hd_append_split)

lemma path_components_join:
  assumes b: "plain_name b"
  shows "path_components (path_join a b) = path_components a @ [Normal b]"
proof -
  have rel: "\<not> is_absolute b" using b by (cases b) (auto simp: plain_name_def is_absolute_def)
  have alone: "path_components b = [Normal b]"
    using b rel by (simp add: path_components_def Let_def split_slash_plain plain_name_def body_component_def)
  show ?thesis
  proof (cases a rule: rev_cases)
    case Nil
    have "path_components [] = []" by (simp add: path_components_def is_absolute_def)
    then show ?thesis using Nil rel alone by (simp add: path_join_def)
  next
    case (snoc c z)
    show ?thesis
    proof (cases "z = SLASH")
      case False
      then have "path_join a b = a @ SLASH # b" using rel snoc by (simp add: path_join_def)
      then show ?thesis using path_components_slash [OF b, of "c @ [z]"] snoc by simp
    next
      case True
      then have join: "path_join a b = c @ SLASH # b" using rel snoc by (simp add: path_join_def)
      show ?thesis
      proof (cases "c = []")
        case True
        then show ?thesis using join snoc \<open>z = SLASH\<close> b
          by (simp add: path_components_def Let_def is_absolute_def split_slash_plain plain_name_def body_component_def)
      next
        case False
        then show ?thesis using join snoc \<open>z = SLASH\<close> path_components_slash [OF b] path_components_trailing by simp
      qed
    qed
  qed
qed

lemma dec_string_no_slash [simp]: "SLASH \<notin> set (dec_string n)"
proof
  assume "SLASH \<in> set (dec_string n)"
  then have "is_ascii_digit SLASH" by (rule dec_string_digits)
  then show False by (simp add: is_ascii_digit_def code_of_def)
qed

lemma temp_name_plain: "plain_name (temp_name pid c now)"
  by (simp add: plain_name_def temp_name_def)

definition TEMP_PREFIX :: string where
  "TEMP_PREFIX = ''.hashline-''"

lemma temp_name_prefix: "take (length TEMP_PREFIX) (temp_name pid c now) = TEMP_PREFIX"
  by (simp add: temp_name_def TEMP_PREFIX_def)

definition temp_path :: "path \<Rightarrow> nat \<Rightarrow> u64 \<Rightarrow> system_time \<Rightarrow> path" where
  "temp_path p pid counter now = path_join (temp_parent p) (temp_name pid counter now)"

lemma temp_path_components:
  "path_components (temp_path p pid c now) = path_components (temp_parent p) @ [Normal (temp_name pid c now)]"
  by (simp add: temp_path_def path_components_join temp_name_plain)

text \<open>A destination whose name does not look temporary is never the temporary file.\<close>

definition ordinary :: "path \<Rightarrow> bool" where
  "ordinary p \<longleftrightarrow> (\<forall>name. path_file_name p = Some name \<longrightarrow> take (length TEMP_PREFIX) name \<noteq> TEMP_PREFIX)"

lemma temp_path_differs:
  assumes "ordinary p"
  shows "path_components (temp_path p pid c now) \<noteq> path_components p"
proof
  assume eq: "path_components (temp_path p pid c now) = path_components p"
  then have "path_file_name p = Some (temp_name pid c now)"
    by (simp add: path_file_name_def Let_def flip: eq) (simp add: temp_path_components)
  then show False using assms temp_name_prefix unfolding ordinary_def by blast
qed

end
