(* ===== verification/Persist_Atomic.thy ===== *)
theory Persist_Atomic
  imports Temp_Names
begin

text \<open>
  Atomicity of the persist operations under interference: until the rename or the link the
  program leaves the destination alone, that one step gives it the complete new content, and
  nothing after it touches it.
\<close>

section \<open>What the others leave alone\<close>

definition fs_ok :: "fsys \<Rightarrow> bool" where
  "fs_ok f \<longleftrightarrow> (\<forall>k i. f_names f k = Some i \<longrightarrow> i < f_next f)"

lemma fs_ok_fresh: "fs_ok f \<Longrightarrow> f_names f k \<noteq> Some (f_next f)"
  unfolding fs_ok_def by blast

text \<open>
  The others may do anything to the destination and to other names, but they leave the temporary
  name alone: they do not create it, remove it, write to its file or link it elsewhere.
\<close>

definition spares :: "component list \<Rightarrow> rely" where
  "spares kt now t \<longleftrightarrow> (\<forall>f. fs_ok f \<longrightarrow> fs_ok (tk_env t f) \<and> f_names (tk_env t f) kt = f_names f kt \<and>
     (\<forall>i. f_names f kt = Some i \<longrightarrow> f_inodes (tk_env t f) i = f_inodes f i \<and>
        (\<forall>k. f_names (tk_env t f) k = Some i \<longrightarrow> f_names f k = Some i)))"

lemma sparesD:
  assumes "spares kt now t" "fs_ok f"
  shows "fs_ok (tk_env t f)" "f_names (tk_env t f) kt = f_names f kt"
    and "f_names f kt = Some i \<Longrightarrow> f_inodes (tk_env t f) i = f_inodes f i"
    and "f_names f kt = Some i \<Longrightarrow> f_names (tk_env t f) k = Some i \<Longrightarrow> f_names f k = Some i"
  using assms unfolding spares_def by blast+

lemma allowed_spares: "allowed (spares kt) now t \<Longrightarrow> spares kt now t"
  by (auto simp: allowed_def spares_def quiet_tick_def)

text \<open>The program has not changed what the destination holds.\<close>

definition kept :: "(fsys \<times> fsys) list \<Rightarrow> path \<Rightarrow> (fsys \<times> fsys) list \<Rightarrow> bool" where
  "kept l0 p l \<longleftrightarrow> (\<exists>new. l = new @ l0 \<and> (\<forall>s\<in>set new. content_at (snd s) p = content_at (fst s) p))"

text \<open>At some moment the destination had the expected stamp.\<close>

definition checked :: "u64 \<Rightarrow> expected_destination option \<Rightarrow> (fsys \<times> fsys) list \<Rightarrow> path \<Rightarrow> (fsys \<times> fsys) list \<Rightarrow> bool" where
  "checked device expected l0 p l \<longleftrightarrow>
     (\<forall>e. expected = Some e \<longrightarrow> (\<exists>new. l = new @ l0 \<and>
        (\<exists>s\<in>set new. \<exists>stamp. stamp_at device (fst s) p stamp \<and> stamp_eq stamp (ed_stamp e))))"

lemma kept_refl [simp]: "kept l p l"
  by (simp add: kept_def)

lemma kept_Cons: "kept l0 p l \<Longrightarrow> content_at f' p = content_at f p \<Longrightarrow> kept l0 p ((f, f') # l)"
  unfolding kept_def by (elim exE, rule_tac x = "(f, f') # new" in exI) auto

lemma checked_Cons: "checked d e l0 p l \<Longrightarrow> checked d e l0 p (s # l)"
  unfolding checked_def by (metis append_Cons list.set_intros(2))

definition quiescent :: "(fsys \<times> fsys) list \<Rightarrow> path \<Rightarrow> assertion" where
  "quiescent l0 p f now l \<longleftrightarrow> fs_ok f \<and> kept l0 p l"

text \<open>The temporary file: inode \<open>i\<close> under the name \<open>kt\<close> only, with the bytes \<open>data\<close>.\<close>

definition temp_file :: "component list \<Rightarrow> nat \<Rightarrow> bytes \<Rightarrow> fsys \<Rightarrow> bool" where
  "temp_file kt i data f \<longleftrightarrow> f_names f kt = Some i \<and> in_bytes (f_inodes f i) = data \<and>
     \<not> in_dir (f_inodes f i) \<and> (\<forall>k. f_names f k = Some i \<longrightarrow> k = kt)"

definition prepared :: "component list \<Rightarrow> (fsys \<times> fsys) list \<Rightarrow> path \<Rightarrow> nat \<Rightarrow> bytes \<Rightarrow> assertion" where
  "prepared kt l0 p i data f now l \<longleftrightarrow> fs_ok f \<and> kept l0 p l \<and> temp_file kt i data f"

lemma stable_quiescent: "stable (spares kt) (quiescent l0 p)"
  unfolding stable_def
proof (intro allI impI)
  fix f now l t assume a: "quiescent l0 p f now l" "allowed (spares kt) now t"
  then have "fs_ok (tk_env t f)" using allowed_spares unfolding spares_def quiescent_def by blast
  then show "quiescent l0 p (tk_env t f) (tk_now t) ((tk_env t f, tk_env t f) # l)"
    using a(1) by (simp add: quiescent_def kept_Cons)
qed

lemma stable_prepared: "stable (spares kt) (prepared kt l0 p i data)"
  unfolding stable_def
proof (intro allI impI)
  fix f now l t assume a: "prepared kt l0 p i data f now l" "allowed (spares kt) now t"
  then have sp: "spares kt now t" "fs_ok f" and kt: "f_names f kt = Some i"
    using allowed_spares by (auto simp: prepared_def temp_file_def)
  note after = sparesD [OF sp] 
  have "temp_file kt i data (tk_env t f)"
    unfolding temp_file_def after(2) after(3) [OF kt]
    using a(1) after(4) [OF kt] by (auto simp: prepared_def temp_file_def)
  then show "prepared kt l0 p i data (tk_env t f) (tk_now t) ((tk_env t f, tk_env t f) # l)"
    using a(1) after(1) by (simp add: prepared_def kept_Cons)
qed

lemma prepared_quiescent: "prepared kt l0 p i data f now l \<Longrightarrow> quiescent l0 p f now l"
  by (simp add: prepared_def quiescent_def)

section \<open>The steps\<close>

lemma content_at_cong:
  assumes "lookup f' p = lookup f p" "\<And>i. lookup f p = Some i \<Longrightarrow> in_bytes (f_inodes f' i) = in_bytes (f_inodes f i)"
  shows "content_at f' p = content_at f p"
  using assms by (cases "lookup f p") (simp_all add: content_at_def)

lemma content_at_touch [simp]: "content_at (touch now i f) p = content_at f p"
  by (cases "lookup f p") (auto simp: content_at_def touch_def lookup_def)

lemma fs_ok_touch [simp]: "fs_ok (touch now i f) = fs_ok f"
  by (simp add: fs_ok_def touch_def)

lemma rg_remove:
  assumes "path_components temp \<noteq> path_components p"
  shows "rg h (spares kt) (quiescent l0 p) (sys_remove_file temp) (\<lambda>r. quiescent l0 p)"
  unfolding sys_remove_file_def
proof (rule rg_syscall, goal_cases)
  case (1 f now l t e)
  then show ?case using stable_quiescent unfolding stable_def by blast
next
  case (2 f now l t r f')
  let ?f = "tk_env t f"
  have q: "fs_ok ?f" "kept l0 p l"
    using 2 stable_quiescent [of kt l0 p] unfolding stable_def by (auto simp: quiescent_def)
  have "fs_ok f'" using 2(3) q(1) by (auto simp: fs_ok_def touch_def split: option.splits if_splits)
  moreover have "content_at f' p = content_at ?f p"
    by (rule content_at_cong) (use 2(3) assms in \<open>auto simp: lookup_def touch_def split: option.splits if_splits\<close>)
  ultimately show ?case using q(2) by (simp add: quiescent_def kept_Cons)
qed

lemma rg_fail_removing:
  assumes "path_components temp \<noteq> path_components p" "\<And>f now l. quiescent l0 p f now l \<Longrightarrow> B (Inl e) f now l"
    and "\<And>f now l. A f now l \<Longrightarrow> quiescent l0 p f now l"
  shows "rg h (spares kt) A (fail_removing temp e) B"
  unfolding fail_removing_def
proof (rule rg_bind [where C = "\<lambda>_. quiescent l0 p"], goal_cases)
  case 1
  show ?case by (rule rg_ignore, rule rg_pre [OF rg_post [OF rg_remove [OF assms(1)]]]) (auto dest: assms(3))
next
  case (2 u)
  then show ?case by (rule rg_raise) (rule assms(2))
qed

lemma rg_mkdir:
  assumes "path_components q \<noteq> path_components p"
  shows "rg h (spares kt) (quiescent l0 p) (sys_mkdir q) (\<lambda>r. quiescent l0 p)"
  unfolding sys_mkdir_def
proof (rule rg_syscall, goal_cases)
  case (1 f now l t e)
  then show ?case using stable_quiescent unfolding stable_def by blast
next
  case (2 f now l t r f')
  let ?f = "tk_env t f"
  have q: "fs_ok ?f" "kept l0 p l"
    using 2 stable_quiescent [of kt l0 p] unfolding stable_def by (auto simp: quiescent_def)
  have "fs_ok f'" using 2(3) q(1) by (auto simp: fs_ok_def less_Suc_eq split: option.splits if_splits)
  moreover have "content_at f' p = content_at ?f p"
    by (rule content_at_cong) (use 2(3) assms fs_ok_fresh [OF q(1)] in \<open>auto simp: lookup_def split: option.splits if_splits\<close>)
  ultimately show ?case using q(2) by (simp add: quiescent_def kept_Cons)
qed

lemma rg_mkdir_or_dir:
  assumes "path_components q \<noteq> path_components p"
  shows "rg h (spares kt) (quiescent l0 p)
    (bind (sys_is_dir q) (\<lambda>d. if d then ret () else raise e)) (\<lambda>r. quiescent l0 p)"
  by (rule rg_bind [where C = "\<lambda>_. quiescent l0 p"], rule rg_post [OF rg_is_dir [OF stable_quiescent]])
    (auto intro!: rg_ret rg_raise split: sum.splits)

lemma rg_create_dir_all:
  fixes q :: path
  assumes "length (path_components q) < length (path_components p)"
  shows "rg h (spares kt) (quiescent l0 p) (create_dir_all q :: ('z world_scheme, io_error, unit) comp) (\<lambda>r. quiescent l0 p)"
  using assms
proof (induction q rule: create_dir_all.induct)
  case (1 q)
  have ne: "path_components q \<noteq> path_components p" using 1(2) by auto
  have retry: "rg h (spares kt) (quiescent l0 p)
      (handle (sys_mkdir q) (\<lambda>e. bind (sys_is_dir q) (\<lambda>d. if d then ret () else raise e)) ret :: ('z world_scheme, io_error, unit) comp) (\<lambda>r. quiescent l0 p)"
    by (rule rg_handle [where C = "\<lambda>_. quiescent l0 p" and D = "\<lambda>_. quiescent l0 p"],
        rule rg_post [OF rg_mkdir [OF ne]])
      (auto intro!: rg_ret rg_mkdir_or_dir [OF ne] split: sum.splits)
  show ?case
  proof (cases "path_components q = []")
    case True
    then show ?thesis by (subst create_dir_all.simps) (auto intro: rg_ret)
  next
    case False
    have up: "rg h (spares kt) (quiescent l0 p)
        ((case path_parent q of None \<Rightarrow> raise whole_tree
         | Some parent \<Rightarrow> bind (create_dir_all parent) (\<lambda>_.
             handle (sys_mkdir q) (\<lambda>e. bind (sys_is_dir q) (\<lambda>d. if d then ret () else raise e)) ret))
         :: ('z world_scheme, io_error, unit) comp) (\<lambda>r. quiescent l0 p)"
    proof (cases "path_parent q")
      case None
      then show ?thesis by (auto intro: rg_raise)
    next
      case (Some parent)
      then have "length (path_components parent) < length (path_components p)"
        using path_parent_components [OF Some] 1(2) by simp
      then have "rg h (spares kt) (quiescent l0 p) (create_dir_all parent :: ('z world_scheme, io_error, unit) comp) (\<lambda>r. quiescent l0 p)"
        using 1(1) [OF False _ Some, of not_found] by (simp add: not_found_def)
      then show ?thesis
        using Some by (auto intro!: rg_bind [where C = "\<lambda>_. quiescent l0 p"] retry elim: rg_post split: sum.splits)
    qed
    have "rg h (spares kt) (quiescent l0 p)
      (handle (sys_mkdir q)
        (\<lambda>e. if io_kind_of e = IoNotFound then
           (case path_parent q of
              None \<Rightarrow> raise whole_tree
            | Some parent \<Rightarrow>
                bind (create_dir_all parent) (\<lambda>_.
                handle (sys_mkdir q) (\<lambda>e. bind (sys_is_dir q) (\<lambda>d. if d then ret () else raise e)) ret))
         else bind (sys_is_dir q) (\<lambda>d. if d then ret () else raise e)) ret :: ('z world_scheme, io_error, unit) comp) (\<lambda>r. quiescent l0 p)"
    proof (rule rg_handle [where C = "\<lambda>_. quiescent l0 p" and D = "\<lambda>_. quiescent l0 p"], goal_cases)
      case 1
      show ?case by (rule rg_post [OF rg_mkdir [OF ne]]) (simp split: sum.splits)
    next
      case (2 e)
      show ?case
      proof (cases "io_kind_of e = IoNotFound")
        case True
        then show ?thesis using up by simp
      next
        case False
        then show ?thesis using rg_mkdir_or_dir [OF ne] by (simp only: if_False)
      qed
    next
      case (3 x)
      show ?case by (rule rg_ret)
    qed
    then show ?thesis using False by (subst create_dir_all.simps) simp
  qed
qed

lemma rg_create_parent:
  "rg h (spares kt) (quiescent l0 p) (create_parent p) (\<lambda>r. quiescent l0 p)"
proof (cases "path_parent p")
  case None
  then show ?thesis by (auto simp: create_parent_def intro: rg_ret)
next
  case (Some parent)
  then have "length (path_components parent) < length (path_components p)"
    using path_parent_components [OF Some] by simp
  from rg_create_dir_all [OF this] show ?thesis
    unfolding create_parent_def Some option.case by (rule rg_with_err)
qed

text \<open>The temporary file comes into being and is written; the destination is not touched.\<close>

lemma rg_create_new:
  assumes "kt = path_components temp" "kt \<noteq> path_components p"
  shows "rg h (spares kt) (quiescent l0 p) (sys_create_new temp)
    (\<lambda>r. case r of Inl e \<Rightarrow> quiescent l0 p | Inr i \<Rightarrow> prepared kt l0 p i [])"
  unfolding sys_create_new_def
proof (rule rg_syscall, goal_cases)
  case (1 f now l t e)
  then show ?case using stable_quiescent unfolding stable_def by auto
next
  case (2 f now l t r f')
  let ?f = "tk_env t f"
  have q: "fs_ok ?f" "kept l0 p l"
    using 2 stable_quiescent [of kt l0 p] unfolding stable_def by (auto simp: quiescent_def)
  have ok: "fs_ok f'" using 2(3) q(1) by (auto simp: fs_ok_def less_Suc_eq split: option.splits if_splits)
  have "content_at f' p = content_at ?f p"
    by (rule content_at_cong) (use 2(3) assms fs_ok_fresh [OF q(1)] in \<open>auto simp: lookup_def split: option.splits if_splits\<close>)
  then have kept: "kept l0 p ((?f, f') # l)" using q(2) by (simp add: kept_Cons)
  show ?case
  proof (cases r)
    case (Inr i)
    then have "temp_file kt i [] f'"
      using 2(3) fs_ok_fresh [OF q(1)] assms(1) by (auto simp: temp_file_def split: if_splits)
    then show ?thesis using ok kept Inr by (simp add: prepared_def)
  qed (use ok kept in \<open>simp add: quiescent_def\<close>)
qed

lemma write_at_end: "write_at (length old) part old = old @ part"
  by (simp add: write_at_def)

lemma rg_write:
  assumes "kt \<noteq> path_components p" "off = length data"
  shows "rg h (spares kt) (prepared kt l0 p i data) (sys_write i off rest)
    (\<lambda>r. case r of Inl e \<Rightarrow> prepared kt l0 p i data | Inr n \<Rightarrow> prepared kt l0 p i (data @ take n rest))"
  unfolding sys_write_def
proof (rule rg_syscall, goal_cases)
  case (1 f now l t e)
  then show ?case using stable_prepared unfolding stable_def by auto
next
  case (2 f now l t r f')
  let ?f = "tk_env t f"
  have q: "fs_ok ?f" "kept l0 p l" "temp_file kt i data ?f"
    using 2 stable_prepared [of kt l0 p i data] unfolding stable_def by (auto simp: prepared_def)
  have f': "r = Inr (length (take (Suc (tk_chunk t)) rest))"
    "f' = ?f\<lparr>f_inodes := (f_inodes ?f)(i := (f_inodes ?f i)\<lparr>in_bytes := data @ take (Suc (tk_chunk t)) rest,
      in_mtime := fst h (tk_now t), in_ctime := fst h (tk_now t)\<rparr>)\<rparr>"
    using 2(3) q(3) assms(2) write_at_end [of data] by (simp_all add: Let_def temp_file_def)
  have "content_at f' p = content_at ?f p"
    by (rule content_at_cong) (use q(3) assms(1) in \<open>auto simp: f' lookup_def temp_file_def\<close>)
  then have "kept l0 p ((?f, f') # l)" using q(2) by (simp add: kept_Cons)
  moreover have "fs_ok f'" using q(1) by (simp add: f' fs_ok_def)
  moreover have "take (length (take (Suc (tk_chunk t)) rest)) rest = take (Suc (tk_chunk t)) rest"
    by (simp add: min_def)
  then have "temp_file kt i (data @ take (length (take (Suc (tk_chunk t)) rest)) rest) f'"
    using q(3) by (simp add: f' temp_file_def)
  ultimately show ?case by (simp add: f'(1) prepared_def)
qed

lemma write_all_prepared:
  assumes "kt \<noteq> path_components p" and "host_of w = h" "script_ok (spares kt) (w_now w) (w_script w)"
    and "holds (prepared kt l0 p i data) w" "write_all i off rest w = (r, w')" "off = length data"
  shows "host_of w' = h \<and> script_ok (spares kt) (w_now w') (w_script w') \<and>
    holds (case r of Inl e \<Rightarrow> quiescent l0 p | Inr _ \<Rightarrow> prepared kt l0 p i (data @ rest)) w'"
  using assms(2-)
proof (induction i off rest w arbitrary: data rule: write_all.induct)
  case (1 i off rest w)
  show ?case
  proof (cases "rest = []")
    case True
    then show ?thesis using 1(3-7) by (subst (asm) write_all.simps) auto
  next
    case False
    obtain q w1 where q: "sys_write i off rest w = (q, w1)" by (metis surj_pair)
    note one = rgD [OF rg_write [OF assms(1) 1(7)] 1(3-5) q]
    note run = 1(6) [unfolded write_all.simps [of i off rest w], unfolded q, simplified False if_False]
    show ?thesis
    proof (cases q)
      case (Inl e)
      then have A: "holds (prepared kt l0 p i data) w1" using one(3) by simp
      show ?thesis
      proof (cases "io_kind_of e = IoInterrupted")
        case True
        then show ?thesis using run 1(1) [OF False q [symmetric] Inl True one(1,2) A _ 1(7)] Inl by simp
      next
        case False
        then show ?thesis using run Inl A one(1,2) prepared_quiescent by (auto simp: holds_def)
      qed
    next
      case (Inr n)
      then have A: "holds (prepared kt l0 p i (data @ take n rest)) w1" using one(3) by simp
      show ?thesis
      proof (cases "n = 0")
        case True
        then show ?thesis using run Inr A one(1,2) prepared_quiescent by (auto simp: holds_def)
      next
        case n: False
        have "n \<le> length rest" using q Inr
          by (auto simp: sys_write_def syscall_def Let_def split: prod.splits option.splits)
        then have "off + n = length (data @ take n rest)" using 1(7) by simp
        moreover have whole: "(data @ take n rest) @ drop n rest = data @ rest" by simp
        ultimately show ?thesis using run 1(2) [OF False q [symmetric] Inr n one(1,2) A, unfolded whole] Inr n by simp
      qed
    qed
  qed
qed

lemma rg_write_all:
  assumes "kt \<noteq> path_components p"
  shows "rg h (spares kt) (prepared kt l0 p i data) (write_all i (length data) rest)
    (\<lambda>r. case r of Inl e \<Rightarrow> quiescent l0 p | Inr _ \<Rightarrow> prepared kt l0 p i (data @ rest))"
  by (rule rgI) (rule write_all_prepared [OF assms], assumption+, rule refl)

lemma rg_ex: "(\<And>i. rg h E (A i) m B) \<Longrightarrow> rg h E (\<lambda>f now l. \<exists>i. A i f now l) m B"
  unfolding rg_def holds_def by blast

lemma rg_sync_temp:
  "rg h (spares kt) (prepared kt l0 p i data) (sync_temp p d j)
    (\<lambda>r. case r of Inl e \<Rightarrow> quiescent l0 p | Inr _ \<Rightarrow> prepared kt l0 p i data)"
proof (cases d)
  case DurNone
  then show ?thesis by (auto simp: sync_temp_def intro: rg_ret)
qed (auto simp: sync_temp_def intro!: rg_with_err rg_post [OF rg_sync [OF stable_prepared]]
    split: sum.splits dest: prepared_quiescent)

lemma rg_write_temp:
  assumes "kt = path_components temp" "kt \<noteq> path_components p"
  shows "rg h (spares kt) (quiescent l0 p) (write_temp temp p bytes d)
    (\<lambda>r. case r of Inl e \<Rightarrow> quiescent l0 p | Inr _ \<Rightarrow> (\<lambda>f now l. \<exists>i. prepared kt l0 p i bytes f now l))"
    (is "rg h ?E _ _ ?B")
  unfolding write_temp_def
proof (rule rg_bind [where C = "\<lambda>i. prepared kt l0 p i []"], goal_cases)
  case 1
  show ?case
    by (rule rg_with_err, rule rg_post [OF rg_create_new [OF assms]]) (auto split: sum.splits)
next
  case (2 i)
  show ?case
  proof (rule rg_bind [where C = "\<lambda>_. prepared kt l0 p i bytes"], goal_cases)
    case 1
    show ?case
      using rg_write_all [OF assms(2), of h l0 i "[]" bytes]
      by (intro rg_with_err) (auto elim!: rg_post split: sum.splits)
  next
    case (2 u)
    show ?case
    proof (rule rg_bind [where C = "\<lambda>_. prepared kt l0 p i bytes"], goal_cases)
      case 1
      show ?case by (rule rg_post [OF rg_sync_temp]) (simp split: sum.splits)
    next
      case (2 u')
      show ?case
      proof (rule rg_bind [where C = "\<lambda>_. prepared kt l0 p i bytes"], goal_cases)
        case 1
        show ?case
          by (rule rg_with_err, rule rg_post [OF rg_fstat [OF stable_prepared]])
            (auto split: sum.splits dest: prepared_quiescent)
      next
        case (2 m)
        show ?case by (rule rg_stamp_of) auto
      qed
    qed
  qed
qed

text \<open>The guard.\<close>

definition ready :: "component list \<Rightarrow> (fsys \<times> fsys) list \<Rightarrow> path \<Rightarrow> nat \<Rightarrow> bytes \<Rightarrow> u64 \<Rightarrow> expected_destination option \<Rightarrow> assertion" where
  "ready kt l0 p i bytes device expected f now l \<longleftrightarrow>
     prepared kt l0 p i bytes f now l \<and> checked device expected l0 p l"

lemma stable_ready: "stable (spares kt) (ready kt l0 p i bytes device expected)"
  using stable_prepared unfolding stable_def ready_def by (blast intro: checked_Cons)

lemma rg_destination_unchanged:
  assumes "kt = path_components temp" "kt \<noteq> path_components p"
  shows "rg h (spares kt) (ready kt l0 p i bytes device expected) (destination_unchanged x p temp e)
    (\<lambda>r. case r of Inl e \<Rightarrow> quiescent l0 p | Inr _ \<Rightarrow> ready kt l0 p i bytes device expected)"
proof -
  have q: "quiescent l0 p f now l" if "ready kt l0 p i bytes device expected f now l" for f now l
    using that prepared_quiescent unfolding ready_def by blast
  have fail: "rg h (spares kt) (ready kt l0 p i bytes device expected) (fail_removing temp e' :: ('z world_scheme, persist_error, bool) comp)
      (\<lambda>r. case r of Inl e \<Rightarrow> quiescent l0 p | Inr _ \<Rightarrow> ready kt l0 p i bytes device expected)" for e'
    by (rule rg_fail_removing [OF _ _ q]) (use assms in auto)
  show ?thesis
    unfolding destination_unchanged_def
  proof (rule rg_handle [where D = "\<lambda>_. ready kt l0 p i bytes device expected" and
        C = "\<lambda>_. ready kt l0 p i bytes device expected"], goal_cases)
    case 1
    show ?case by (rule rg_post [OF rg_open [OF stable_ready]]) (auto split: sum.splits)
  next
    case (2 e)
    show ?case using fail by (auto intro: rg_ret)
  next
    case (3 j)
    show ?case
      by (rule rg_handle [where D = "\<lambda>_. ready kt l0 p i bytes device expected" and
          C = "\<lambda>_. ready kt l0 p i bytes device expected"], rule rg_post [OF rg_read_all [OF stable_ready]])
        (auto intro: rg_ret fail split: sum.splits)
  qed
qed

text \<open>The stamp of the destination, just read, is the expected one.\<close>

lemma ready_now:
  assumes "prepared kt l0 p i bytes f now l" "logged (prepared kt l0 p i bytes) f l" "stamp_at device f p current"
    and "stamp_eq current (ed_stamp e)"
  shows "ready kt l0 p i bytes device (Some e) f now l"
proof -
  obtain l' where l': "l = (f, f) # l'" "kept l0 p l'" using assms(1,2) by (auto simp: logged_def prepared_def)
  then obtain new where "l' = new @ l0" by (auto simp: kept_def)
  then have "l = ((f, f) # new) @ l0" using l' by simp
  moreover have "\<exists>s\<in>set ((f, f) # new). \<exists>stamp. stamp_at device (fst s) p stamp \<and> stamp_eq stamp (ed_stamp e)"
    using assms(3,4) by auto
  ultimately have "checked device (Some e) l0 p l" unfolding checked_def by blast
  then show ?thesis using assms(1) by (simp add: ready_def)
qed

lemma rg_guard_fails:
  assumes "kt = path_components temp" "kt \<noteq> path_components p"
    and "\<And>f now l. A f now l \<Longrightarrow> prepared kt l0 p i bytes f now l"
  shows "rg h (spares kt) A (fail_removing temp e :: ('z world_scheme, persist_error, unit) comp)
    (\<lambda>r. case r of Inl e \<Rightarrow> quiescent l0 p | Inr _ \<Rightarrow> B)"
  using assms(1,2) by (intro rg_fail_removing) (auto dest: assms(3) prepared_quiescent)

lemma rg_recheck:
  assumes "kt = path_components temp" "kt \<noteq> path_components p"
  shows "rg h (spares kt) (ready kt l0 p i bytes (fst (snd h)) expected)
    (if fs_racy (ed_stamp e) then bind (destination_unchanged x p temp e) (\<lambda>unchanged.
       if \<not> unchanged then fail_removing temp (DestinationChanged p) else ret ())
     else ret () :: ('z world_scheme, persist_error, unit) comp)
    (\<lambda>r. case r of Inl e \<Rightarrow> quiescent l0 p | Inr _ \<Rightarrow> ready kt l0 p i bytes (fst (snd h)) expected)"
    (is "rg h ?E ?R _ ?B")
proof (cases "fs_racy (ed_stamp e)")
  case True
  have "rg h ?E ?R (bind (destination_unchanged x p temp e) (\<lambda>unchanged.
       if \<not> unchanged then fail_removing temp (DestinationChanged p) else ret ())
       :: ('z world_scheme, persist_error, unit) comp) ?B"
    by (rule rg_bind [where C = "\<lambda>_. ?R"], rule rg_post [OF rg_destination_unchanged [OF assms]])
      (auto intro: rg_ret rg_guard_fails [OF assms] simp: ready_def split: sum.splits)
  then show ?thesis using True by simp
qed (auto intro: rg_ret)

lemma rg_guard:
  assumes "kt = path_components temp" "kt \<noteq> path_components p"
  shows "rg h (spares kt) (prepared kt l0 p i bytes) (guard_destination x p temp expected)
    (\<lambda>r. case r of Inl e \<Rightarrow> quiescent l0 p | Inr _ \<Rightarrow> ready kt l0 p i bytes (fst (snd h)) expected)"
    (is "rg h ?E ?P _ ?B")
proof (cases expected)
  case None
  then show ?thesis by (auto simp: guard_destination_def ready_def checked_def intro: rg_ret)
next
  case (Some e)
  let ?dev = "fst (snd h)"
  let ?A = "\<lambda>current f now l. ?P f now l \<and> logged ?P f l \<and> stamp_at ?dev f p current"
  note fail = rg_guard_fails [OF assms]
  show ?thesis
    unfolding guard_destination_def Some option.case
  proof (rule rg_handle [where D = "\<lambda>_. ?P" and
        C = "\<lambda>m f now l. ?P f now l \<and> logged ?P f l \<and> (\<exists>j. lookup f p = Some j \<and> m = inode_metadata ?dev f j)"], goal_cases)
    case 1
    show ?case by (rule rg_post [OF rg_stat [OF stable_prepared]]) (auto split: sum.splits)
  next
    case (2 e')
    show ?case by (auto intro: fail)
  next
    case (3 m)
    show ?case
    proof (rule rg_bind [where C = ?A], goal_cases)
      case 1
      show ?case by (rule rg_stamp_of) (auto dest: stamp_at_metadata)
    next
      case (2 current)
      show ?case
      proof (cases "stamp_eq current (ed_stamp e)")
        case False
        then show ?thesis by (auto intro: fail)
      next
        case True
        show ?thesis
          by (simp only: True not_True_eq_False if_False) (rule rg_pre [OF rg_recheck [OF assms]], use ready_now [OF _ _ _ True] in blast)
      qed
    qed
  qed
qed

section \<open>The commit\<close>

text \<open>
  After the commit: one step of the program gave the destination its new content, all others left
  it alone, and the temporary name is gone.
\<close>

definition committed :: "u64 \<Rightarrow> expected_destination option \<Rightarrow> (fsys \<times> fsys) list \<Rightarrow> path \<Rightarrow> bytes \<Rightarrow> (fsys \<times> fsys) list \<Rightarrow> bool" where
  "committed device expected l0 p bytes l \<longleftrightarrow>
     (\<exists>before after f f'. l = after @ (f, f') # before @ l0 \<and> kept l0 p (before @ l0) \<and>
        checked device expected l0 p (before @ l0) \<and> content_at f' p = Some bytes \<and>
        (\<forall>s\<in>set after. content_at (snd s) p = content_at (fst s) p))"

definition persisted :: "component list \<Rightarrow> u64 \<Rightarrow> expected_destination option \<Rightarrow> (fsys \<times> fsys) list \<Rightarrow> path \<Rightarrow> bytes \<Rightarrow> assertion" where
  "persisted kt device expected l0 p bytes f now l \<longleftrightarrow>
     fs_ok f \<and> f_names f kt = None \<and> committed device expected l0 p bytes l"

lemma committed_Cons:
  "committed d e l0 p bytes l \<Longrightarrow> content_at f' p = content_at f p \<Longrightarrow> committed d e l0 p bytes ((f, f') # l)"
  unfolding committed_def by (elim exE, rule_tac x = before in exI, rule_tac x = "(f, f') # after" in exI) auto

lemma committed_now:
  assumes "kept l0 p l" "checked d e l0 p l" "content_at f' p = Some bytes"
  shows "committed d e l0 p bytes ((f, f') # l)"
proof -
  obtain before where "l = before @ l0" using assms(1) by (auto simp: kept_def)
  then show ?thesis
    using assms unfolding committed_def by (intro exI [of _ before] exI [of _ "[]"] exI [of _ f] exI [of _ f']) simp
qed

lemma stable_persisted: "stable (spares kt) (persisted kt device expected l0 p bytes)"
  unfolding stable_def
proof (intro allI impI)
  fix f now l t assume a: "persisted kt device expected l0 p bytes f now l" "allowed (spares kt) now t"
  then have "fs_ok (tk_env t f)" "f_names (tk_env t f) kt = None"
    using sparesD(1,2) [OF allowed_spares [OF a(2)]] by (simp_all add: persisted_def)
  then show "persisted kt device expected l0 p bytes (tk_env t f) (tk_now t) ((tk_env t f, tk_env t f) # l)"
    using a(1) by (simp add: persisted_def committed_Cons)
qed

lemma rg_rename_into:
  assumes "kt = path_components temp" "kt \<noteq> path_components p"
  shows "rg h (spares kt) (ready kt l0 p i bytes device expected) (rename_into temp p)
    (\<lambda>r. case r of Inl e \<Rightarrow> quiescent l0 p | Inr _ \<Rightarrow> persisted kt device expected l0 p bytes)"
    (is "rg h ?E ?A _ ?B")
  unfolding rename_into_def
proof (rule rg_handle [where D = "\<lambda>_. ?A" and C = "\<lambda>_. persisted kt device expected l0 p bytes"], goal_cases)
  case 1
  show ?case
    unfolding sys_rename_def
  proof (rule rg_syscall, goal_cases)
    case (1 f now l t e)
    then show ?case using stable_ready unfolding stable_def by auto
  next
    case (2 f now l t r f')
    let ?f = "tk_env t f"
    have A: "?A ?f (tk_now t) ((?f, ?f) # l)" using 2 stable_ready unfolding stable_def by blast
    have l: "kept l0 p l" "checked device expected l0 p l" using 2(1) by (auto simp: ready_def prepared_def)
    have temp: "fs_ok ?f" "temp_file kt i bytes ?f" using A by (auto simp: ready_def prepared_def)
    show ?case
    proof (cases r)
      case (Inl e)
      then have "f' = ?f" using 2(3) by (auto split: option.splits if_splits)
      then show ?thesis using Inl A by simp
    next
      case (Inr u)
      have source: "lookup ?f temp = Some i" using temp(2) assms(1) by (simp add: lookup_def temp_file_def)
      have other: "lookup ?f p \<noteq> Some i" using temp(2) assms(2) by (auto simp: lookup_def temp_file_def)
      have "f' = touch (fst h (tk_now t)) i (?f\<lparr>f_names := (f_names ?f)(kt := None, path_components p := Some i)\<rparr>)"
        using 2(3) Inr other unfolding source assms(1)
        by (cases "lookup ?f p") (simp_all split: if_splits)
      moreover have "i < f_next ?f" "in_bytes (f_inodes ?f i) = bytes"
        using temp by (auto simp: fs_ok_def temp_file_def)
      ultimately have "f_names f' kt = None" "content_at f' p = Some bytes" "fs_ok f'"
        using temp(1) assms(2) by (simp_all add: content_at_def lookup_def touch_def fs_ok_def)
      then show ?thesis using Inr committed_now [OF l] by (simp add: persisted_def)
    qed
  qed
next
  case (2 e)
  show ?case
    by (rule rg_fail_removing) (use assms prepared_quiescent in \<open>auto simp: ready_def\<close>)
next
  case (3 u)
  show ?case by (rule rg_ret) simp
qed

text \<open>What follows the commit only observes.\<close>

lemma rg_finish_persist:
  assumes st: "stable E A"
  shows "rg h E A (finish_persist p d stamp) (\<lambda>r f now l. (\<exists>st. r = Inr st) \<and> A f now l)"
    (is "rg h _ _ _ ?B")
  unfolding finish_persist_def
proof (rule rg_bind [where C = "\<lambda>_. A"], goal_cases)
  case 1
  show ?case
  proof (cases "d = DurFull")
    case True
    show ?thesis
      unfolding if_P [OF True] fsync_parent_def
      by (rule rg_handle [where C = "\<lambda>_. A" and D = "\<lambda>_. A"], rule rg_post [OF rg_open [OF st]])
        (auto intro!: rg_ret rg_ignore rg_sync [OF st] split: sum.splits)
  qed (auto intro: rg_ret)
next
  case (2 u)
  show ?case
    unfolding confirm_stamp_def
  proof (rule rg_handle [where C = "\<lambda>_. A" and D = "\<lambda>_. A"], goal_cases)
    case 1
    show ?case by (rule rg_post [OF rg_stat [OF st]]) (auto split: sum.splits)
  next
    case (3 m)
    show ?case by (rule rg_bind [where C = "\<lambda>_. A"]) (auto intro!: rg_stamp_of rg_ret)
  qed (auto intro: rg_ret)
qed

section \<open>The whole operations\<close>

text \<open>Parts of the world an operation does not touch.\<close>

definition keeps :: "('z world_scheme \<Rightarrow> 'x) \<Rightarrow> ('z world_scheme, 'e, 'a) comp \<Rightarrow> bool" where
  "keeps g m \<longleftrightarrow> (\<forall>w. g (snd (m w)) = g w)"

definition outside_files :: "('z world_scheme \<Rightarrow> 'x) \<Rightarrow> bool" where
  "outside_files g \<longleftrightarrow> (\<forall>w f n s l. g (w\<lparr>w_fs := f, w_now := n, w_script := s, w_log := l\<rparr>) = g w)"

named_theorems keeps_rules

lemma keeps_basic [keeps_rules]:
  "keeps g (ret x)" "keeps g (raise e)" "keeps g (lift v)"
  by (simp_all add: keeps_def ret_def raise_def lift_def)

lemma keeps_bind [keeps_rules]: "keeps g m \<Longrightarrow> (\<And>x. keeps g (k x)) \<Longrightarrow> keeps g (bind m k)"
  by (auto simp: keeps_def bind_def split: prod.splits sum.splits) (metis snd_conv)+

lemma keeps_handle [keeps_rules]:
  "keeps g m \<Longrightarrow> (\<And>e. keeps g (c e)) \<Longrightarrow> (\<And>x. keeps g (k x)) \<Longrightarrow> keeps g (handle m c k)"
  by (auto simp: keeps_def handle_def split: prod.splits sum.splits) (metis snd_conv)+

lemma keeps_with_err [keeps_rules]: "keeps g m \<Longrightarrow> keeps g (with_err e m)"
  by (auto simp: keeps_def with_err_def split: prod.splits) (metis snd_conv)

lemma keeps_ignore [keeps_rules]: "keeps g m \<Longrightarrow> keeps g (ignore m)"
  by (simp add: keeps_def ignore_def)

lemma syscall_outside: "outside_files g \<Longrightarrow> g (snd (syscall act w)) = g w"
  by (auto simp: syscall_def Let_def outside_files_def split: prod.splits)

lemma keeps_calls [keeps_rules]:
  assumes "outside_files g"
  shows "keeps g (sys_open p)" "keeps g (sys_fstat i)" "keeps g (sys_stat p)" "keeps g (sys_read i off n)"
    "keeps g (sys_mkdir p)" "keeps g (sys_create_new p)" "keeps g (sys_write i off d)" "keeps g (sys_sync i)"
    "keeps g (sys_rename p q)" "keeps g (sys_hard_link p q)" "keeps g (sys_remove_file p)" "keeps g (stamp_of m)"
  by (simp_all add: keeps_def syscall_outside [OF assms] sys_open_def sys_fstat_def sys_stat_def sys_read_def sys_mkdir_def sys_create_new_def sys_write_def
      sys_sync_def sys_rename_def sys_hard_link_def sys_remove_file_def stamp_of_def)

lemma keeps_is_dir [keeps_rules]: "outside_files g \<Longrightarrow> keeps g (sys_is_dir p)"
  unfolding sys_is_dir_def by (intro keeps_handle keeps_calls keeps_basic)

lemma outside_counter [simp]: "outside_files w_counter"
  by (simp add: outside_files_def)

lemma keeps_create_dir_all [keeps_rules]:
  fixes g :: "'z world_scheme \<Rightarrow> 'x"
  assumes "outside_files g"
  shows "keeps g (create_dir_all q :: ('z world_scheme, io_error, unit) comp)"
proof (induction q rule: create_dir_all.induct)
  case (1 q)
  have dir: "keeps g (bind (sys_is_dir q) (\<lambda>d. if d then ret () else raise e) :: ('z world_scheme, io_error, unit) comp)" for e
    using assms by (auto intro!: keeps_bind keeps_is_dir keeps_basic)
  show ?case
  proof (cases "path_components q = []")
    case True
    then show ?thesis by (subst create_dir_all.simps) (simp add: keeps_rules)
  next
    case False
    have "keeps g (if io_kind_of e = IoNotFound then
           (case path_parent q of
              None \<Rightarrow> raise whole_tree
            | Some parent \<Rightarrow>
                bind (create_dir_all parent) (\<lambda>_.
                handle (sys_mkdir q) (\<lambda>e. bind (sys_is_dir q) (\<lambda>d. if d then ret () else raise e)) ret))
         else bind (sys_is_dir q) (\<lambda>d. if d then ret () else raise e) :: ('z world_scheme, io_error, unit) comp)" for e
      using 1 [OF False, of e] dir assms
      by (auto intro!: keeps_bind keeps_handle keeps_calls keeps_is_dir keeps_basic split: option.split)
    then show ?thesis
      using False assms by (subst create_dir_all.simps) (auto intro!: keeps_handle keeps_calls keeps_basic)
  qed
qed

lemma keeps_create_parent [keeps_rules]: "outside_files g \<Longrightarrow> keeps g (create_parent p)"
  by (auto simp: create_parent_def intro!: keeps_basic keeps_with_err keeps_create_dir_all split: option.split)

text \<open>
  The assumption on the rest of the system during one call: whatever temporary name the call will
  choose is left alone.
\<close>

definition undisturbed :: "path \<Rightarrow> 'z world_scheme \<Rightarrow> bool" where
  "undisturbed p w \<longleftrightarrow> (\<forall>now. script_ok (spares (path_components (temp_path p (w_pid w) (w_counter w) now)))
     (w_now w) (w_script w))"

text \<open>What follows the choice of the name.\<close>

definition named_temp :: "path \<Rightarrow> path \<Rightarrow> bytes \<Rightarrow> durability \<Rightarrow> ('z world_scheme, persist_error, path \<times> file_stamp) comp" where
  "named_temp temp p bytes d =
     handle (write_temp temp p bytes d)
       (\<lambda>error. bind (ignore (sys_remove_file temp)) (\<lambda>_. raise error))
       (\<lambda>stamp. ret (temp, stamp))"

lemma write_unique_temp_run:
  "write_unique_temp parent p bytes d w =
    named_temp (path_join parent (temp_name (w_pid w) (w_counter w) (w_now w))) p bytes d
      (w\<lparr>w_counter := w_counter w + 1\<rparr>)"
  by (simp add: write_unique_temp_def unique_temp_name_def bind_def named_temp_def Let_def)

lemma rg_named_temp:
  assumes "kt = path_components temp" "kt \<noteq> path_components p"
  shows "rg h (spares kt) (quiescent l0 p) (named_temp temp p bytes d)
    (\<lambda>r. case r of Inl e \<Rightarrow> quiescent l0 p
      | Inr ts \<Rightarrow> (\<lambda>f now l. fst ts = temp \<and> (\<exists>i. prepared kt l0 p i bytes f now l)))"
    (is "rg h ?E ?A _ ?B")
  unfolding named_temp_def
proof (rule rg_handle [where D = "\<lambda>_. ?A" and C = "\<lambda>_ f now l. \<exists>i. prepared kt l0 p i bytes f now l"], goal_cases)
  case 1
  show ?case by (rule rg_post [OF rg_write_temp [OF assms]]) (auto split: sum.splits)
next
  case (2 e)
  show ?case
    by (rule rg_fail_removing [unfolded fail_removing_def]) (use assms in auto)
next
  case (3 stamp)
  show ?case by (rule rg_ret) simp
qed

definition persist_post :: "u64 \<Rightarrow> expected_destination option \<Rightarrow> (fsys \<times> fsys) list \<Rightarrow> path \<Rightarrow> bytes \<Rightarrow>
    persist_error + file_stamp option \<Rightarrow> assertion" where
  "persist_post device expected l0 p bytes r f now l \<longleftrightarrow>
     (case r of Inl e \<Rightarrow> kept l0 p l | Inr _ \<Rightarrow> committed device expected l0 p bytes l)"

lemma rg_write_named:
  assumes "kt = path_components temp" "kt \<noteq> path_components p"
  shows "rg h (spares kt) (quiescent l0 p)
    (bind (named_temp temp p bytes d) (\<lambda>(temp_path, stamp).
     bind (guard_destination x p temp_path expected) (\<lambda>_.
     bind (rename_into temp_path p) (\<lambda>_. finish_persist p d stamp))))
    (persist_post (fst (snd h)) expected l0 p bytes)"
    (is "rg h ?E ?A _ ?B")
proof (rule rg_bind [where C = "\<lambda>ts f now l. fst ts = temp \<and> (\<exists>i. prepared kt l0 p i bytes f now l)"], goal_cases)
  case 1
  show ?case
    by (rule rg_post [OF rg_named_temp [OF assms]]) (auto simp: persist_post_def quiescent_def split: sum.splits)
next
  case (2 ts)
  let ?dev = "fst (snd h)"
  have finish: "rg h ?E (prepared kt l0 p i bytes)
    (bind (guard_destination x p temp expected) (\<lambda>_. bind (rename_into temp p) (\<lambda>_. finish_persist p d (snd ts)))
      :: ('a world_scheme, persist_error, file_stamp option) comp) ?B" for i
  proof (rule rg_bind [where C = "\<lambda>_. ready kt l0 p i bytes ?dev expected"], goal_cases)
    case 1
    show ?case
      by (rule rg_post [OF rg_guard [OF assms]]) (auto simp: persist_post_def quiescent_def split: sum.splits)
  next
    case (2 u)
    show ?case
    proof (rule rg_bind [where C = "\<lambda>_. persisted kt ?dev expected l0 p bytes"], goal_cases)
      case 1
      show ?case
        by (rule rg_post [OF rg_rename_into [OF assms]]) (auto simp: persist_post_def quiescent_def split: sum.splits)
    next
      case (2 u')
      show ?case by (rule rg_post [OF rg_finish_persist [OF stable_persisted]]) (auto simp: persist_post_def persisted_def)
    qed
  qed
  show ?case
    by (cases ts, simp only: prod.case, rule rg_pure, rule rg_ex) (use finish in simp)
qed

section \<open>The exclusive create\<close>

definition created :: "(fsys \<times> fsys) list \<Rightarrow> path \<Rightarrow> bytes \<Rightarrow> (fsys \<times> fsys) list \<Rightarrow> bool" where
  "created l0 p bytes l \<longleftrightarrow>
     (\<exists>before after f f'. l = after @ (f, f') # before @ l0 \<and> kept l0 p (before @ l0) \<and>
        content_at f p = None \<and> content_at f' p = Some bytes \<and>
        (\<forall>s\<in>set after. content_at (snd s) p = content_at (fst s) p))"

definition linked :: "(fsys \<times> fsys) list \<Rightarrow> path \<Rightarrow> bytes \<Rightarrow> assertion" where
  "linked l0 p bytes f now l \<longleftrightarrow> fs_ok f \<and> created l0 p bytes l"

lemma created_Cons: "created l0 p bytes l \<Longrightarrow> content_at f' p = content_at f p \<Longrightarrow> created l0 p bytes ((f, f') # l)"
  unfolding created_def by (elim exE, rule_tac x = before in exI, rule_tac x = "(f, f') # after" in exI) auto

lemma created_now:
  assumes "kept l0 p l" "content_at f p = None" "content_at f' p = Some bytes"
  shows "created l0 p bytes ((f, f') # l)"
proof -
  obtain before where "l = before @ l0" using assms(1) by (auto simp: kept_def)
  then show ?thesis
    using assms unfolding created_def by (intro exI [of _ before] exI [of _ "[]"] exI [of _ f] exI [of _ f']) simp
qed

lemma stable_linked: "stable (spares kt) (linked l0 p bytes)"
  unfolding stable_def
proof (intro allI impI)
  fix f now l t assume a: "linked l0 p bytes f now l" "allowed (spares kt) now t"
  then have "fs_ok (tk_env t f)" using sparesD(1) [OF allowed_spares [OF a(2)]] by (simp add: linked_def)
  then show "linked l0 p bytes (tk_env t f) (tk_now t) ((tk_env t f, tk_env t f) # l)"
    using a(1) by (simp add: linked_def created_Cons)
qed

lemma rg_remove_linked:
  assumes "path_components temp \<noteq> path_components p"
  shows "rg h (spares kt) (linked l0 p bytes) (sys_remove_file temp) (\<lambda>r. linked l0 p bytes)"
  unfolding sys_remove_file_def
proof (rule rg_syscall, goal_cases)
  case (1 f now l t e)
  then show ?case using stable_linked unfolding stable_def by blast
next
  case (2 f now l t r f')
  let ?f = "tk_env t f"
  have q: "fs_ok ?f" "created l0 p bytes l"
    using 2 stable_linked [of kt l0 p bytes] unfolding stable_def by (auto simp: linked_def)
  have "fs_ok f'" using 2(3) q(1) by (auto simp: fs_ok_def touch_def split: option.splits if_splits)
  moreover have "content_at f' p = content_at ?f p"
    by (rule content_at_cong) (use 2(3) assms in \<open>auto simp: lookup_def touch_def split: option.splits if_splits\<close>)
  ultimately show ?case using q(2) by (simp add: linked_def created_Cons)
qed

lemma rg_link_into:
  assumes "kt = path_components temp" "kt \<noteq> path_components p"
  shows "rg h (spares kt) (prepared kt l0 p i bytes) (link_into temp p)
    (\<lambda>r. case r of Inl e \<Rightarrow> quiescent l0 p | Inr _ \<Rightarrow> linked l0 p bytes)"
    (is "rg h ?E ?A _ ?B")
  unfolding link_into_def
proof (rule rg_handle [where D = "\<lambda>_. ?A" and C = "\<lambda>_. linked l0 p bytes"], goal_cases)
  case 1
  show ?case
    unfolding sys_hard_link_def
  proof (rule rg_syscall, goal_cases)
    case (1 f now l t e)
    then show ?case using stable_prepared unfolding stable_def by auto
  next
    case (2 f now l t r f')
    let ?f = "tk_env t f"
    have A: "?A ?f (tk_now t) ((?f, ?f) # l)" using 2 stable_prepared unfolding stable_def by blast
    have l: "kept l0 p l" using 2(1) by (simp add: prepared_def)
    have temp: "fs_ok ?f" "temp_file kt i bytes ?f" using A by (simp_all add: prepared_def)
    have source: "lookup ?f temp = Some i" using temp(2) assms(1) by (simp add: lookup_def temp_file_def)
    show ?case
    proof (cases r)
      case (Inl e)
      then have "f' = ?f" using 2(3) by (auto split: option.splits if_splits)
      then show ?thesis using Inl A by simp
    next
      case (Inr u)
      have f': "lookup ?f p = None" "f' = touch (fst h (tk_now t)) i (?f\<lparr>f_names := (f_names ?f)(path_components p := Some i)\<rparr>)"
        using 2(3) Inr unfolding source by (simp_all split: if_splits)
      moreover have "i < f_next ?f" "in_bytes (f_inodes ?f i) = bytes"
        using temp by (auto simp: fs_ok_def temp_file_def)
      ultimately have "content_at ?f p = None" "content_at f' p = Some bytes" "fs_ok f'"
        using temp(1) by (simp_all add: content_at_def lookup_def touch_def fs_ok_def)
      then show ?thesis using Inr created_now [OF l] by (simp add: linked_def)
    qed
  qed
next
  case (2 e)
  have "rg h ?E ?A (fail_removing temp e' :: ('a world_scheme, persist_error, unit) comp) ?B" for e'
    by (rule rg_fail_removing [OF _ _ prepared_quiescent]) (use assms in auto)
  then show ?case by (cases "io_kind_of e = IoAlreadyExists") (simp_all add: fail_removing_def)
next
  case (3 u)
  show ?case by (rule rg_ignore, rule rg_post [OF rg_remove_linked]) (use assms in auto)
qed

definition create_post :: "(fsys \<times> fsys) list \<Rightarrow> path \<Rightarrow> bytes \<Rightarrow> persist_error + file_stamp option \<Rightarrow> assertion" where
  "create_post l0 p bytes r f now l \<longleftrightarrow> (case r of Inl e \<Rightarrow> kept l0 p l | Inr _ \<Rightarrow> created l0 p bytes l)"

lemma rg_create_named:
  assumes "kt = path_components temp" "kt \<noteq> path_components p"
  shows "rg h (spares kt) (quiescent l0 p)
    (bind (named_temp temp p bytes d) (\<lambda>(temp_path, stamp).
     bind (link_into temp_path p) (\<lambda>_. finish_persist p d stamp)))
    (create_post l0 p bytes)"
    (is "rg h ?E ?A _ ?B")
proof (rule rg_bind [where C = "\<lambda>ts f now l. fst ts = temp \<and> (\<exists>i. prepared kt l0 p i bytes f now l)"], goal_cases)
  case 1
  show ?case
    by (rule rg_post [OF rg_named_temp [OF assms]]) (auto simp: create_post_def quiescent_def split: sum.splits)
next
  case (2 ts)
  have finish: "rg h ?E (prepared kt l0 p i bytes)
    (bind (link_into temp p) (\<lambda>_. finish_persist p d (snd ts))
      :: ('a world_scheme, persist_error, file_stamp option) comp) ?B" for i
  proof (rule rg_bind [where C = "\<lambda>_. linked l0 p bytes"], goal_cases)
    case 1
    show ?case
      by (rule rg_post [OF rg_link_into [OF assms]]) (auto simp: create_post_def quiescent_def split: sum.splits)
  next
    case (2 u)
    show ?case by (rule rg_post [OF rg_finish_persist [OF stable_linked]]) (auto simp: create_post_def linked_def)
  qed
  show ?case
    by (cases ts, simp only: prod.case, rule rg_pure, rule rg_ex) (use finish in simp)
qed

text \<open>Both operations choose their name after the parent exists.\<close>

lemma persist_run:
  fixes w :: "'z world_scheme" and rest :: "path \<times> file_stamp \<Rightarrow> ('z world_scheme, persist_error, file_stamp option) comp"
  assumes ok: "fs_ok (w_fs w)" and p: "ordinary p" and calm: "undisturbed p w"
    and run: "bind (create_parent p) (\<lambda>_. bind (write_unique_temp (temp_parent p) p bytes d) rest) w = (r, w')"
    and rest: "\<And>kt temp. kt = path_components temp \<Longrightarrow> kt \<noteq> path_components p \<Longrightarrow>
      rg (host_of w) (spares kt) (quiescent (w_log w) p) (bind (named_temp temp p bytes d) rest) B"
    and early: "\<And>e f now l. kept (w_log w) p l \<Longrightarrow> B (Inl e) f now l"
  shows "B r (w_fs w') (w_now w') (w_log w')"
proof -
  obtain r1 w1 where r1: "create_parent p w = (r1, w1)" by (cases "create_parent p w")
  let ?temp = "temp_path p (w_pid w) (w_counter w) (w_now w1)"
  define kt where "kt = path_components ?temp"
  have kt: "kt \<noteq> path_components p" "script_ok (spares kt) (w_now w) (w_script w)"
    using calm temp_path_differs [OF p] by (simp_all add: undisturbed_def kt_def)
  have "holds (quiescent (w_log w) p) w" using ok by (simp add: holds_def quiescent_def)
  note one = rgD [OF rg_create_parent refl kt(2) this r1]
  have counter: "w_counter w1 = w_counter w"
    using keeps_create_parent [OF outside_counter, of p] r1 by (auto simp: keeps_def dest: spec [of _ w])
  show ?thesis
  proof (cases r1)
    case (Inl e)
    then show ?thesis using run one(3) r1 early by (auto simp: bind_def holds_def quiescent_def)
  next
    case (Inr u)
    let ?w2 = "w1\<lparr>w_counter := w_counter w1 + 1\<rparr>"
    have same: "host_of ?w2 = host_of w" "w_pid w1 = w_pid w" using one(1) by (auto simp: host_of_def)
    have "holds (quiescent (w_log w) p) ?w2" "script_ok (spares kt) (w_now ?w2) (w_script ?w2)"
      using one(2,3) by (simp_all add: holds_def)
    moreover have "bind (named_temp ?temp p bytes d) rest ?w2 = (r, w')"
      using run r1 Inr counter same(2) by (simp add: bind_def write_unique_temp_run temp_path_def)
    ultimately show ?thesis using rgD(3) [OF rest [OF kt_def kt(1)] same(1)] by (simp add: holds_def)
  qed
qed

lemma atomic_write_outcome:
  assumes "fs_ok (w_fs w)" "ordinary p" "undisturbed p w" "atomic_write x p bytes expected d w = (r, w')"
  shows "persist_post (w_device w) expected (w_log w) p bytes r (w_fs w') (w_now w') (w_log w')"
proof -
  have "persist_post (fst (snd (host_of w))) expected (w_log w) p bytes r (w_fs w') (w_now w') (w_log w')"
    by (rule persist_run [OF assms(1-3) assms(4) [unfolded atomic_write_def]], rule rg_write_named)
      (auto simp: persist_post_def)
  then show ?thesis by (simp add: host_of_def)
qed

lemma atomic_create_outcome:
  assumes "fs_ok (w_fs w)" "ordinary p" "undisturbed p w" "atomic_create p bytes d w = (r, w')"
  shows "create_post (w_log w) p bytes r (w_fs w') (w_now w') (w_log w')"
  by (rule persist_run [OF assms(1-3) assms(4) [unfolded atomic_create_def]], rule rg_create_named)
    (auto simp: create_post_def)

section \<open>Properties\<close>

text \<open>
  Property C3.  An atomic write is atomic for whoever looks at the destination, with other processes
  writing, renaming and removing files between any two calls and with any call failing.  If the
  operation reports an error, none of its steps changed what the destination holds.  If it
  succeeds, exactly one of its steps did, and from one state to the next it gave the destination
  the complete new bytes; before that step, when an expected stamp was given, the destination
  was observed with that stamp.
\<close>

theorem atomic_write_atomic:
  assumes "fs_ok (w_fs w)" "ordinary p" "undisturbed p w"
    and "atomic_write x p bytes expected d w = (r, w')"
  shows "case r of
      Inl e \<Rightarrow> kept (w_log w) p (w_log w')
    | Inr stamp \<Rightarrow> committed (w_device w) expected (w_log w) p bytes (w_log w')"
  using atomic_write_outcome [OF assms] by (simp add: persist_post_def)

theorem atomic_write_atomic_witness:
  "case atomic_write plain_externs ''/f'' ''xy'' None DurNone (small_world ''ab'' 1000000000 9000000000 []) of
     (Inl e, w') \<Rightarrow> kept [] ''/f'' (w_log w')
   | (Inr stamp, w') \<Rightarrow> committed 1 None [] ''/f'' ''xy'' (w_log w')"
proof -
  let ?w = "small_world ''ab'' 1000000000 9000000000 []"
  have name: "path_file_name ''/f'' = Some ''f''" by code_simp
  have "fs_ok (w_fs ?w)" by (simp add: small_world_def small_fs_def fs_ok_def)
  moreover have "ordinary ''/f''" by (simp add: ordinary_def name TEMP_PREFIX_def)
  moreover have "undisturbed ''/f'' ?w" by (simp add: undisturbed_def small_world_def)
  ultimately show ?thesis
    using atomic_write_atomic [of ?w "''/f''" plain_externs "''xy''" None DurNone]
    by (cases "atomic_write plain_externs ''/f'' ''xy'' None DurNone ?w") (auto simp: small_world_def split: sum.splits)
qed

text \<open>
  Property C26.  An atomic create never replaces anything: if it succeeds, the one step that created
  the destination found nothing under that name and left the complete bytes there; if it fails,
  for instance because another process won the race, no step of it changed what the destination
  holds.
\<close>

theorem atomic_create_exclusive:
  assumes "fs_ok (w_fs w)" "ordinary p" "undisturbed p w" and "atomic_create p bytes d w = (r, w')"
  shows "case r of
      Inl e \<Rightarrow> kept (w_log w) p (w_log w')
    | Inr stamp \<Rightarrow> created (w_log w) p bytes (w_log w')"
  using atomic_create_outcome [OF assms] by (simp add: create_post_def)

theorem atomic_create_exclusive_witness:
  "case atomic_create ''/f'' ''xy'' DurNone (small_world ''ab'' 1000000000 9000000000 []) of
     (Inl e, w') \<Rightarrow> kept [] ''/f'' (w_log w') | (Inr stamp, w') \<Rightarrow> created [] ''/f'' ''xy'' (w_log w')"
proof -
  let ?w = "small_world ''ab'' 1000000000 9000000000 []"
  have name: "path_file_name ''/f'' = Some ''f''" by code_simp
  have "fs_ok (w_fs ?w)" by (simp add: small_world_def small_fs_def fs_ok_def)
  moreover have "ordinary ''/f''" by (simp add: ordinary_def name TEMP_PREFIX_def)
  moreover have "undisturbed ''/f'' ?w" by (simp add: undisturbed_def small_world_def)
  ultimately show ?thesis
    using atomic_create_exclusive [of ?w "''/f''" "''xy''" DurNone]
    by (cases "atomic_create ''/f'' ''xy'' DurNone ?w") (auto simp: small_world_def split: sum.splits)
qed

end
