(* ===== verification/File_Steps.thy ===== *)
theory File_Steps
  imports Persist_Atomic
begin

text \<open>
  What every program over the world leaves invariant, by construction: a predicate that survives
  any one call survives all of them.
\<close>

definition preserves :: "('s \<Rightarrow> bool) \<Rightarrow> ('s, 'e, 'a) comp \<Rightarrow> bool" where
  "preserves J m \<longleftrightarrow> (\<forall>w. J w \<longrightarrow> J (snd (m w)))"

lemma preservesD: "preserves J m \<Longrightarrow> J w \<Longrightarrow> m w = (r, w') \<Longrightarrow> J w'"
  unfolding preserves_def by (metis snd_conv)

named_theorems preserves_rules

lemma preserves_basic [preserves_rules]:
  "preserves J (ret x)" "preserves J (raise e)" "preserves J (lift v)"
  by (simp_all add: preserves_def ret_def raise_def lift_def)

lemma preserves_bind [preserves_rules]:
  "preserves J m \<Longrightarrow> (\<And>x. preserves J (k x)) \<Longrightarrow> preserves J (bind m k)"
  by (auto simp: preserves_def bind_def split: prod.splits sum.splits)

lemma preserves_handle [preserves_rules]:
  "preserves J m \<Longrightarrow> (\<And>e. preserves J (c e)) \<Longrightarrow> (\<And>x. preserves J (k x)) \<Longrightarrow> preserves J (handle m c k)"
  by (auto simp: preserves_def handle_def split: prod.splits sum.splits)

lemma preserves_with_err [preserves_rules]: "preserves J m \<Longrightarrow> preserves J (with_err e m)"
  by (auto simp: preserves_def with_err_def split: prod.splits)

lemma preserves_ignore [preserves_rules]: "preserves J m \<Longrightarrow> preserves J (ignore m)"
  by (simp add: preserves_def ignore_def)

lemma preserves_keeps: "keeps g m \<Longrightarrow> preserves (\<lambda>w. P (g w)) m"
  by (simp add: preserves_def keeps_def)

text \<open>Survives a call, whatever the call and the others do to the files.\<close>

definition survives :: "('z world_scheme \<Rightarrow> bool) \<Rightarrow> bool" where
  "survives J \<longleftrightarrow> (\<forall>w f'. J w \<longrightarrow>
     J (w\<lparr>w_fs := f', w_now := tk_now (next_tick w), w_script := tl (w_script w),
          w_log := (tk_env (next_tick w) (w_fs w), f') # w_log w\<rparr>))"

lemma survives_syscall: "survives J \<Longrightarrow> J w \<Longrightarrow> J (snd (syscall act w))"
  by (auto simp: survives_def syscall_def Let_def split: prod.splits)

lemma survives_calls [preserves_rules]:
  assumes "survives J"
  shows "preserves J (sys_open p)" "preserves J (sys_fstat i)" "preserves J (sys_stat p)" "preserves J (sys_read i off n)"
    "preserves J (sys_mkdir p)" "preserves J (sys_create_new p)" "preserves J (sys_write i off d)" "preserves J (sys_sync i)"
    "preserves J (sys_rename p q)" "preserves J (sys_hard_link p q)" "preserves J (sys_remove_file p)" "preserves J (stamp_of m)"
  by (simp_all add: survives_syscall [OF assms] preserves_def sys_open_def sys_fstat_def sys_stat_def sys_read_def sys_mkdir_def sys_create_new_def
      sys_write_def sys_sync_def sys_rename_def sys_hard_link_def sys_remove_file_def stamp_of_def)

lemma survives_is_dir [preserves_rules]: "survives J \<Longrightarrow> preserves J (sys_is_dir p)"
  unfolding sys_is_dir_def by (intro preserves_rules)

lemma survives_read_all [preserves_rules]:
  assumes "survives J"
  shows "preserves J (read_all i limit acc)"
  unfolding preserves_def
proof
  fix w
  show "J w \<longrightarrow> J (snd (read_all i limit acc w))"
  proof (induction i limit acc w rule: read_all.induct)
    case (1 i limit acc w)
    let ?room = "case limit of None \<Rightarrow> usize_max | Some n \<Rightarrow> n - length acc"
    obtain q w1 where q: "sys_read i (length acc) ?room w = (q, w1)" by (metis surj_pair)
    have "J w \<longrightarrow> J w1" using preservesD [OF survives_calls(4) [OF assms] _ q] by blast
    then show ?case using 1 q by (subst read_all.simps) (auto simp: Let_def split: sum.splits)
  qed
qed

lemma survives_fs_read [preserves_rules]: "survives J \<Longrightarrow> preserves J (fs_read p)"
  unfolding fs_read_def by (intro preserves_rules)

lemma survives_write_all [preserves_rules]:
  assumes "survives J"
  shows "preserves J (write_all i off data)"
  unfolding preserves_def
proof
  fix w
  show "J w \<longrightarrow> J (snd (write_all i off data w))"
  proof (induction i off data w rule: write_all.induct)
    case (1 i off data w)
    obtain q w1 where q: "sys_write i off data w = (q, w1)" by (metis surj_pair)
    have "J w \<longrightarrow> J w1" using preservesD [OF survives_calls(7) [OF assms] _ q] by blast
    then show ?case using 1 q by (subst write_all.simps) (auto split: sum.splits)
  qed
qed

lemma survives_read_loop [preserves_rules]:
  assumes "survives J"
  shows "preserves J (read_loop x p i bs capacity)"
  unfolding preserves_def
proof
  fix w
  show "J w \<longrightarrow> J (snd (read_loop x p i bs capacity w))"
  proof (induction x p i bs capacity w rule: read_loop.induct)
    case (1 x p i bs capacity w)
    obtain q w1 where q: "sys_read i (length bs) READ_BUFFER_BYTES w = (q, w1)" by (metis surj_pair)
    have "J w \<longrightarrow> J w1" using preservesD [OF survives_calls(4) [OF assms] _ q] by blast
    then show ?case using 1 q by (subst read_loop.simps) (auto split: sum.splits option.splits)
  qed
qed

lemma survives_create_dir_all [preserves_rules]:
  fixes J :: "'z world_scheme \<Rightarrow> bool"
  assumes J: "survives J"
  shows "preserves J (create_dir_all q :: ('z world_scheme, io_error, unit) comp)"
proof (induction q rule: create_dir_all.induct)
  case (1 q)
  have dir: "preserves J (bind (sys_is_dir q) (\<lambda>d. if d then ret () else raise e) :: ('z world_scheme, io_error, unit) comp)" for e
    using J by (auto intro!: preserves_bind survives_is_dir preserves_basic)
  show ?case
  proof (cases "path_components q = []")
    case True
    then show ?thesis by (subst create_dir_all.simps) (simp add: preserves_basic)
  next
    case False
    have "preserves J (if io_kind_of e = IoNotFound then
           (case path_parent q of
              None \<Rightarrow> raise whole_tree
            | Some parent \<Rightarrow>
                bind (create_dir_all parent) (\<lambda>_.
                handle (sys_mkdir q) (\<lambda>e. bind (sys_is_dir q) (\<lambda>d. if d then ret () else raise e)) ret))
         else bind (sys_is_dir q) (\<lambda>d. if d then ret () else raise e) :: ('z world_scheme, io_error, unit) comp)" for e
      using 1 [OF False, of e] dir J
      by (auto intro!: preserves_bind preserves_handle survives_calls survives_is_dir preserves_basic split: option.split)
    then show ?thesis
      using False J by (subst create_dir_all.simps) (auto intro!: preserves_handle survives_calls preserves_basic)
  qed
qed

section \<open>Loading\<close>

lemma survives_path_stamp [preserves_rules]: "survives J \<Longrightarrow> preserves J (path_stamp p)"
  unfolding path_stamp_def by (auto intro!: preserves_rules)

lemma survives_accept_text [preserves_rules]: "preserves J (accept_text x bytes after)"
  unfolding accept_text_def by (intro preserves_rules)

lemma survives_settle [preserves_rules]: "survives J \<Longrightarrow> preserves J (settle_candidate x p bytes after)"
  unfolding settle_candidate_def by (auto intro!: preserves_rules)

lemma survives_read_candidate [preserves_rules]: "survives J \<Longrightarrow> preserves J (read_candidate x p)"
  unfolding read_candidate_def
  by (intro preserves_bind preserves_with_err preserves_basic survives_calls survives_read_loop survives_path_stamp)
    (auto intro!: preserves_rules)

lemma survives_load [preserves_rules]: "survives J \<Longrightarrow> preserves J (snapshot_load x p)"
proof -
  assume "survives J"
  then have "preserves J (load_attempts x p n)" for n
    by (induction n) (auto intro!: preserves_rules split: option.split)
  then show ?thesis by (simp add: snapshot_load_def)
qed

section \<open>Persisting\<close>

text \<open>The operations that name a temporary file also move the counter.\<close>

definition uncounted :: "('z world_scheme \<Rightarrow> bool) \<Rightarrow> bool" where
  "uncounted J \<longleftrightarrow> (\<forall>w n. J w \<longrightarrow> J (w\<lparr>w_counter := n\<rparr>))"

lemma survives_parts [preserves_rules]:
  assumes "survives J"
  shows "preserves J (create_parent p)" "preserves J (fsync_parent q)" "preserves J (confirm_stamp p s)"
    "preserves J (fail_removing temp e)" "preserves J (sync_temp p d i)"
proof -
  show "preserves J (create_parent p)"
    unfolding create_parent_def using assms by (auto intro!: preserves_rules split: option.split)
  show "preserves J (fsync_parent q)"
    unfolding fsync_parent_def using assms by (intro preserves_rules)
  show "preserves J (confirm_stamp p s)"
    unfolding confirm_stamp_def using assms by (intro preserves_rules)
  show "preserves J (fail_removing temp e)"
    unfolding fail_removing_def using assms by (intro preserves_rules)
  show "preserves J (sync_temp p d i)"
    unfolding sync_temp_def using assms by (cases d) (auto intro!: preserves_rules)
qed

lemma survives_unique_temp [preserves_rules]:
  assumes "survives J" "uncounted J"
  shows "preserves J (write_unique_temp parent p bytes d)"
proof -
  have "preserves J (unique_temp_name)"
    using assms(2) by (simp add: preserves_def unique_temp_name_def uncounted_def)
  moreover have "preserves J (write_temp temp p bytes d)" for temp
    unfolding write_temp_def using assms(1) by (intro preserves_rules)
  ultimately show ?thesis
    unfolding write_unique_temp_def Let_def using assms(1) by (intro preserves_rules)
qed

lemma survives_guard [preserves_rules]: "survives J \<Longrightarrow> preserves J (guard_destination x p temp expected)"
proof -
  assume J: "survives J"
  have "preserves J (destination_unchanged x p temp e)" for e
    unfolding destination_unchanged_def using J by (auto intro!: preserves_rules)
  then show ?thesis
    unfolding guard_destination_def using J by (auto intro!: preserves_rules split: option.split)
qed

lemma survives_rename [preserves_rules]: "survives J \<Longrightarrow> preserves J (rename_into temp p)"
  unfolding rename_into_def by (intro preserves_rules)

lemma survives_link [preserves_rules]: "survives J \<Longrightarrow> preserves J (link_into temp p)"
  unfolding link_into_def by (auto intro!: preserves_rules)

lemma survives_finish [preserves_rules]: "survives J \<Longrightarrow> preserves J (finish_persist p d s)"
  unfolding finish_persist_def by (auto intro!: preserves_rules)

lemma survives_persist [preserves_rules]:
  assumes "survives J" "uncounted J"
  shows "preserves J (atomic_write x p bytes expected d)" "preserves J (atomic_create p bytes d)"
  unfolding atomic_write_def atomic_create_def using assms by (auto intro!: preserves_rules)

section \<open>Such invariants\<close>

lemma survives_and: "survives J \<Longrightarrow> survives K \<Longrightarrow> survives (\<lambda>w. J w \<and> K w)"
  by (simp add: survives_def)

lemma survives_outside: "outside_files g \<Longrightarrow> survives (\<lambda>w. g w = c)"
  by (simp add: survives_def outside_files_def)

text \<open>The log grows.\<close>

lemma survives_log: "survives (\<lambda>w. \<exists>new. w_log w = new @ l0)"
  unfolding survives_def
proof (intro allI impI, elim exE)
  fix w :: "'a world_scheme" and f' new
  assume "w_log w = new @ l0"
  then show "\<exists>new. w_log (w\<lparr>w_fs := f', w_now := tk_now (next_tick w), w_script := tl (w_script w),
      w_log := (tk_env (next_tick w) (w_fs w), f') # w_log w\<rparr>) = new @ l0"
    by (intro exI [of _ "(tk_env (next_tick w) (w_fs w), f') # new"]) simp
qed

lemma survives_script: "survives (\<lambda>w. script_ok E (w_now w) (w_script w))"
  unfolding survives_def
proof (intro allI impI)
  fix w :: "'a world_scheme" and f'
  assume "script_ok E (w_now w) (w_script w)"
  then have "script_ok E (tk_now (next_tick w)) (tl (w_script w))"
    by (cases "w_script w") (simp_all add: next_tick_def)
  then show "script_ok E (w_now (w\<lparr>w_fs := f', w_now := tk_now (next_tick w), w_script := tl (w_script w), w_log := (tk_env (next_tick w) (w_fs w), f') # w_log w\<rparr>))
     (w_script (w\<lparr>w_fs := f', w_now := tk_now (next_tick w), w_script := tl (w_script w), w_log := (tk_env (next_tick w) (w_fs w), f') # w_log w\<rparr>))"
    by simp
qed

text \<open>Time does not go back.\<close>

lemma survives_time: "survives (\<lambda>w. script_ok (settled_rely clk) (w_now w) (w_script w) \<and> t0 \<le> w_now w)"
  unfolding survives_def
proof (intro allI impI)
  fix w :: "'a world_scheme" and f'
  assume w: "script_ok (settled_rely clk) (w_now w) (w_script w) \<and> t0 \<le> w_now w"
  then have "w_now w \<le> tk_now (next_tick w) \<and> script_ok (settled_rely clk) (tk_now (next_tick w)) (tl (w_script w))"
    by (cases "w_script w") (auto simp: next_tick_def quiet_tick_def settled_rely_def honest_def)
  then show "script_ok (settled_rely clk) (w_now (w\<lparr>w_fs := f', w_now := tk_now (next_tick w), w_script := tl (w_script w), w_log := (tk_env (next_tick w) (w_fs w), f') # w_log w\<rparr>))
     (w_script (w\<lparr>w_fs := f', w_now := tk_now (next_tick w), w_script := tl (w_script w), w_log := (tk_env (next_tick w) (w_fs w), f') # w_log w\<rparr>)) \<and>
     t0 \<le> w_now (w\<lparr>w_fs := f', w_now := tk_now (next_tick w), w_script := tl (w_script w), w_log := (tk_env (next_tick w) (w_fs w), f') # w_log w\<rparr>)"
    using w by simp
qed

end
