(* ===== verification/Snapshot_Cache.thy ===== *)
theory Snapshot_Cache
  imports File_Steps "HOL-Library.AList"
begin

text \<open>
  The snapshot cache of the process (\<open>src/cache.rs\<close>): eight shards under a lock each, with a byte
  budget per shard, entries that are served on the stamp of the file, and loads that callers of
  the same path share.
\<close>

section \<open>State\<close>

definition DEFAULT_CAPACITY_BYTES :: u64 where
  "DEFAULT_CAPACITY_BYTES = 256 * 1024 * 1024"

definition SHARD_COUNT :: nat where
  "SHARD_COUNT = 8"

text \<open>A \<open>PathBuf\<close> as a key: paths with the same components are equal and hash alike.\<close>

type_synonym cache_key = "component list"

record cache_entry =
  en_snapshot :: snapshot
  en_bytes :: u64
  en_stamp :: "file_stamp option"

datatype inflight_state = Pending | Ready "string + snapshot"

text \<open>
  A \<open>HashMap\<close> is an association list.  An \<open>Arc\<close> to the state of a shared load is an index into the
  cells of the cache.
\<close>

record shard =
  sh_map :: "(cache_key \<times> cache_entry) list"
  sh_used :: u64
  sh_inflight :: "(cache_key \<times> nat) list"

record cache =
  ca_capacity :: u64
  ca_shards :: "shard list"
  ca_cells :: "inflight_state list"

text \<open>
  What the standard library leaves open: the hash of a path, and which key the iterator of a map
  yields first (an index into its keys).
\<close>

record hashing =
  hs_hash :: "cache_key \<Rightarrow> nat"
  hs_first :: "cache_key list \<Rightarrow> nat"

definition shard_default :: shard where
  "shard_default = \<lparr>sh_map = [], sh_used = 0, sh_inflight = []\<rparr>"

definition with_capacity :: "u64 \<Rightarrow> cache" where
  "with_capacity capacity =
     \<lparr>ca_capacity = max capacity 1, ca_shards = replicate SHARD_COUNT shard_default, ca_cells = []\<rparr>"

definition cache_new :: cache where
  "cache_new = with_capacity DEFAULT_CAPACITY_BYTES"

definition shard_index :: "hashing \<Rightarrow> path \<Rightarrow> nat" where
  "shard_index hs p = hs_hash hs (path_components p) mod SHARD_COUNT"

definition shard_of :: "hashing \<Rightarrow> path \<Rightarrow> cache \<Rightarrow> shard" where
  "shard_of hs p ca = ca_shards ca ! shard_index hs p"

definition set_shard :: "hashing \<Rightarrow> path \<Rightarrow> shard \<Rightarrow> cache \<Rightarrow> cache" where
  "set_shard hs p s ca = ca\<lparr>ca_shards := (ca_shards ca)[shard_index hs p := s]\<rparr>"

section \<open>Operations on a locked shard\<close>

definition resident :: "hashing \<Rightarrow> path \<Rightarrow> cache \<Rightarrow> cache_entry option" where
  "resident hs p ca = map_of (sh_map (shard_of hs p ca)) (path_components p)"

text \<open>An entry that is not racy and has the stamp the caller saw.\<close>

definition stamp_racy_opt :: "file_stamp option \<Rightarrow> bool" where
  "stamp_racy_opt stamp = (case stamp of None \<Rightarrow> False | Some s \<Rightarrow> fs_racy s)"

definition cache_get :: "hashing \<Rightarrow> path \<Rightarrow> file_stamp option \<Rightarrow> cache \<Rightarrow> snapshot option" where
  "cache_get hs p stamp ca =
     (case resident hs p ca of
        None \<Rightarrow> None
      | Some e \<Rightarrow>
          (case stamp of
             None \<Rightarrow> Some (en_snapshot e)
           | Some expected \<Rightarrow>
               if \<not> stamp_opt_eq (en_stamp e) (Some expected) then None
               else if stamp_racy_opt (en_stamp e) then None
               else Some (en_snapshot e)))"

text \<open>\<open>if let Some(old) = map.remove(key)\<close>, with the bytes given back.\<close>

definition drop_entry :: "cache_key \<Rightarrow> shard \<Rightarrow> shard" where
  "drop_entry key s =
     (case map_of (sh_map s) key of
        None \<Rightarrow> s
      | Some old \<Rightarrow> s\<lparr>sh_map := AList.delete key (sh_map s), sh_used := sat_sub_u64 (sh_used s) (en_bytes old)\<rparr>)"

definition first_key :: "hashing \<Rightarrow> shard \<Rightarrow> cache_key" where
  "first_key hs s = map fst (sh_map s) ! (hs_first hs (map fst (sh_map s)) mod length (sh_map s))"

lemma first_key_in: "sh_map s \<noteq> [] \<Longrightarrow> first_key hs s \<in> fst ` set (sh_map s)"
  unfolding first_key_def by (metis length_map length_pos_if_in_set list.set_map list.set_sel(1) mod_less_divisor nth_mem)

lemma length_delete: "k \<in> fst ` set xs \<Longrightarrow> length (AList.delete k xs) < length xs"
  by (induction xs) (auto simp: AList.delete_eq intro: le_imp_less_Suc)

lemma drop_entry_shorter:
  "sh_map s \<noteq> [] \<Longrightarrow> length (sh_map (drop_entry (first_key hs s) s)) < length (sh_map s)"
  using first_key_in [of s hs]
  by (auto simp: drop_entry_def length_delete map_of_eq_None_iff split: option.splits)

function evict :: "hashing \<Rightarrow> u64 \<Rightarrow> u64 \<Rightarrow> shard \<Rightarrow> shard" where
  "evict hs capacity bytes s =
     (if sat_add_u64 (sh_used s) bytes > capacity \<and> sh_map s \<noteq> []
      then evict hs capacity bytes (drop_entry (first_key hs s) s) else s)"
  by pat_completeness auto

termination
  by (relation "measure (\<lambda>(hs, capacity, bytes, s). length (sh_map s))") (auto simp: drop_entry_shorter)

declare evict.simps [simp del]

definition insert_entry :: "hashing \<Rightarrow> u64 \<Rightarrow> cache_key \<Rightarrow> snapshot \<Rightarrow> shard \<Rightarrow> shard" where
  "insert_entry hs capacity key snap s =
     (let bytes = sn_byte_len snap; s' = evict hs capacity bytes (drop_entry key s) in
      s'\<lparr>sh_used := sat_add_u64 (sh_used s') bytes,
        sh_map := AList.update key \<lparr>en_snapshot = snap, en_bytes = bytes, en_stamp = sn_stamp snap\<rparr> (sh_map s')\<rparr>)"

definition cache_insert :: "hashing \<Rightarrow> path \<Rightarrow> snapshot \<Rightarrow> cache \<Rightarrow> cache" where
  "cache_insert hs p snap ca =
     (if sn_byte_len snap > ca_capacity ca then ca
      else set_shard hs p (insert_entry hs (ca_capacity ca) (path_components p) snap (shard_of hs p ca)) ca)"

definition refresh_entry :: "hashing \<Rightarrow> path \<Rightarrow> file_stamp \<Rightarrow> file_stamp \<Rightarrow> cache \<Rightarrow> cache" where
  "refresh_entry hs p entry_stamp after ca =
     (case resident hs p ca of
        None \<Rightarrow> ca
      | Some e \<Rightarrow>
          if stamp_opt_eq (en_stamp e) (Some entry_stamp) then
            let s = shard_of hs p ca in
            set_shard hs p (s\<lparr>sh_map := AList.update (path_components p) (e\<lparr>en_stamp := Some after\<rparr>) (sh_map s)\<rparr>) ca
          else ca)"

text \<open>
  Claim or join: a resident entry that still fits is served, any other is dropped, and the caller
  gets the cell of the load in flight, or a new one.
\<close>

definition join_flight :: "hashing \<Rightarrow> path \<Rightarrow> cache \<Rightarrow> nat \<times> cache" where
  "join_flight hs p ca =
     (let s = shard_of hs p ca in
      case map_of (sh_inflight s) (path_components p) of
        Some cell \<Rightarrow> (cell, ca)
      | None \<Rightarrow>
          (length (ca_cells ca),
           (set_shard hs p (s\<lparr>sh_inflight := AList.update (path_components p) (length (ca_cells ca)) (sh_inflight s)\<rparr>) ca)
             \<lparr>ca_cells := ca_cells ca @ [Pending]\<rparr>))"

definition entry_fits :: "file_stamp option \<Rightarrow> cache_entry \<Rightarrow> bool" where
  "entry_fits current_stamp e =
     (case current_stamp of
        Some stamp \<Rightarrow> stamp_opt_eq (en_stamp e) (Some stamp) \<and> \<not> stamp_racy_opt (en_stamp e)
      | None \<Rightarrow> en_stamp e = None)"

definition claim_cell :: "hashing \<Rightarrow> path \<Rightarrow> file_stamp option \<Rightarrow> cache \<Rightarrow> (snapshot + nat) \<times> cache" where
  "claim_cell hs p current_stamp ca =
     (case resident hs p ca of
        Some e \<Rightarrow>
          if entry_fits current_stamp e then (Inl (en_snapshot e), ca)
          else
            let (cell, ca') = join_flight hs p
              (set_shard hs p (drop_entry (path_components p) (shard_of hs p ca)) ca)
            in (Inr cell, ca')
      | None \<Rightarrow> let (cell, ca') = join_flight hs p ca in (Inr cell, ca'))"

definition set_cell :: "nat \<Rightarrow> inflight_state \<Rightarrow> cache \<Rightarrow> cache" where
  "set_cell cell state ca = ca\<lparr>ca_cells := (ca_cells ca)[cell := state]\<rparr>"

definition clear_inflight :: "hashing \<Rightarrow> path \<Rightarrow> cache \<Rightarrow> cache" where
  "clear_inflight hs p ca =
     (let s = shard_of hs p ca in
      set_shard hs p (s\<lparr>sh_inflight := AList.delete (path_components p) (sh_inflight s)\<rparr>) ca)"

definition cache_invalidate :: "hashing \<Rightarrow> path \<Rightarrow> cache \<Rightarrow> cache" where
  "cache_invalidate hs p ca =
     (let s = drop_entry (path_components p) (shard_of hs p ca) in
      set_shard hs p (s\<lparr>sh_inflight := AList.delete (path_components p) (sh_inflight s)\<rparr>) ca)"

text \<open>The sum over the shards wraps in a release build.\<close>

definition used_bytes :: "cache \<Rightarrow> u64" where
  "used_bytes ca = sum_list (map sh_used (ca_shards ca))"

section \<open>The process\<close>

text \<open>
  A thread of the process: the world, the cache it shares with the other threads, and what those
  do to the cache before each lock the thread takes, as the files and the time then are.
\<close>

type_synonym turn = "fsys \<Rightarrow> system_time \<Rightarrow> cache \<Rightarrow> cache"

record process = world +
  pr_cache :: cache
  pr_turns :: "turn list"

definition others_turn :: "'z process_scheme \<Rightarrow> cache" where
  "others_turn w = (case pr_turns w of [] \<Rightarrow> pr_cache w | t # _ \<Rightarrow> t (w_fs w) (w_now w) (pr_cache w))"

definition locked :: "(cache \<Rightarrow> 'a \<times> cache) \<Rightarrow> ('z process_scheme, 'e, 'a) comp" where
  "locked act = (\<lambda>w. let (r, ca) = act (others_turn w) in
     (Inr r, w\<lparr>pr_cache := ca, pr_turns := tl (pr_turns w)\<rparr>))"

text \<open>A write under a lock that is already held.\<close>

definition holding :: "(cache \<Rightarrow> cache) \<Rightarrow> ('z process_scheme, 'e, unit) comp" where
  "holding f = (\<lambda>w. (Inr (), w\<lparr>pr_cache := f (pr_cache w)\<rparr>))"

text \<open>\<open>metadata(path).ok().and_then(|meta| from_metadata_public(&meta).ok())\<close>\<close>

definition current_stamp :: "path \<Rightarrow> ('z world_scheme, 'e, file_stamp option) comp" where
  "current_stamp p =
     handle (sys_stat p) (\<lambda>_. ret None) (\<lambda>m. bind (stamp_of m) (\<lambda>s. ret (Some s)))"

definition racy_resident :: "hashing \<Rightarrow> path \<Rightarrow> cache \<Rightarrow> (snapshot \<times> file_stamp) option" where
  "racy_resident hs p ca =
     (case resident hs p ca of
        None \<Rightarrow> None
      | Some e \<Rightarrow>
          (case en_stamp e of
             None \<Rightarrow> None
           | Some stamp \<Rightarrow> if \<not> fs_racy stamp then None else Some (en_snapshot e, stamp)))"

text \<open>The verified read: \<open>None\<close> when the descriptor does not have the stamp of the entry.\<close>

definition read_verified :: "path \<Rightarrow> file_stamp \<Rightarrow> ('z world_scheme, io_error, (bytes \<times> file_stamp) option) comp" where
  "read_verified p entry_stamp =
     bind (sys_open p) (\<lambda>i.
     bind (sys_fstat i) (\<lambda>m.
     bind (stamp_of m) (\<lambda>before.
     if \<not> stamp_eq before entry_stamp then ret None
     else
       bind (read_all i (Some (unat (sat_add_u64 (fs_len entry_stamp) 1))) []) (\<lambda>bytes.
       bind (sys_fstat i) (\<lambda>m'.
       bind (stamp_of m') (\<lambda>after. ret (Some (bytes, after))))))))"

definition verify_racy_resident :: "hashing \<Rightarrow> path \<Rightarrow> ('z process_scheme, 'e, snapshot option) comp" where
  "verify_racy_resident hs p =
     bind (locked (\<lambda>ca. (racy_resident hs p ca, ca))) (\<lambda>found.
     case found of
       None \<Rightarrow> ret None
     | Some (snap, entry_stamp) \<Rightarrow>
         handle (read_verified p entry_stamp) (\<lambda>_. ret None) (\<lambda>r.
           case r of
             None \<Rightarrow> ret None
           | Some (bytes, after) \<Rightarrow>
               if \<not> (stamp_eq after entry_stamp \<and> bytes = sn_text snap) then ret None
               else bind (locked (\<lambda>ca. ((), refresh_entry hs p entry_stamp after ca))) (\<lambda>_. ret (Some snap))))"

text \<open>The stamp hit at the start of \<open>get_or_load\<close>.\<close>

definition stamped_hit :: "hashing \<Rightarrow> path \<Rightarrow> ('z process_scheme, 'e, snapshot option) comp" where
  "stamped_hit hs p =
     bind (current_stamp p) (\<lambda>stamp.
     case stamp of
       None \<Rightarrow> ret None
     | Some s \<Rightarrow> locked (\<lambda>ca. (cache_get hs p (Some s) ca, ca)))"

text \<open>The owner of the cell runs the loader with the lock of the cell held.\<close>

definition load_into_cell ::
    "hashing \<Rightarrow> path \<Rightarrow> ('z process_scheme, snapshot_error, snapshot) comp \<Rightarrow> nat \<Rightarrow>
     ('z process_scheme, snapshot_error, snapshot) comp" where
  "load_into_cell hs p loader cell =
     handle loader
       (\<lambda>err. bind (holding (set_cell cell (Ready (Inl (snapshot_error_message err))))) (\<lambda>_.
          bind (locked (\<lambda>ca. ((), clear_inflight hs p ca))) (\<lambda>_. raise err)))
       (\<lambda>snap. bind (locked (\<lambda>ca. ((), cache_insert hs p snap ca))) (\<lambda>_.
          bind (holding (set_cell cell (Ready (Inr snap)))) (\<lambda>_.
          bind (locked (\<lambda>ca. ((), clear_inflight hs p ca))) (\<lambda>_. ret snap))))"

definition get_or_load ::
    "hashing \<Rightarrow> path \<Rightarrow> ('z process_scheme, snapshot_error, snapshot) comp \<Rightarrow>
     ('z process_scheme, snapshot_error, snapshot) comp" where
  "get_or_load hs p loader =
     bind (stamped_hit hs p) (\<lambda>hit.
     case hit of Some snap \<Rightarrow> ret snap | None \<Rightarrow>
     bind (verify_racy_resident hs p) (\<lambda>hit.
     case hit of Some snap \<Rightarrow> ret snap | None \<Rightarrow>
     bind (current_stamp p) (\<lambda>stamp.
     bind (locked (claim_cell hs p stamp)) (\<lambda>claimed.
     case claimed of Inl snap \<Rightarrow> ret snap | Inr cell \<Rightarrow>
     bind (locked (\<lambda>ca. (ca_cells ca ! cell, ca))) (\<lambda>state.
     case state of
       Ready (Inr snap) \<Rightarrow> ret snap
     | Ready (Inl msg) \<Rightarrow> raise (SnIo ''load cached'' p \<lparr>io_kind_of = IoOther, io_text = msg\<rparr>)
     | Pending \<Rightarrow> load_into_cell hs p loader cell)))))"

end
