(* ===== verification/Cache_Steps.thy ===== *)
theory Cache_Steps
  imports Snapshot_Cache
begin

text \<open>
  The cache under all its threads: a step relation of the critical sections, with the history of
  the stored snapshots, and the invariant of the reachable caches.
\<close>

section \<open>The invariant of a shard\<close>

definition shard_sum :: "(cache_key \<times> cache_entry) list \<Rightarrow> nat" where
  "shard_sum m = sum_list (map (\<lambda>(k, e). unat (en_bytes e)) m)"

text \<open>The bytes of a shard without the budget: what holds inside \<open>insert\<close> too.\<close>

definition shard_exact :: "hashing \<Rightarrow> nat \<Rightarrow> shard \<Rightarrow> bool" where
  "shard_exact hs i s \<longleftrightarrow>
     distinct (map fst (sh_map s)) \<and> unat (sh_used s) = shard_sum (sh_map s) \<and>
     (\<forall>(k, e) \<in> set (sh_map s). hs_hash hs k mod SHARD_COUNT = i \<and> en_bytes e = sn_byte_len (en_snapshot e))"

definition shard_ok :: "hashing \<Rightarrow> u64 \<Rightarrow> nat \<Rightarrow> shard \<Rightarrow> bool" where
  "shard_ok hs capacity i s \<longleftrightarrow> shard_exact hs i s \<and> sh_used s \<le> capacity"

definition cache_ok :: "hashing \<Rightarrow> u64 \<Rightarrow> cache \<Rightarrow> bool" where
  "cache_ok hs capacity ca \<longleftrightarrow>
     ca_capacity ca = max capacity 1 \<and> length (ca_shards ca) = SHARD_COUNT \<and>
     (\<forall>i < SHARD_COUNT. shard_ok hs (max capacity 1) i (ca_shards ca ! i))"

lemma shard_sum_simps [simp]:
  "shard_sum [] = 0" "shard_sum ((k, e) # m) = unat (en_bytes e) + shard_sum m"
  by (simp_all add: shard_sum_def)

lemma shard_sum_delete:
  "distinct (map fst m) \<Longrightarrow> map_of m k = Some e \<Longrightarrow>
    shard_sum (AList.delete k m) + unat (en_bytes e) = shard_sum m"
proof (induction m)
  case (Cons p m)
  obtain k' e' where p: "p = (k', e')" by (cases p)
  show ?case
  proof (cases "k' = k")
    case True
    then have "AList.delete k m = m" using Cons.prems(1) p by (auto intro: delete_id)
    then show ?thesis using True Cons.prems p by simp
  next
    case False
    then show ?thesis using Cons p by simp
  qed
qed simp

lemma shard_sum_update:
  "map_of m k = None \<Longrightarrow> shard_sum (AList.update k e m) = shard_sum m + unat (en_bytes e)"
  by (induction m) (auto split: if_splits)

lemma shard_sum_replace:
  "map_of m k = Some e \<Longrightarrow> en_bytes e' = en_bytes e \<Longrightarrow> shard_sum (AList.update k e' m) = shard_sum m"
  by (induction m) (auto split: if_splits)

lemma set_update: "(k', e') \<in> set (AList.update k e m) \<Longrightarrow> (k', e') = (k, e) \<or> (k', e') \<in> set m"
  by (induction m) (auto split: if_splits)

lemma set_delete: "(k', e') \<in> set (AList.delete k m) \<Longrightarrow> (k', e') \<in> set m"
  by (auto simp: AList.delete_eq)

lemma drop_entry_exact:
  assumes "shard_exact hs i s"
  shows "shard_exact hs i (drop_entry key s)" "sh_used (drop_entry key s) \<le> sh_used s"
proof -
  show "shard_exact hs i (drop_entry key s)"
  proof (cases "map_of (sh_map s) key")
    case (Some e)
    then have "shard_sum (AList.delete key (sh_map s)) + unat (en_bytes e) = unat (sh_used s)"
      using assms shard_sum_delete by (simp add: shard_exact_def)
    then show ?thesis
      using assms Some by (auto simp: shard_exact_def drop_entry_def unat_sat_sub_u64 distinct_delete dest!: set_delete)
  qed (use assms in \<open>simp add: drop_entry_def\<close>)
  show "sh_used (drop_entry key s) \<le> sh_used s"
    by (auto simp: drop_entry_def word_le_nat_alt unat_sat_sub_u64 split: option.splits)
qed

lemma drop_entry_fields [simp]:
  "map_of (sh_map (drop_entry key s)) = (map_of (sh_map s))(key := None)"
  "sh_inflight (drop_entry key s) = sh_inflight s"
  by (auto simp: drop_entry_def delete_conv fun_eq_iff split: option.splits)

lemma evict_exact: "shard_exact hs' i s \<Longrightarrow> shard_exact hs' i (evict hs capacity bytes s)"
proof (induction hs capacity bytes s rule: evict.induct)
  case (1 hs capacity bytes s)
  then show ?case by (subst evict.simps) (simp add: drop_entry_exact)
qed

lemma evict_room:
  "shard_exact hs' i s \<Longrightarrow> bytes \<le> capacity \<Longrightarrow> sat_add_u64 (sh_used (evict hs capacity bytes s)) bytes \<le> capacity"
proof (induction hs capacity bytes s rule: evict.induct)
  case (1 hs capacity bytes s)
  show ?case
  proof (cases "sat_add_u64 (sh_used s) bytes > capacity \<and> sh_map s \<noteq> []")
    case True
    then show ?thesis using 1 by (subst evict.simps) (simp add: drop_entry_exact)
  next
    case False
    have "sat_add_u64 (sh_used s) bytes \<le> capacity"
    proof (cases "sh_map s = []")
      case True
      then have "sat_add_u64 (sh_used s) bytes = bytes"
        using 1(2) by (simp add: shard_exact_def unat_eq_0 sat_add_u64_def)
      then show ?thesis using 1(3) by simp
    qed (use False in auto)
    then show ?thesis using False by (subst evict.simps) (auto simp: not_less)
  qed
qed

lemma evict_fields:
  "map_of (sh_map (evict hs capacity bytes s)) k \<in> {None, map_of (sh_map s) k}"
  "sh_inflight (evict hs capacity bytes s) = sh_inflight s"
proof -
  have "map_of (sh_map (evict hs capacity bytes s)) k \<in> {None, map_of (sh_map s) k} \<and>
      sh_inflight (evict hs capacity bytes s) = sh_inflight s"
  proof (induction hs capacity bytes s rule: evict.induct)
    case (1 hs capacity bytes s)
    then show ?case by (subst (1 2) evict.simps) (auto split: if_splits)
  qed
  then show "map_of (sh_map (evict hs capacity bytes s)) k \<in> {None, map_of (sh_map s) k}"
    "sh_inflight (evict hs capacity bytes s) = sh_inflight s" by simp_all
qed

lemma insert_entry_ok:
  assumes s: "shard_exact hs i s" and k: "hs_hash hs key mod SHARD_COUNT = i" and b: "sn_byte_len snap \<le> capacity"
    and proper: "unat capacity < usize_max"
  shows "shard_ok hs capacity i (insert_entry hs capacity key snap s)"
proof -
  let ?b = "sn_byte_len snap"
  let ?s = "evict hs capacity ?b (drop_entry key s)"
  have ex: "shard_exact hs i ?s" using s by (simp add: drop_entry_exact evict_exact)
  have room: "sat_add_u64 (sh_used ?s) ?b \<le> capacity"
    using evict_room [OF drop_entry_exact(1) [OF s] b] .
  have none: "map_of (sh_map ?s) key = None"
    using evict_fields(1) [of hs capacity ?b "drop_entry key s" key] by simp
  have "unat (sat_add_u64 (sh_used ?s) ?b) \<le> unat capacity" using room by (simp add: word_le_nat_alt)
  then have "unat (sat_add_u64 (sh_used ?s) ?b) = unat (sh_used ?s) + unat ?b"
    using proper by (simp add: unat_sat_add_u64)
  then show ?thesis
    using ex k none room
    by (auto simp: shard_ok_def shard_exact_def insert_entry_def Let_def shard_sum_update distinct_update dest!: set_update)
qed


section \<open>The steps\<close>

text \<open>
  The caches a process can reach, with the history of what was stored, the latest first.  Each
  rule is one critical section of some thread; a snapshot above the capacity is not stored.
\<close>

inductive cache_reach :: "hashing \<Rightarrow> u64 \<Rightarrow> (cache_key \<times> snapshot) list \<Rightarrow> cache \<Rightarrow> bool"
  for hs capacity where
  reach_new: "cache_reach hs capacity [] (with_capacity capacity)"
| reach_insert: "cache_reach hs capacity h ca \<Longrightarrow> sn_byte_len snap \<le> ca_capacity ca \<Longrightarrow>
    cache_reach hs capacity ((path_components p, snap) # h) (cache_insert hs p snap ca)"
| reach_refresh: "cache_reach hs capacity h ca \<Longrightarrow> cache_reach hs capacity h (refresh_entry hs p entry_stamp after ca)"
| reach_claim: "cache_reach hs capacity h ca \<Longrightarrow> cache_reach hs capacity h (snd (claim_cell hs p stamp ca))"
| reach_settle: "cache_reach hs capacity h ca \<Longrightarrow> cache_reach hs capacity h (set_cell cell state ca)"
| reach_clear: "cache_reach hs capacity h ca \<Longrightarrow> cache_reach hs capacity h (clear_inflight hs p ca)"
| reach_invalidate: "cache_reach hs capacity h ca \<Longrightarrow> cache_reach hs capacity h (cache_invalidate hs p ca)"

text \<open>Every critical section changes at most the shard of its path.\<close>

lemma shard_index_less [simp]: "shard_index hs p < SHARD_COUNT"
  by (simp add: shard_index_def SHARD_COUNT_def)

lemma set_shard_ok:
  "cache_ok hs capacity ca \<Longrightarrow> shard_ok hs (max capacity 1) (shard_index hs p) s \<Longrightarrow>
    cache_ok hs capacity (set_shard hs p s ca)"
  by (auto simp: cache_ok_def set_shard_def nth_list_update)

lemma shard_of_ok: "cache_ok hs capacity ca \<Longrightarrow> shard_ok hs (max capacity 1) (shard_index hs p) (shard_of hs p ca)"
  by (simp add: cache_ok_def shard_of_def)

lemma cache_ok_cells [simp]: "cache_ok hs capacity (ca\<lparr>ca_cells := cells\<rparr>) = cache_ok hs capacity ca"
  by (simp add: cache_ok_def)

lemma shard_ok_inflight [simp]: "shard_ok hs capacity i (s\<lparr>sh_inflight := f\<rparr>) = shard_ok hs capacity i s"
  by (simp add: shard_ok_def shard_exact_def)

lemma drop_entry_ok: "shard_ok hs capacity i s \<Longrightarrow> shard_ok hs capacity i (drop_entry key s)"
  unfolding shard_ok_def using drop_entry_exact order_trans by blast

lemma with_capacity_ok: "cache_ok hs capacity (with_capacity capacity)"
  by (simp add: cache_ok_def with_capacity_def shard_ok_def shard_exact_def shard_default_def)

lemma cache_insert_ok:
  assumes "cache_ok hs capacity ca" "unat (max capacity 1) < usize_max"
  shows "cache_ok hs capacity (cache_insert hs p snap ca)"
proof (cases "sn_byte_len snap > ca_capacity ca")
  case False
  have cap: "ca_capacity ca = max capacity 1" using assms(1) by (simp add: cache_ok_def)
  have "shard_ok hs (max capacity 1) (shard_index hs p)
      (insert_entry hs (max capacity 1) (path_components p) snap (shard_of hs p ca))"
  proof (rule insert_entry_ok)
    show "shard_exact hs (shard_index hs p) (shard_of hs p ca)"
      using shard_of_ok [OF assms(1)] by (simp add: shard_ok_def)
    show "sn_byte_len snap \<le> max capacity 1" using False unfolding cap by (simp only: not_less)
  qed (use assms(2) in \<open>simp_all add: shard_index_def\<close>)
  then show ?thesis unfolding cache_insert_def if_not_P [OF False [unfolded cap]] cap by (rule set_shard_ok [OF assms(1)])
qed (use assms in \<open>simp add: cache_insert_def\<close>)

lemma resident_in: "resident hs p ca = Some e \<Longrightarrow> (path_components p, e) \<in> set (sh_map (shard_of hs p ca))"
  by (simp add: resident_def map_of_SomeD)

lemma refresh_ok:
  assumes "cache_ok hs capacity ca"
  shows "cache_ok hs capacity (refresh_entry hs p entry_stamp after ca)"
proof (cases "resident hs p ca")
  case (Some e)
  let ?s = "shard_of hs p ca"
  have s: "shard_ok hs (max capacity 1) (shard_index hs p) ?s" by (rule shard_of_ok [OF assms])
  have "shard_ok hs (max capacity 1) (shard_index hs p)
      (?s\<lparr>sh_map := AList.update (path_components p) (e\<lparr>en_stamp := Some after\<rparr>) (sh_map ?s)\<rparr>)"
    using s Some resident_in [OF Some]
    by (auto simp: shard_ok_def shard_exact_def distinct_update shard_sum_replace resident_def dest!: set_update)
  then show ?thesis using Some assms by (simp add: refresh_entry_def Let_def set_shard_ok)
qed (use assms in \<open>simp add: refresh_entry_def\<close>)

lemma join_flight_ok: "cache_ok hs capacity ca \<Longrightarrow> cache_ok hs capacity (snd (join_flight hs p ca))"
  by (simp add: join_flight_def Let_def set_shard_ok shard_of_ok split: option.splits)

lemma snd_claim_cell:
  "snd (claim_cell hs p stamp ca) =
    (case resident hs p ca of
       Some e \<Rightarrow> if entry_fits stamp e then ca
         else snd (join_flight hs p (set_shard hs p (drop_entry (path_components p) (shard_of hs p ca)) ca))
     | None \<Rightarrow> snd (join_flight hs p ca))"
  by (simp add: claim_cell_def split_beta Let_def split: option.split)

lemma claim_ok: "cache_ok hs capacity ca \<Longrightarrow> cache_ok hs capacity (snd (claim_cell hs p stamp ca))"
  by (simp add: snd_claim_cell set_shard_ok drop_entry_ok shard_of_ok join_flight_ok split: option.split)

lemma reach_ok:
  assumes "unat (max capacity 1) < usize_max"
  shows "cache_reach hs capacity h ca \<Longrightarrow> cache_ok hs capacity ca"
proof (induction rule: cache_reach.induct)
  case (reach_clear h ca p)
  then show ?case by (simp add: clear_inflight_def Let_def set_shard_ok shard_of_ok)
next
  case (reach_invalidate h ca p)
  then show ?case by (simp add: cache_invalidate_def Let_def set_shard_ok shard_of_ok drop_entry_ok)
qed (use assms in \<open>simp_all add: with_capacity_ok cache_insert_ok refresh_ok claim_ok set_cell_def\<close>)


section \<open>The history\<close>

definition recorded :: "hashing \<Rightarrow> (cache_key \<times> snapshot) list \<Rightarrow> cache \<Rightarrow> bool" where
  "recorded hs h ca \<longleftrightarrow>
     (\<forall>p e. resident hs p ca = Some e \<longrightarrow> map_of h (path_components p) = Some (en_snapshot e))"

lemma resident_set_shard:
  "length (ca_shards ca) = SHARD_COUNT \<Longrightarrow> resident hs q (set_shard hs p s ca) =
    (if shard_index hs q = shard_index hs p then map_of (sh_map s) (path_components q) else resident hs q ca)"
  by (simp add: resident_def set_shard_def shard_of_def)

lemma cache_ok_length: "cache_ok hs capacity ca \<Longrightarrow> length (ca_shards ca) = SHARD_COUNT"
  by (simp add: cache_ok_def)

lemma resident_cells [simp]: "resident hs p (ca\<lparr>ca_cells := cells\<rparr>) = resident hs p ca"
  by (simp add: resident_def shard_of_def)

lemma resident_insert:
  assumes "length (ca_shards ca) = SHARD_COUNT" "sn_byte_len snap \<le> ca_capacity ca"
  shows "resident hs q (cache_insert hs p snap ca) \<in>
    (if path_components q = path_components p
     then {Some \<lparr>en_snapshot = snap, en_bytes = sn_byte_len snap, en_stamp = sn_stamp snap\<rparr>}
     else {None, resident hs q ca})"
proof -
  let ?s = "evict hs (ca_capacity ca) (sn_byte_len snap) (drop_entry (path_components p) (shard_of hs p ca))"
  have "map_of (sh_map ?s) (path_components q) \<in> {None, map_of (sh_map (drop_entry (path_components p) (shard_of hs p ca))) (path_components q)}"
    by (rule evict_fields)
  moreover have "shard_of hs q ca = shard_of hs p ca" if "shard_index hs q = shard_index hs p"
    using that by (simp add: shard_of_def)
  moreover have "shard_index hs q = shard_index hs p" if "path_components q = path_components p"
    using that by (simp add: shard_index_def)
  moreover have "resident hs q (cache_insert hs p snap ca) = (if shard_index hs q = shard_index hs p
      then ((map_of (sh_map ?s))(path_components p \<mapsto> \<lparr>en_snapshot = snap, en_bytes = sn_byte_len snap, en_stamp = sn_stamp snap\<rparr>)) (path_components q)
      else resident hs q ca)"
    using assms(2) by (simp add: cache_insert_def insert_entry_def Let_def resident_set_shard [OF assms(1)] update_conv' leD)
  ultimately show ?thesis by (auto simp: resident_def [of hs q ca])
qed

lemma resident_drop:
  assumes "length (ca_shards ca) = SHARD_COUNT"
  shows "resident hs q (set_shard hs p (drop_entry (path_components p) (shard_of hs p ca)) ca) =
    (if path_components q = path_components p then None else resident hs q ca)"
  unfolding resident_set_shard [OF assms] by (auto simp: resident_def shard_of_def shard_index_def)

lemma resident_inflight:
  assumes "length (ca_shards ca) = SHARD_COUNT" "sh_map s = sh_map (shard_of hs p ca)"
  shows "resident hs q (set_shard hs p s ca) = resident hs q ca"
  unfolding resident_set_shard [OF assms(1)] assms(2) by (auto simp: resident_def shard_of_def)

lemma resident_join:
  "length (ca_shards ca) = SHARD_COUNT \<Longrightarrow> resident hs q (snd (join_flight hs p ca)) = resident hs q ca"
  by (simp add: join_flight_def Let_def resident_inflight split: option.split)

lemma length_set_shard [simp]: "length (ca_shards (set_shard hs p s ca)) = length (ca_shards ca)"
  by (simp add: set_shard_def)

lemma resident_claim:
  "length (ca_shards ca) = SHARD_COUNT \<Longrightarrow> resident hs q (snd (claim_cell hs p stamp ca)) \<in> {None, resident hs q ca}"
  by (auto simp: snd_claim_cell resident_join resident_drop split: option.split)

lemma resident_refresh:
  assumes "length (ca_shards ca) = SHARD_COUNT"
  shows "map_option en_snapshot (resident hs q (refresh_entry hs p entry_stamp after ca)) = map_option en_snapshot (resident hs q ca)"
proof (cases "resident hs p ca")
  case (Some e)
  then have "map_option en_snapshot (resident hs q ca) = Some (en_snapshot e)" if "path_components q = path_components p"
    using that by (simp add: resident_def shard_of_def shard_index_def)
  then show ?thesis
    using Some unfolding refresh_entry_def Let_def
    by (simp add: resident_set_shard [OF assms] update_conv') (auto simp: resident_def shard_of_def)
qed (simp add: refresh_entry_def)

lemma resident_invalidate:
  "length (ca_shards ca) = SHARD_COUNT \<Longrightarrow> resident hs q (cache_invalidate hs p ca) \<in> {None, resident hs q ca}"
  unfolding cache_invalidate_def Let_def by (simp add: resident_set_shard) (auto simp: resident_def shard_of_def)

lemma recorded_less:
  assumes "recorded hs h ca" "\<And>q. map_option en_snapshot (resident hs q ca') \<in> {None, map_option en_snapshot (resident hs q ca)}"
  shows "recorded hs h ca'"
  unfolding recorded_def
proof (intro allI impI)
  fix p e assume "resident hs p ca' = Some e"
  then have "map_option en_snapshot (resident hs p ca) = Some (en_snapshot e)" using assms(2) [of p] by auto
  then show "map_of h (path_components p) = Some (en_snapshot e)" using assms(1) by (auto simp: recorded_def)
qed

lemma forget_snapshot: "r \<in> {None, r'} \<Longrightarrow> map_option en_snapshot r \<in> {None, map_option en_snapshot r'}"
  by auto

lemma resident_new [simp]: "resident hs p (with_capacity capacity) = None"
  by (simp add: resident_def shard_of_def with_capacity_def shard_default_def)

lemma reach_recorded:
  assumes "unat (max capacity 1) < usize_max"
  shows "cache_reach hs capacity h ca \<Longrightarrow> recorded hs h ca"
proof (induction rule: cache_reach.induct)
  case reach_new
  show ?case by (simp add: recorded_def)
next
  case (reach_insert h ca snap p)
  note len = cache_ok_length [OF reach_ok [OF assms reach_insert(1)]]
  show ?case
    unfolding recorded_def
  proof (intro allI impI)
    fix q e assume "resident hs q (cache_insert hs p snap ca) = Some e"
    then show "map_of ((path_components p, snap) # h) (path_components q) = Some (en_snapshot e)"
      using resident_insert [OF len reach_insert(2), of hs q p] reach_insert(3)
      by (auto simp: recorded_def split: if_splits)
  qed
next
  case (reach_refresh h ca p entry_stamp after)
  then show ?case
    by (elim recorded_less) (simp add: resident_refresh cache_ok_length [OF reach_ok [OF assms reach_refresh(1)]])
next
  case (reach_claim h ca p stamp)
  then show ?case
    by (elim recorded_less) (rule forget_snapshot [OF resident_claim [OF cache_ok_length [OF reach_ok [OF assms reach_claim(1)]]]])
next
  case (reach_settle h ca cell state)
  then show ?case by (elim recorded_less) (simp add: set_cell_def)
next
  case (reach_clear h ca p)
  then show ?case
    by (elim recorded_less)
      (simp add: clear_inflight_def Let_def resident_inflight cache_ok_length [OF reach_ok [OF assms reach_clear(1)]])
next
  case (reach_invalidate h ca p)
  then show ?case
    by (elim recorded_less) (rule forget_snapshot [OF resident_invalidate [OF cache_ok_length [OF reach_ok [OF assms reach_invalidate(1)]]]])
qed

text \<open>The sum over the shards.\<close>

lemma unat_sum_list: "(\<Sum>w\<leftarrow>ws. unat (w :: u64)) < 2 ^ 64 \<Longrightarrow> unat (sum_list ws) = (\<Sum>w\<leftarrow>ws. unat w)"
  by (induction ws) (simp_all add: unat_word_ariths)

lemma sum_list_bound: "\<forall>w \<in> set ws. f w \<le> (c :: nat) \<Longrightarrow> (\<Sum>w\<leftarrow>ws. f w) \<le> length ws * c"
  by (induction ws) auto

lemma used_bytes_bound:
  assumes "cache_ok hs capacity ca" "unat (max capacity 1) < 2 ^ 61"
  shows "unat (used_bytes ca) = (\<Sum>s\<leftarrow>ca_shards ca. shard_sum (sh_map s))"
    and "unat (used_bytes ca) \<le> SHARD_COUNT * unat (max capacity 1)"
proof -
  have "unat (sh_used s) = shard_sum (sh_map s) \<and> unat (sh_used s) \<le> unat (max capacity 1)"
    if "i < SHARD_COUNT" "s = ca_shards ca ! i" for i s
    using assms(1) that unfolding cache_ok_def shard_ok_def shard_exact_def word_le_nat_alt by blast
  then have bound: "\<forall>s \<in> set (ca_shards ca). unat (sh_used s) \<le> unat (max capacity 1) \<and> unat (sh_used s) = shard_sum (sh_map s)"
    using cache_ok_length [OF assms(1)] by (metis in_set_conv_nth)
  then have "\<forall>s \<in> set (ca_shards ca). unat (sh_used s) \<le> unat (max capacity 1)" by blast
  from sum_list_bound [OF this] have total: "(\<Sum>s\<leftarrow>ca_shards ca. unat (sh_used s)) \<le> SHARD_COUNT * unat (max capacity 1)"
    by (simp only: cache_ok_length [OF assms(1)])
  then have "unat (used_bytes ca) = (\<Sum>s\<leftarrow>ca_shards ca. unat (sh_used s))"
    using assms(2) unat_sum_list [of "map sh_used (ca_shards ca)"] by (simp add: used_bytes_def o_def SHARD_COUNT_def)
  moreover have "(\<Sum>s\<leftarrow>ca_shards ca. unat (sh_used s)) = (\<Sum>s\<leftarrow>ca_shards ca. shard_sum (sh_map s))"
    using bound by (intro arg_cong [of _ _ sum_list] map_cong refl) simp
  ultimately show "unat (used_bytes ca) = (\<Sum>s\<leftarrow>ca_shards ca. shard_sum (sh_map s))"
    "unat (used_bytes ca) \<le> SHARD_COUNT * unat (max capacity 1)"
    using total by simp_all
qed

section \<open>The operations of a thread are such steps\<close>

abbreviation shared :: "'z process_scheme \<Rightarrow> cache \<times> turn list" where
  "shared w \<equiv> (pr_cache w, pr_turns w)"

lemma outside_shared [simp]: "outside_files shared"
  by (simp add: outside_files_def)

definition turn_ok :: "hashing \<Rightarrow> u64 \<Rightarrow> turn \<Rightarrow> bool" where
  "turn_ok hs capacity t \<longleftrightarrow>
     (\<forall>f now h ca. cache_reach hs capacity h ca \<longrightarrow> (\<exists>new. cache_reach hs capacity (new @ h) (t f now ca)))"

definition in_reach :: "hashing \<Rightarrow> u64 \<Rightarrow> (cache_key \<times> snapshot) list \<Rightarrow> 'z process_scheme \<Rightarrow> bool" where
  "in_reach hs capacity h w \<longleftrightarrow>
     (\<exists>new. cache_reach hs capacity (new @ h) (pr_cache w)) \<and> (\<forall>t \<in> set (pr_turns w). turn_ok hs capacity t)"

lemma preserves_outside: "keeps shared m \<Longrightarrow> preserves (in_reach hs capacity h) m"
  by (simp add: preserves_def keeps_def in_reach_def)

lemma preserves_locked [preserves_rules]:
  assumes "\<And>h ca. cache_reach hs capacity h ca \<Longrightarrow> \<exists>new. cache_reach hs capacity (new @ h) (snd (act ca))"
  shows "preserves (in_reach hs capacity h) (locked act)"
  unfolding preserves_def
proof (intro allI impI)
  fix w :: "'z process_scheme"
  assume w: "in_reach hs capacity h w"
  then obtain new where "cache_reach hs capacity (new @ h) (pr_cache w)" by (auto simp: in_reach_def)
  then have "\<exists>new. cache_reach hs capacity (new @ h) (others_turn w)"
    using w unfolding others_turn_def by (cases "pr_turns w") (auto simp: in_reach_def turn_ok_def, metis append_assoc)
  then obtain new' where "cache_reach hs capacity (new' @ h) (others_turn w)" by blast
  from assms [OF this] obtain new'' where "cache_reach hs capacity ((new'' @ new') @ h) (snd (act (others_turn w)))" by auto
  then have "\<exists>new. cache_reach hs capacity (new @ h) (snd (act (others_turn w)))" by blast
  then show "in_reach hs capacity h (snd (locked act w))"
    using w unfolding locked_def in_reach_def split_beta Let_def by (cases "pr_turns w") auto
qed

lemma preserves_holding [preserves_rules]:
  "preserves (in_reach hs capacity h) (holding (set_cell cell state))"
  by (auto simp: preserves_def holding_def in_reach_def intro: reach_settle)


lemma reach_same: "cache_reach hs capacity h ca \<Longrightarrow> \<exists>new. cache_reach hs capacity (new @ h) ca"
  by (rule exI [of _ "[]"]) simp

lemma reach_any_insert: "cache_reach hs capacity h ca \<Longrightarrow> \<exists>new. cache_reach hs capacity (new @ h) (cache_insert hs p snap ca)"
proof (cases "sn_byte_len snap \<le> ca_capacity ca")
  case True
  assume "cache_reach hs capacity h ca"
  from reach_insert [OF this True] show ?thesis by (intro exI [of _ "[(path_components p, snap)]"]) simp
qed (simp add: cache_insert_def reach_same)

lemma preserves_sections [preserves_rules]:
  "preserves (in_reach hs capacity h) (locked (\<lambda>ca. (f ca, ca)))"
  "preserves (in_reach hs capacity h) (locked (\<lambda>ca. ((), refresh_entry hs p entry_stamp after ca)))"
  "preserves (in_reach hs capacity h) (locked (claim_cell hs p stamp))"
  "preserves (in_reach hs capacity h) (locked (\<lambda>ca. ((), cache_insert hs p snap ca)))"
  "preserves (in_reach hs capacity h) (locked (\<lambda>ca. ((), clear_inflight hs p ca)))"
  by (rule preserves_locked, simp add: reach_same reach_any_insert
      reach_same [OF reach_refresh] reach_same [OF reach_claim] reach_same [OF reach_clear])+

lemma keeps_current_stamp [keeps_rules]: "outside_files g \<Longrightarrow> keeps g (current_stamp p)"
  unfolding current_stamp_def by (intro keeps_rules)

lemma keeps_read_all [keeps_rules]:
  assumes "outside_files g"
  shows "keeps g (read_all i limit acc)"
  unfolding keeps_def
proof
  fix w
  show "g (snd (read_all i limit acc w)) = g w"
  proof (induction i limit acc w rule: read_all.induct)
    case (1 i limit acc w)
    let ?room = "case limit of None \<Rightarrow> usize_max | Some n \<Rightarrow> n - length acc"
    obtain q w1 where q: "sys_read i (length acc) ?room w = (q, w1)" by (metis surj_pair)
    have "keeps g (sys_read i (length acc) ?room)" using assms by (rule keeps_calls)
    then have "g w1 = g w" using q by (auto simp: keeps_def dest: spec [of _ w])
    then show ?case
      using 1 q by (subst read_all.simps) (auto simp: Let_def split: sum.splits)
  qed
qed

lemma keeps_read_verified [keeps_rules]: "outside_files g \<Longrightarrow> keeps g (read_verified p stamp)"
  unfolding read_verified_def by (intro keeps_rules | simp add: keeps_rules)+

lemma preserves_verify [preserves_rules]: "preserves (in_reach hs capacity h) (verify_racy_resident hs p)"
proof -
  have "preserves (in_reach hs capacity h) (read_verified p stamp)" for stamp
    by (intro preserves_outside keeps_read_verified outside_shared)
  then show ?thesis
    unfolding verify_racy_resident_def by (auto intro!: preserves_rules split: option.split)
qed

lemma preserves_hit [preserves_rules]: "preserves (in_reach hs capacity h) (stamped_hit hs p)"
  unfolding stamped_hit_def
proof (rule preserves_bind)
  show "preserves (in_reach hs capacity h) (current_stamp p)"
    by (intro preserves_outside keeps_current_stamp outside_shared)
qed (auto intro!: preserves_rules split: option.split)

lemma preserves_get_or_load:
  assumes "keeps shared loader"
  shows "preserves (in_reach hs capacity h) (get_or_load hs p loader)"
proof -
  have "preserves (in_reach hs capacity h) (load_into_cell hs p loader cell)" for cell
    unfolding load_into_cell_def using preserves_outside [OF assms] by (auto intro!: preserves_rules)
  moreover have "preserves (in_reach hs capacity h) (current_stamp p)"
    by (intro preserves_outside keeps_current_stamp outside_shared)
  ultimately show ?thesis
    unfolding get_or_load_def
    by (auto intro!: preserves_rules split: option.split sum.split inflight_state.split)
qed

section \<open>Properties\<close>

text \<open>
  Property C15.  The budget of the cache, whatever the other threads do between the locks of a
  \<open>get_or_load\<close>: after it the cache is still one that its critical sections reach, every shard
  accounts exactly for its entries, and the bytes in use are at most the capacity for each of the
  eight shards.
\<close>

theorem cache_budget:
  assumes "cache_reach hs capacity h (pr_cache w)" "\<forall>t \<in> set (pr_turns w). turn_ok hs capacity t"
    and "keeps shared loader" "unat (max capacity 1) < 2 ^ 61"
    and "get_or_load hs p loader w = (r, w')"
  shows "(\<exists>new. cache_reach hs capacity (new @ h) (pr_cache w')) \<and>
     (\<forall>s \<in> set (ca_shards (pr_cache w')). unat (sh_used s) = shard_sum (sh_map s) \<and> sh_used s \<le> max capacity 1) \<and>
     unat (used_bytes (pr_cache w')) \<le> SHARD_COUNT * unat (max capacity 1)"
proof -
  have "in_reach hs capacity h w" using assms(1,2) reach_same by (auto simp: in_reach_def)
  then have "in_reach hs capacity h w'"
    using preserves_get_or_load [OF assms(3), of hs capacity h p] assms(5) by (metis preserves_def snd_conv)
  then obtain new where reach: "cache_reach hs capacity (new @ h) (pr_cache w')" by (auto simp: in_reach_def)
  have "unat (max capacity 1) < usize_max" using assms(4) by (simp add: usize_max_def)
  then have ok: "cache_ok hs capacity (pr_cache w')" using reach by (rule reach_ok)
  then have "\<forall>s \<in> set (ca_shards (pr_cache w')). unat (sh_used s) = shard_sum (sh_map s) \<and> sh_used s \<le> max capacity 1"
    by (auto simp: in_set_conv_nth cache_ok_def shard_ok_def shard_exact_def)
  then show ?thesis using reach used_bytes_bound(2) [OF ok assms(4)] by blast
qed

text \<open>A cache of two bytes per shard, a process on it, and a hash that is the depth of a path.\<close>

definition depth_hashing :: hashing where
  "depth_hashing = \<lparr>hs_hash = \<lambda>k. length k - 2, hs_first = \<lambda>ks. 0\<rparr>"

definition small_process :: "cache \<Rightarrow> process" where
  "small_process ca = world.extend (small_world ''ab'' 1000000000 9000000000 []) \<lparr>pr_cache = ca, pr_turns = []\<rparr>"

definition two_letters :: snapshot where
  "two_letters = fresh_snapshot plain_externs ''ab'' None"

lemma path_f_f: "path_components ''/f/f'' = [RootDir, Normal ''f'', Normal ''f'']"
  by code_simp

lemma new_shards: "ca_shards (with_capacity capacity) = [shard_default, shard_default, shard_default, shard_default,
    shard_default, shard_default, shard_default, shard_default]"
  by (simp add: with_capacity_def SHARD_COUNT_def numeral_eq_Suc)

lemma depth_index: "shard_index depth_hashing ''/f'' = 0" "shard_index depth_hashing ''/f/f'' = 1"
  by (simp_all add: shard_index_def depth_hashing_def path_f path_f_f SHARD_COUNT_def)

lemmas cache_defs = cache_insert_def insert_entry_def drop_entry_def evict.simps set_shard_def shard_of_def resident_def
  cache_get_def shard_default_def sat_add_u64_def usize_max_def stamp_opt_eq_def stamp_racy_opt_def

lemma two_shards_full:
  "used_bytes (cache_insert depth_hashing ''/f/f'' two_letters
     (cache_insert depth_hashing ''/f'' two_letters (with_capacity 2))) = 4"
proof -
  have "sn_byte_len two_letters = 2" by (simp add: two_letters_def fresh_snapshot_def)
  moreover have "ca_capacity (with_capacity 2) = 2" by (simp add: with_capacity_def)
  ultimately show ?thesis
    by (simp add: cache_defs depth_index new_shards path_f path_f_f used_bytes_def Let_def)
qed

theorem cache_budget_witness:
  "\<exists>r w'. get_or_load depth_hashing ''/f'' (raise (SnConcurrent ''/f'')) (small_process (with_capacity 2)) = (r, w') \<and>
     unat (used_bytes (pr_cache w')) \<le> SHARD_COUNT * 2"
proof -
  let ?w = "small_process (with_capacity 2)"
  let ?run = "get_or_load depth_hashing ''/f'' (raise (SnConcurrent ''/f'')) ?w"
  obtain r w' where run: "?run = (r, w')" by (cases ?run)
  have "cache_reach depth_hashing 2 [] (pr_cache ?w)" "\<forall>t \<in> set (pr_turns ?w). turn_ok depth_hashing 2 t"
    by (simp_all add: small_process_def world.defs reach_new)
  moreover have "keeps shared (raise (SnConcurrent ''/f'') :: (process, snapshot_error, snapshot) comp)"
    by (rule keeps_basic)
  ultimately have "unat (used_bytes (pr_cache w')) \<le> SHARD_COUNT * unat (max (2 :: u64) 1)"
    using cache_budget [OF _ _ _ _ run, of 2 "[]"] by simp
  then have "unat (used_bytes (pr_cache w')) \<le> SHARD_COUNT * 2" by simp
  then show ?thesis using run by blast
qed

text \<open>
  The cache invents nothing: after any sequence of critical sections (insertions with
  their evictions, refreshed stamps, claims, settled and cleared loads, invalidations) in any order,
  a lookup answers with the snapshot that was stored last under the path, and only when the stamp
  the caller saw equals the stamp of the entry and that is not racy.
\<close>

theorem cache_serves_last_stored:
  assumes "cache_reach hs capacity h ca" "unat (max capacity 1) < usize_max"
    and "cache_get hs p (Some stamp) ca = Some snap"
  shows "map_of h (path_components p) = Some snap \<and>
     (\<exists>e. resident hs p ca = Some e \<and> (\<exists>s. en_stamp e = Some s \<and> stamp_eq s stamp \<and> \<not> fs_racy s))"
  using assms(3) reach_recorded [OF assms(2,1)]
  by (auto simp: cache_get_def recorded_def stamp_opt_eq_Some stamp_racy_opt_def split: option.splits if_splits)

definition calm_stamp :: file_stamp where
  "calm_stamp = \<lparr>fs_identity = \<lparr>fi_device = 1, fi_inode = 1\<rparr>, fs_len = 2,
     fs_modified = \<lparr>ft_seconds = 0, ft_nanoseconds = 0\<rparr>, fs_changed = Some \<lparr>ft_seconds = 0, ft_nanoseconds = 0\<rparr>,
     fs_racy = False\<rparr>"

theorem cache_serves_last_stored_witness:
  "let snap = with_stamp calm_stamp two_letters; ca = cache_insert depth_hashing ''/f'' snap (with_capacity 2) in
   cache_get depth_hashing ''/f'' (Some calm_stamp) ca = Some snap \<and>
   map_of [(path_components ''/f'', snap)] (path_components ''/f'') = Some snap"
proof -
  let ?snap = "with_stamp calm_stamp two_letters" and ?new = "with_capacity 2"
  have size: "sn_byte_len ?snap = 2" by (simp add: with_stamp_def two_letters_def fresh_snapshot_def)
  have cap: "ca_capacity ?new = 2" by (simp add: with_capacity_def)
  have "sn_byte_len ?snap \<le> ca_capacity ?new" by (simp add: size cap)
  from reach_insert [OF reach_new this]
  have reach: "cache_reach depth_hashing 2 [(path_components ''/f'', ?snap)] (cache_insert depth_hashing ''/f'' ?snap ?new)" .
  have "sn_stamp ?snap = Some calm_stamp" by (simp add: with_stamp_def)
  with size cap have hit: "cache_get depth_hashing ''/f'' (Some calm_stamp) (cache_insert depth_hashing ''/f'' ?snap ?new) = Some ?snap"
    by (simp add: cache_defs depth_index new_shards path_f Let_def) (simp add: calm_stamp_def)
  from cache_serves_last_stored [OF reach _ hit] show ?thesis using hit by (simp add: usize_max_def Let_def)
qed

end
