(* ===== verification/Edit_Tool.thy ===== *)
theory Edit_Tool
  imports Cache_Steps
begin

text \<open>
  The \<open>edit\<close> tool (\<open>src/edit/mod.rs\<close>): load the named file, apply the batch, persist the result
  against the stamp of the load, and put the new snapshot into the cache.
\<close>

section \<open>The code\<close>

definition CONFLICT_MSG :: string where
  "CONFLICT_MSG = ''the file no longer matches the requested snapshot''"

definition edit_success_new :: "string \<Rightarrow> snapshot_id \<Rightarrow> snapshot_id \<Rightarrow> nat \<Rightarrow> u64 \<Rightarrow> u64 \<Rightarrow> edit_success" where
  "edit_success_new path previous snapshot applied bytes lines =
     \<lparr>es_path = path, es_previous = previous, es_snapshot = snapshot, es_applied = applied, es_bytes = bytes,
      es_lines = lines\<rparr>"

text \<open>With a confirmed stamp the new snapshot enters the cache; without one the insert is skipped.\<close>

definition publish_snapshot :: "hashing \<Rightarrow> path \<Rightarrow> file_stamp option \<Rightarrow> snapshot \<Rightarrow> ('z process_scheme, 'e, unit) comp" where
  "publish_snapshot hs p stamp snap =
     (case stamp of
        None \<Rightarrow> ret ()
      | Some stamp \<Rightarrow> locked (\<lambda>ca. ((), cache_insert hs p (with_stamp stamp snap) ca)))"

definition publish ::
    "hashing \<Rightarrow> externs \<Rightarrow> path \<Rightarrow> edit_request \<Rightarrow> snapshot_id \<Rightarrow> bytes \<Rightarrow> file_stamp option \<Rightarrow> durability \<Rightarrow>
     ('z process_scheme, protocol_error fault, edit_success) comp" where
  "publish hs x p input previous applied expected durability =
     (let expected = map_option (\<lambda>stamp. \<lparr>ed_stamp = stamp, ed_content_id = previous\<rparr>) expected in
      bind (with_err (\<lambda>e. Err (persist_protocol_error e)) (atomic_write x p applied expected durability)) (\<lambda>stamp.
      bind (lift (map_err (\<lambda>e. Err (snapshot_protocol_error ''edit'' p e)) (from_validated_bytes x applied))) (\<lambda>new_snapshot.
      let success = edit_success_new (er_path input) previous (sn_id new_snapshot) (length (er_edits input))
        (sn_byte_len new_snapshot) (sn_line_count new_snapshot) in
      bind (publish_snapshot hs p stamp new_snapshot) (\<lambda>_. ret success))))"

text \<open>\<open>reference_context(b"", 1).unwrap_or_default()\<close>\<close>

definition or_default :: "'e fault + 'a list \<Rightarrow> 'f fault + 'a list" where
  "or_default m = (case m of Inr a \<Rightarrow> Inr a | Inl (Err e) \<Rightarrow> Inr [] | Inl Panic \<Rightarrow> Inl Panic)"

definition create_new_file ::
    "hashing \<Rightarrow> externs \<Rightarrow> path \<Rightarrow> edit_request \<Rightarrow> durability \<Rightarrow> ('z process_scheme, protocol_error fault, edit_success) comp" where
  "create_new_file hs x p input durability =
     bind (lift (map_err (\<lambda>e. Err (snapshot_protocol_error ''edit'' p e)) (snapshot_from_bytes x []))) (\<lambda>empty.
     if er_snapshot input \<noteq> sn_id empty then
       bind (lift (as_protocol_error (reference_header (er_path input) (sn_id empty) []))) (\<lambda>header.
       bind (lift (or_default (reference_context [] 1))) (\<lambda>context.
       raise (Err (case protocol_error_conflict (er_snapshot input) header context CONFLICT_MSG of
           Inr e \<Rightarrow> e | Inl c \<Rightarrow> protocol_error_of_contract c))))
     else
       bind (lift (apply_versioned_reference_edits [] (sn_id empty) input)) (\<lambda>applied.
       bind (case path_parent p of
           None \<Rightarrow> ret ()
         | Some parent \<Rightarrow>
             with_err (\<lambda>e. Err (protocol_error_new CodeIo
               (''Failed to create parent directory for '' @ p @ '': '' @ io_text e))) (create_dir_all parent)) (\<lambda>_.
       publish hs x p input (sn_id empty) applied None durability)))"

text \<open>\<open>Err(SnapshotError::Io { source, .. }) if source.kind() == NotFound\<close>\<close>

definition is_missing :: "snapshot_error \<Rightarrow> bool" where
  "is_missing e = (case e of SnIo operation p source \<Rightarrow> io_kind_of source = IoNotFound | _ \<Rightarrow> False)"

definition edit_run_blocking ::
    "hashing \<Rightarrow> externs \<Rightarrow> path \<Rightarrow> edit_request \<Rightarrow> durability \<Rightarrow> ('z process_scheme, protocol_error fault, edit_success) comp" where
  "edit_run_blocking hs x p input durability =
     handle (snapshot_load x p)
       (\<lambda>error. if is_missing error then create_new_file hs x p input durability
                else raise (Err (snapshot_protocol_error ''edit'' p error)))
       (\<lambda>snapshot. bind (lift (fst (apply_edits_fast x input snapshot))) (\<lambda>applied.
          publish hs x p input (sn_id snapshot) applied (sn_stamp snapshot) durability))"

text \<open>
  \<open>spawn_blocking\<close>: a panic of the task is an error of the join, rendered as \<open>join\<close>.  \<open>view\<close> is what
  the file system answers while the path is resolved.
\<close>

definition spawn_blocking ::
    "string \<Rightarrow> string \<Rightarrow> path \<Rightarrow> ('s, protocol_error fault, 'a) comp \<Rightarrow> ('s, protocol_error, 'a) comp" where
  "spawn_blocking join operation p =
     with_err (\<lambda>e. case e of Panic \<Rightarrow> join_protocol_error operation p join | Err e \<Rightarrow> e)"

definition edit_run ::
    "hashing \<Rightarrow> externs \<Rightarrow> string \<Rightarrow> os_view \<Rightarrow> workspace \<Rightarrow> edit_request \<Rightarrow> ('z process_scheme, protocol_error, edit_success) comp" where
  "edit_run hs x join view ws input =
     bind (lift (map_err protocol_error_of_contract (edit_request_validate input))) (\<lambda>_.
     bind (lift (resolve_workspace_path view ws (er_path input))) (\<lambda>p.
     spawn_blocking join ''edit'' p (edit_run_blocking hs x p input (wsp_durability ws))))"

definition run_edit ::
    "hashing \<Rightarrow> externs \<Rightarrow> string \<Rightarrow> os_view \<Rightarrow> (protocol_error \<Rightarrow> string + string) \<Rightarrow> (edit_success \<Rightarrow> string + string) \<Rightarrow>
     workspace \<Rightarrow> edit_request \<Rightarrow> ('z process_scheme, 'e, tool_outcome) comp" where
  "run_edit hs x join view encode encode_success ws input =
     handle (edit_run hs x join view ws input)
       (\<lambda>error. ret (protocol_outcome encode error)) (\<lambda>success. ret (success_outcome encode_success success))"

end
