(* ===== verification/Tool_Logic.thy ===== *)
theory Tool_Logic
  imports Edit_Tool
begin

text \<open>
  What the tools need of the parts they are made of: a load only observes and gives a well-formed
  snapshot, and the log of a tool is the log of its phases.
\<close>

section \<open>Steady programs\<close>

text \<open>A program that keeps every assertion the others keep: it changes no file.\<close>

definition steady :: "('z world_scheme, 'e, 'a) comp \<Rightarrow> bool" where
  "steady m \<longleftrightarrow> (\<forall>h E A. stable E A \<longrightarrow> rg h E A m (\<lambda>_. A))"

named_theorems steady_rules

lemma steadyI: "(\<And>h E A. stable E A \<Longrightarrow> rg h E A m (\<lambda>_. A)) \<Longrightarrow> steady m"
  by (simp add: steady_def)

lemma steadyD: "steady m \<Longrightarrow> stable E A \<Longrightarrow> rg h E A m (\<lambda>_. A)"
  unfolding steady_def by blast

lemma steady_basic [steady_rules]: "steady (ret x)" "steady (raise e)" "steady (lift v)" "steady (stamp_of m)"
  by (auto intro!: steadyI rg_ret rg_raise rg_lift rg_stamp_of)

lemma steady_bind [steady_rules]:
  assumes "steady m" "\<And>x. steady (k x)"
  shows "steady (bind m k)"
proof (rule steadyI)
  fix h E A assume A: "stable E A"
  show "rg h E A (bind m k) (\<lambda>_. A)"
    by (rule rg_bind [where C = "\<lambda>_. A"], rule rg_post [OF steadyD [OF assms(1) A]])
      (auto split: sum.splits intro: steadyD [OF assms(2) A])
qed

lemma steady_handle [steady_rules]:
  assumes "steady m" "\<And>e. steady (g e)" "\<And>x. steady (k x)"
  shows "steady (handle m g k)"
proof (rule steadyI)
  fix h E A assume A: "stable E A"
  show "rg h E A (handle m g k) (\<lambda>_. A)"
    by (rule rg_handle [where C = "\<lambda>_. A" and D = "\<lambda>_. A"], rule rg_post [OF steadyD [OF assms(1) A]])
      (auto split: sum.splits intro: steadyD [OF assms(2) A] steadyD [OF assms(3) A])
qed

lemma steady_with_err [steady_rules]: "steady m \<Longrightarrow> steady (with_err g m)"
  by (rule steadyI, rule rg_with_err) (rule steadyD)

lemma steady_calls [steady_rules]:
  "steady (sys_open p)" "steady (sys_fstat i)" "steady (sys_stat p)" "steady (sys_read i off n)" "steady (sys_sync i)"
  "steady (sys_is_dir p)" "steady (read_all i limit acc)"
  by (rule steadyI, rule rg_post, rule rg_open rg_fstat rg_stat rg_read rg_sync rg_is_dir rg_read_all, assumption, blast)+

lemma steady_read_loop [steady_rules]:
  fixes x :: externs
  shows "steady (read_loop x p i bs capacity)"
proof (rule steadyI, rule rgI)
  fix h E A and w :: "'z world_scheme" and r w'
  assume st: "stable E A" and w: "host_of w = h" "script_ok E (w_now w) (w_script w)" "holds A w"
    "read_loop x p i bs capacity w = (r, w')"
  from w show "host_of w' = h \<and> script_ok E (w_now w') (w_script w') \<and> holds A w'"
  proof (induction x p i bs capacity w rule: read_loop.induct)
    case (1 x p i bs capacity w)
    obtain q w1 where q: "sys_read i (length bs) READ_BUFFER_BYTES w = (q, w1)" by (metis surj_pair)
    note one = rgD [OF rg_read [OF st] 1(3-5) q]
    have A1: "holds A w1" using one(3) by (auto simp: holds_def)
    note run = 1(6) [unfolded read_loop.simps [of x p i bs capacity w], unfolded q, simplified]
    show ?case
    proof (cases q)
      case (Inl e)
      then show ?thesis using run one(1,2) A1 1(1) [OF q [symmetric] Inl _ one(1,2) A1] by (auto split: if_splits)
    next
      case (Inr chunk)
      then show ?thesis
        using run one(1,2) A1 1(2) [OF q [symmetric] Inr _ _ _ _ _ one(1,2) A1]
        by (auto split: if_splits option.splits sum.splits)
    qed
  qed
qed

lemma steady_path_stamp [steady_rules]: "steady (path_stamp p)"
  unfolding path_stamp_def by (auto intro!: steady_rules)

lemma steady_settle [steady_rules]: "steady (settle_candidate x p bytes after)"
  unfolding settle_candidate_def accept_text_def fs_read_def by (auto intro!: steady_rules)

lemma steady_load [steady_rules]: "steady (snapshot_load x p)"
proof -
  have "steady (read_candidate x p :: ('a world_scheme, snapshot_error, (bytes \<times> file_stamp) option) comp)"
    unfolding read_candidate_def by (auto intro!: steady_rules)
  then have "steady (load_attempts x p n :: ('a world_scheme, snapshot_error, snapshot) comp)" for n
    by (induction n) (auto intro!: steady_rules split: option.split)
  then show ?thesis by (simp add: snapshot_load_def)
qed

section \<open>What a load gives\<close>

text \<open>All results of a program satisfy \<open>P\<close>.\<close>

definition yields :: "('a \<Rightarrow> bool) \<Rightarrow> ('s, 'e, 'a) comp \<Rightarrow> bool" where
  "yields P m \<longleftrightarrow> (\<forall>w r w'. m w = (Inr r, w') \<longrightarrow> P r)"

lemma yields_bind: "(\<And>x. yields P (k x)) \<Longrightarrow> yields P (bind m k)"
  unfolding yields_def bind_eq_Inr by blast

lemma yields_handle: "(\<And>e. yields P (g e)) \<Longrightarrow> (\<And>x. yields P (k x)) \<Longrightarrow> yields P (handle m g k)"
  by (auto simp: yields_def handle_def split: prod.splits sum.splits)

lemma yields_basic: "yields P (raise e)" "P x \<Longrightarrow> yields P (ret x)"
  by (auto simp: yields_def raise_def ret_def)

definition text_read :: "(bytes \<times> file_stamp) option \<Rightarrow> bool" where
  "text_read c \<longleftrightarrow> (\<forall>text stamp. c = Some (text, stamp) \<longrightarrow> text_ok text)"

lemma yields_candidate:
  assumes x: "externs_ok x"
  shows "yields text_read (read_candidate x p)"
proof -
  have "text_read (Some (t, stamp))" if "validated_text x bytes = Inr t" for bytes t stamp
    using that by (auto simp: text_read_def validated_text_eq [OF x] validate_text_eq_Inr)
  then have "yields text_read (accept_text x bytes after)" for bytes after
    unfolding accept_text_def yields_def bind_eq_Inr by (auto simp: lift_def ret_def map_err_eq_Inr)
  moreover have "text_read None" by (simp add: text_read_def)
  ultimately have "yields text_read (settle_candidate x p bytes after)" for bytes after
    unfolding settle_candidate_def by (auto intro!: yields_handle yields_basic)
  then show ?thesis
    using \<open>text_read None\<close> unfolding read_candidate_def by (auto intro!: yields_bind yields_basic)
qed

lemma load_fresh:
  assumes x: "externs_ok x" and run: "snapshot_load x p w = (Inr s, w')"
  obtains t stamp where "s = fresh_snapshot x t (Some stamp)" "text_ok t"
proof -
  have "\<exists>text stamp. s = fresh_snapshot x text (Some stamp) \<and> text_ok text"
    if "load_attempts x p n w = (Inr s, w')" for n and w :: "'a world_scheme"
    using that
  proof (induction n arbitrary: w)
    case 0
    then show ?case by (simp add: raise_def)
  next
    case (Suc n)
    then obtain c w1 where c: "read_candidate x p w = (Inr c, w1)"
      and k: "(case c of Some (text, stamp) \<Rightarrow> lift (from_validated_with_stamp x text (Some stamp)) | None \<Rightarrow> load_attempts x p n) w1 = (Inr s, w')"
      by (auto simp: bind_eq_Inr)
    have "text_read c" using yields_candidate [OF x] c unfolding yields_def by blast
    show ?case
    proof (cases c)
      case None
      then show ?thesis using k Suc.IH by simp
    next
      case (Some ts)
      obtain t stamp where ts: "ts = (t, stamp)" by (cases ts)
      then have ok: "text_ok t" using \<open>text_read c\<close> Some by (simp add: text_read_def)
      then have "s = fresh_snapshot x t (Some stamp)"
        using k Some ts from_validated_with_stamp_ok [OF x ok] by (simp add: lift_def)
      then show ?thesis using ok by blast
    qed
  qed
  then show ?thesis using run that unfolding snapshot_load_def by blast
qed

section \<open>Logs of phases\<close>

lemma kept_trans:
  assumes "kept l0 p l1" "kept l1 p l2"
  shows "kept l0 p l2"
proof -
  obtain a b where "l1 = a @ l0" "\<forall>s\<in>set a. content_at (snd s) p = content_at (fst s) p"
    "l2 = b @ l1" "\<forall>s\<in>set b. content_at (snd s) p = content_at (fst s) p"
    using assms by (auto simp: kept_def)
  then show ?thesis unfolding kept_def by (intro exI [of _ "b @ a"]) auto
qed

lemma checked_before:
  assumes "kept l0 p l1" "checked d expected l1 p l"
  shows "checked d expected l0 p l"
  unfolding checked_def
proof (intro allI impI)
  fix e assume "expected = Some e"
  then obtain b s stamp where b: "l = b @ l1" "s \<in> set b" "stamp_at d (fst s) p stamp" "stamp_eq stamp (ed_stamp e)"
    using assms(2) unfolding checked_def by blast
  obtain a where "l1 = a @ l0" using assms(1) by (auto simp: kept_def)
  then show "\<exists>new. l = new @ l0 \<and> (\<exists>s\<in>set new. \<exists>stamp. stamp_at d (fst s) p stamp \<and> stamp_eq stamp (ed_stamp e))"
    using b by (intro exI [of _ "b @ a"]) auto
qed

lemma committed_before: "kept l0 p l1 \<Longrightarrow> committed d e l1 p bytes l \<Longrightarrow> committed d e l0 p bytes l"
proof -
  assume k: "kept l0 p l1" and "committed d e l1 p bytes l"
  then obtain before after f f' where c: "l = after @ (f, f') # before @ l1" "kept l1 p (before @ l1)"
    "checked d e l1 p (before @ l1)" "content_at f' p = Some bytes" "\<forall>s\<in>set after. content_at (snd s) p = content_at (fst s) p"
    unfolding committed_def by blast
  obtain more where "l1 = more @ l0" using k by (auto simp: kept_def)
  then show ?thesis
    unfolding committed_def using c kept_trans [OF k c(2)] checked_before [OF k c(3)]
    by (intro exI [of _ "before @ more"] exI [of _ after] exI [of _ f] exI [of _ f']) simp
qed

lemma created_before: "kept l0 p l1 \<Longrightarrow> created l1 p bytes l \<Longrightarrow> created l0 p bytes l"
proof -
  assume k: "kept l0 p l1" and "created l1 p bytes l"
  then obtain before after f f' where c: "l = after @ (f, f') # before @ l1" "kept l1 p (before @ l1)"
    "content_at f p = None" "content_at f' p = Some bytes" "\<forall>s\<in>set after. content_at (snd s) p = content_at (fst s) p"
    unfolding created_def by blast
  obtain more where "l1 = more @ l0" using k by (auto simp: kept_def)
  then show ?thesis
    unfolding created_def using c kept_trans [OF k c(2)]
    by (intro exI [of _ "before @ more"] exI [of _ after] exI [of _ f] exI [of _ f']) simp
qed

section \<open>The state between two phases\<close>

text \<open>
  What the start of an operation on \<open>p\<close> assumes of the rest of the system, and keeps assuming
  before each phase; \<open>l0\<close> is the log at the start.
\<close>

definition at_rest :: "path \<Rightarrow> (fsys \<times> fsys) list \<Rightarrow> 'z world_scheme \<Rightarrow> bool" where
  "at_rest p l0 w \<longleftrightarrow> fs_ok (w_fs w) \<and> undisturbed p w \<and> kept l0 p (w_log w)"

lemma uncounted_phase:
  assumes rest: "at_rest p l0 w" and run: "m w = (r, w')" and same: "\<And>J. survives J \<Longrightarrow> preserves J m"
    and calm: "\<And>kt. rg (host_of w) (spares kt) (quiescent l0 p) m (\<lambda>_. quiescent l0 p)"
  shows "at_rest p l0 w' \<and> host_of w' = host_of w \<and> w_counter w' = w_counter w"
proof -
  have pres: "preserves (\<lambda>w'. w_counter w' = w_counter w) m" by (intro same survives_outside outside_counter)
  have counter: "w_counter w' = w_counter w" using preservesD [OF pres _ run] by simp
  have start: "holds (quiescent l0 p) w" using rest by (simp add: at_rest_def quiescent_def holds_def)
  have step: "host_of w' = host_of w \<and> script_ok (spares kt) (w_now w') (w_script w') \<and> holds (quiescent l0 p) w'"
    if "script_ok (spares kt) (w_now w) (w_script w)" for kt
    using rgD [OF calm refl that start run] by blast
  have host: "host_of w' = host_of w" and after: "holds (quiescent l0 p) w'"
    using step rest by (auto simp: at_rest_def undisturbed_def)
  moreover have "w_pid w' = w_pid w" using host by (simp add: host_of_def)
  ultimately show ?thesis
    using step rest counter by (auto simp: at_rest_def undisturbed_def holds_def quiescent_def)
qed

lemma steady_phase:
  assumes "at_rest p l0 w" "m w = (r, w')" "steady m" "\<And>J. survives J \<Longrightarrow> preserves J m"
  shows "at_rest p l0 w'" "host_of w' = host_of w" "w_counter w' = w_counter w"
  using uncounted_phase [OF assms(1,2,4) steadyD [OF assms(3) stable_quiescent]] by auto

end
