(* ===== verification/Edit_Atomic.thy ===== *)
theory Edit_Atomic
  imports Tool_Logic
begin

text \<open>The \<open>edit\<close> tool as a whole: what a run of it means for the file.\<close>

section \<open>Publishing\<close>

lemma publish_snapshot_run:
  "publish_snapshot hs p stamp snap w = (r, w') \<Longrightarrow> r = Inr () \<and> w_log w' = w_log w \<and> w_now w' = w_now w \<and> w_fs w' = w_fs w"
  by (auto simp: publish_snapshot_def locked_def ret_def Let_def split: option.splits prod.splits)

definition edit_result :: "externs \<Rightarrow> edit_request \<Rightarrow> snapshot_id \<Rightarrow> bytes \<Rightarrow> edit_success" where
  "edit_result x input previous applied =
     edit_success_new (er_path input) previous (content_id x applied) (length (er_edits input))
       (of_nat (length applied)) (of_nat (seg_count applied))"

lemma fresh_sizes:
  "sn_byte_len (fresh_snapshot x t stamp) = of_nat (length t)" "sn_line_count (fresh_snapshot x t stamp) = of_nat (seg_count t)"
  by (simp_all add: fresh_snapshot_def)

lemma publish_run:
  assumes x: "externs_ok x" and ok: "text_ok applied" and rest: "fs_ok (w_fs w)" "ordinary p" "undisturbed p w"
    and run: "publish hs x p input previous applied expected d w = (r, w')"
  shows "case r of
      Inl e \<Rightarrow> kept (w_log w) p (w_log w')
    | Inr success \<Rightarrow> success = edit_result x input previous applied \<and>
        committed (w_device w) (map_option (\<lambda>stamp. \<lparr>ed_stamp = stamp, ed_content_id = previous\<rparr>) expected)
          (w_log w) p applied (w_log w')"
proof -
  let ?e = "map_option (\<lambda>stamp. \<lparr>ed_stamp = stamp, ed_content_id = previous\<rparr>) expected"
  obtain q w1 where q: "atomic_write x p applied ?e d w = (q, w1)" by (metis surj_pair)
  note out = atomic_write_outcome [OF rest q]
  note run = run [unfolded publish_def Let_def bind_run with_err_run q, simplified]
  show ?thesis
  proof (cases q)
    case (Inl e)
    then show ?thesis using run out by (auto simp: persist_post_def)
  next
    case (Inr stamp)
    let ?snap = "fresh_snapshot x applied None"
    obtain u :: "protocol_error fault + unit" and w2 where w2: "publish_snapshot hs p stamp ?snap w1 = (u, w2)"
      by (metis surj_pair)
    have u: "u = Inr ()" using publish_snapshot_run [OF w2] by simp
    have "r = Inr (edit_result x input previous applied) \<and> w' = w2"
      using run unfolding Inr edit_result_def
      by (simp add: comp_simps from_validated_bytes_ok [OF x ok] w2 u fresh_sizes)
    then show ?thesis using out Inr publish_snapshot_run [OF w2] by (simp add: persist_post_def)
  qed
qed

text \<open>What a successful edit of the text \<open>before\<close> is.\<close>

definition edited :: "externs \<Rightarrow> edit_request \<Rightarrow> bytes \<Rightarrow> bytes \<Rightarrow> bool" where
  "edited x input before applied \<longleftrightarrow>
     er_snapshot input = content_id x before \<and> batch_ok before (er_edits input) \<and>
     applied = edit_spec before (map line_edit_of (er_edits input))"

lemma edited_iff: "apply_versioned_reference_edits before (content_id x before) input = Inr applied \<longleftrightarrow> edited x input before applied"
  by (simp add: versioned_edit_eq_Inr edited_def)

lemma edited_valid:
  assumes "edited x input before applied" "\<forall>operation\<in>set (er_edits input). utf8_ok (op_content operation)"
  shows "text_ok applied"
proof -
  have "apply_reference_edits before (er_edits input) = Inr applied"
    using assms(1) by (simp add: edited_def apply_reference_edits_eq_Inr)
  then show ?thesis using assms(2) by (rule edited_text_ok)
qed

definition edit_done :: "externs \<Rightarrow> u64 \<Rightarrow> (fsys \<times> fsys) list \<Rightarrow> path \<Rightarrow> edit_request \<Rightarrow> bytes \<Rightarrow> expected_destination option \<Rightarrow>
    edit_success \<Rightarrow> (fsys \<times> fsys) list \<Rightarrow> bool" where
  "edit_done x device l0 p input before expected success l \<longleftrightarrow>
     (\<exists>applied. edited x input before applied \<and> success = edit_result x input (content_id x before) applied \<and>
        committed device expected l0 p applied l)"

lemma edit_published:
  assumes x: "externs_ok x" and contents: "\<forall>operation\<in>set (er_edits input). utf8_ok (op_content operation)"
    and ed: "edited x input t applied" and rest: "at_rest p l0 w" "ordinary p"
    and run: "publish hs x p input (content_id x t) applied expected d w = (r, w')"
  shows "case r of Inl e \<Rightarrow> kept l0 p (w_log w')
    | Inr success \<Rightarrow> edit_done x (w_device w) l0 p input t
        (map_option (\<lambda>stamp. \<lparr>ed_stamp = stamp, ed_content_id = content_id x t\<rparr>) expected) success (w_log w')"
  using publish_run [OF x edited_valid [OF ed contents] _ rest(2) _ run] rest(1) ed
  by (auto simp: at_rest_def edit_done_def split: sum.splits intro: kept_trans committed_before)

text \<open>The file does not exist: the batch is applied to the empty text, and the directories are made.\<close>

definition make_parents :: "path \<Rightarrow> ('z world_scheme, protocol_error fault, unit) comp" where
  "make_parents p = (case path_parent p of None \<Rightarrow> ret () | Some parent \<Rightarrow>
     with_err (\<lambda>e. Err (protocol_error_new CodeIo (''Failed to create parent directory for '' @ p @ '': '' @ io_text e)))
       (create_dir_all parent))"

lemma make_parents_run:
  fixes w :: "'z process_scheme"
  assumes rest: "at_rest p l0 w" and run: "make_parents p w = (q, w1)"
  shows "at_rest p l0 w1" "host_of w1 = host_of w"
proof -
  let ?dirs = "make_parents p :: ('z process_scheme, protocol_error fault, unit) comp"
  have calm: "rg (host_of w) (spares kt) (quiescent l0 p) ?dirs (\<lambda>_. quiescent l0 p)" for kt
  proof (cases "path_parent p")
    case (Some parent)
    then have "length (path_components parent) < length (path_components p)"
      using path_parent_components [OF Some] by simp
    from rg_create_dir_all [OF this] show ?thesis unfolding make_parents_def Some option.case by (rule rg_with_err)
  qed (auto simp: make_parents_def intro: rg_ret)
  have same: "preserves J ?dirs" if "survives J" for J :: "'z process_scheme \<Rightarrow> bool"
    using that by (auto simp: make_parents_def intro!: preserves_rules split: option.split)
  show "at_rest p l0 w1" "host_of w1 = host_of w" using uncounted_phase [OF rest run same calm] by auto
qed

lemma create_new_file_cases:
  assumes x: "externs_ok x" and run: "create_new_file hs x p input d w = (r, w')"
  obtains e where "r = Inl e" "w' = w"
  | applied where "edited x input [] applied" "bind (make_parents p) (\<lambda>_. publish hs x p input (content_id x []) applied None d) w = (r, w')"
proof -
  have empty: "snapshot_from_bytes x [] = Inr (fresh_snapshot x [] None)"
    by (simp add: snapshot_from_bytes_eq [OF x] validate_text_eq_Inr [of "[]" "[]", THEN iffD2] text_ok_def)
  note run = run [unfolded create_new_file_def empty map_err_simps bind_lift_Inr fresh_snapshot_simps, folded make_parents_def]
  show thesis
  proof (cases "er_snapshot input = content_id x []")
    case False
    then have "\<exists>e. r = Inl e \<and> w' = w" using run by (auto simp: comp_simps split: sum.splits)
    then show thesis using that(1) by blast
  next
    case True
    show thesis
    proof (cases "apply_versioned_reference_edits [] (content_id x []) input")
      case (Inl e)
      then have "r = Inl e" "w' = w" using run True by (auto simp: raise_def)
      then show thesis by (rule that(1))
    next
      case (Inr applied)
      then have "edited x input [] applied" using edited_iff by blast
      moreover have "bind (make_parents p) (\<lambda>_. publish hs x p input (content_id x []) applied None d) w = (r, w')"
        using run True Inr by simp
      ultimately show thesis by (rule that(2))
    qed
  qed
qed

lemma create_new_file_run:
  assumes x: "externs_ok x" and contents: "\<forall>operation\<in>set (er_edits input). utf8_ok (op_content operation)"
    and rest: "at_rest p l0 w" and p: "ordinary p"
    and run: "create_new_file hs x p input d w = (r, w')"
  shows "case r of Inl e \<Rightarrow> kept l0 p (w_log w') | Inr success \<Rightarrow> edit_done x (w_device w) l0 p input [] None success (w_log w')"
  using x run
proof (cases rule: create_new_file_cases)
  case (1 e)
  then show ?thesis using rest by (simp add: at_rest_def)
next
  case (2 applied)
  obtain q :: "protocol_error fault + unit" and w1 where q: "make_parents p w = (q, w1)" by (metis surj_pair)
  note mid = make_parents_run [OF rest q]
  show ?thesis
  proof (cases q)
    case (Inl e)
    then show ?thesis using 2(2) q mid(1) by (auto simp: bind_run at_rest_def)
  next
    case (Inr u)
    then have "publish hs x p input (content_id x []) applied None d w1 = (r, w')" using 2(2) q by (simp add: bind_run)
    from edit_published [OF x contents 2(1) mid(1) p this] mid(2) show ?thesis by (simp add: host_of_def split: sum.splits)
  qed
qed

section \<open>The whole run\<close>

text \<open>The others during the run of a tool on \<open>p\<close>: they spare the temporary file and set change times.\<close>

definition fair_world :: "path \<Rightarrow> int \<Rightarrow> 'z world_scheme \<Rightarrow> bool" where
  "fair_world p gran w \<longleftrightarrow> fs_ok (w_fs w) \<and> fs_small (w_fs w) \<and> ordinary p \<and> undisturbed p w \<and>
     clock_lag (w_clock w) gran \<and> script_ok (settled_rely (w_clock w)) (w_now w) (w_script w)"

definition quick_run :: "int \<Rightarrow> 'z world_scheme \<Rightarrow> 'z world_scheme \<Rightarrow> bool" where
  "quick_run gran w w' \<longleftrightarrow> quick gran (w_now w) (w_now w')"

text \<open>The load, and what is left to assume after it.\<close>

lemma load_phase:
  assumes x: "externs_ok x" and fair: "fair_world p gran w" and run: "snapshot_load x p w = (r, w1)"
  shows "at_rest p (w_log w) w1" "host_of w1 = host_of w" "script_ok (settled_rely (w_clock w)) (w_now w1) (w_script w1)"
    and "r = Inr s \<Longrightarrow> \<exists>t stamp. s = fresh_snapshot x t (Some stamp) \<and> text_ok t \<and>
      (\<not> fs_racy stamp \<longrightarrow> quick_run gran w w1 \<longrightarrow> held_text (w_log w) p t (w_log w1))"
proof -
  have rest: "at_rest p (w_log w) w" using fair by (simp add: fair_world_def at_rest_def)
  show "at_rest p (w_log w) w1" "host_of w1 = host_of w"
    using steady_phase [OF rest run steady_load survives_load] by blast+
  have start: "holds (begun (w_now w) (w_log w)) w" using fair by (simp add: holds_def begun_def fair_world_def)
  have lag: "clock_lag (w_clock w) gran" and sc: "script_ok (settled_rely (w_clock w)) (w_now w) (w_script w)"
    using fair by (simp_all add: fair_world_def)
  note settled = rgD [OF rg_load_attempts [OF lag] refl sc start run [unfolded snapshot_load_def]]
  show "script_ok (settled_rely (w_clock w)) (w_now w1) (w_script w1)" by (rule settled(2))
  assume r: "r = Inr s"
  then obtain t stamp where s: "s = fresh_snapshot x t (Some stamp)" "text_ok t" using load_fresh [OF x] run by metis
  then have "held_text (w_log w) p t (w_log w1)" if "\<not> fs_racy stamp" "quick_run gran w w1"
    using settled(3) that r unfolding holds_def snapshot_post_def justified_def held_text_def quick_run_def by auto
  then show "\<exists>t stamp. s = fresh_snapshot x t (Some stamp) \<and> text_ok t \<and>
      (\<not> fs_racy stamp \<longrightarrow> quick_run gran w w1 \<longrightarrow> held_text (w_log w) p t (w_log w1))"
    using s by blast
qed

text \<open>Time and log move on through the phases that persist.\<close>

definition onward :: "'z world_scheme \<Rightarrow> 'z world_scheme \<Rightarrow> bool" where
  "onward w w' \<longleftrightarrow> script_ok (settled_rely (w_clock w)) (w_now w') (w_script w') \<and> w_now w \<le> w_now w' \<and>
     (\<exists>new. w_log w' = new @ w_log w)"

lemma survives_onward: "survives (onward w)"
  unfolding onward_def using survives_and [OF survives_time survives_log] by (simp add: conj_assoc)

lemma uncounted_onward: "uncounted (onward w)"
  by (simp add: uncounted_def onward_def)

lemma preserves_onward_publish:
  fixes w :: "'z process_scheme"
  shows "preserves (onward w) (publish hs x p input previous applied expected d)"
proof -
  have "preserves (onward w) (publish_snapshot hs p stamp snap :: ('z process_scheme, protocol_error fault, unit) comp)" for stamp snap
    by (auto simp: publish_snapshot_def preserves_def locked_def ret_def onward_def Let_def split: option.split)
  then show ?thesis
    unfolding publish_def Let_def using survives_onward uncounted_onward by (auto intro!: preserves_rules)
qed

lemma held_onward:
  assumes "onward w1 w'" and "quick_run gran w w1 \<Longrightarrow> held_text l p t (w_log w1)" and "quick_run gran w w'"
  shows "held_text l p t (w_log w')"
proof -
  have "quick_run gran w w1" using assms(1,3) by (simp add: quick_run_def quick_def onward_def)
  from held_text_later [OF assms(2) [OF this]] show ?thesis using assms(1) by (simp add: onward_def)
qed

lemma edit_run_exact:
  assumes x: "externs_ok x" and contents: "\<forall>operation\<in>set (er_edits input). utf8_ok (op_content operation)"
    and fair: "fair_world p gran w" and run: "edit_run_blocking hs x p input d w = (r, w')"
  shows "case r of
      Inl e \<Rightarrow> kept (w_log w) p (w_log w')
    | Inr success \<Rightarrow>
        edit_done x (w_device w) (w_log w) p input [] None success (w_log w') \<or>
        (\<exists>before stamp. edit_done x (w_device w) (w_log w) p input before
            (Some \<lparr>ed_stamp = stamp, ed_content_id = content_id x before\<rparr>) success (w_log w') \<and>
          (\<not> fs_racy stamp \<longrightarrow> quick_run gran w w' \<longrightarrow> held_text (w_log w) p before (w_log w')))"
proof -
  have p: "ordinary p" using fair by (simp add: fair_world_def)
  obtain q w1 where q: "snapshot_load x p w = (q, w1)" by (metis surj_pair)
  note load = load_phase [OF x fair q]
  note run = run [unfolded edit_run_blocking_def handle_run q, simplified]
  have same: "w_device w1 = w_device w" "w_clock w1 = w_clock w" using load(2) by (simp_all add: host_of_def)
  show ?thesis
  proof (cases q)
    case (Inl e)
    then show ?thesis
    proof (cases "is_missing e")
      case True
      then have "create_new_file hs x p input d w1 = (r, w')" using run Inl by simp
      from create_new_file_run [OF x contents load(1) p this] show ?thesis
        using same by (auto split: sum.splits)
    next
      case False
      then show ?thesis using run Inl load(1) by (auto simp: raise_def at_rest_def)
    qed
  next
    case (Inr s)
    obtain t stamp where s: "s = fresh_snapshot x t (Some stamp)" "text_ok t"
      and held: "\<not> fs_racy stamp \<Longrightarrow> quick_run gran w w1 \<Longrightarrow> held_text (w_log w) p t (w_log w1)"
      using load(4) [OF Inr] by blast
    have engine: "fst (apply_edits_fast x input s) = apply_versioned_reference_edits t (content_id x t) input"
      using apply_edits_fast_run [OF x wf_fresh_snapshot [OF s(2), of x "Some stamp"], of input] s(1) by auto
    show ?thesis
    proof (cases "apply_versioned_reference_edits t (content_id x t) input")
      case (Inl e)
      then show ?thesis using run Inr engine load(1) by (auto simp: raise_def at_rest_def)
    next
      case (Inr applied)
      have pub: "publish hs x p input (content_id x t) applied (Some stamp) d w1 = (r, w')"
        using run engine Inr s(1) \<open>q = Inr s\<close> by simp
      have ed: "edited x input t applied" using Inr edited_iff by blast
      have "onward w1 w1" using load(3) same by (simp add: onward_def)
      then have "onward w1 w'" using preservesD [OF preserves_onward_publish _ pub] by blast
      then have "held_text (w_log w) p t (w_log w')" if "\<not> fs_racy stamp" "quick_run gran w w'"
        by (rule held_onward) (use held that in auto)
      then show ?thesis
        using edit_published [OF x contents ed load(1) p pub] same(1) by (cases r) auto
    qed
  qed
qed


section \<open>Properties\<close>

text \<open>
  Property C4.  The \<open>edit\<close> tool end to end, with other processes changing files between any two calls
  and with any call failing.  If it reports an error, no step of it changed what the file holds:
  there are no partial edits.  If it succeeds, the request named the identity of a text on which
  its batch is acceptable, and one single step gave the file the specified edit of that text, after
  the file was seen with the stamp the text was loaded under; when that stamp was not racy and the
  run was quick, the file did hold that text during the run.  The reported identities and sizes
  are those of the two texts.  A missing file counts as the empty text.
\<close>

theorem edit_tool_atomic:
  assumes "externs_ok x" and "\<forall>operation\<in>set (er_edits input). utf8_ok (op_content operation)"
    and "resolve_workspace_path view ws (er_path input) = Inr p" and "fair_world p gran w"
    and "edit_run hs x join view ws input w = (r, w')"
  shows "case r of
      Inl e \<Rightarrow> kept (w_log w) p (w_log w')
    | Inr success \<Rightarrow>
        edit_done x (w_device w) (w_log w) p input [] None success (w_log w') \<or>
        (\<exists>before stamp. edit_done x (w_device w) (w_log w) p input before
            (Some \<lparr>ed_stamp = stamp, ed_content_id = content_id x before\<rparr>) success (w_log w') \<and>
          (\<not> fs_racy stamp \<longrightarrow> quick_run gran w w' \<longrightarrow> held_text (w_log w) p before (w_log w')))"
proof (cases "edit_request_validate input")
  case (Inl e)
  then have "r = Inl (protocol_error_of_contract e)" "w' = w" using assms(5) by (auto simp: edit_run_def raise_def)
  then show ?thesis by simp
next
  case (Inr u)
  obtain q w1 where q: "edit_run_blocking hs x p input (wsp_durability ws) w = (q, w1)" by (metis surj_pair)
  then have "r = map_err (\<lambda>e. case e of Panic \<Rightarrow> join_protocol_error ''edit'' p join | Err e \<Rightarrow> e) q" "w' = w1"
    using assms(3,5) Inr by (simp_all add: edit_run_def spawn_blocking_def with_err_run)
  then show ?thesis using edit_run_exact [OF assms(1,2,4) q] by (cases q) simp_all
qed

lemma small_process_fair: "fair_world ''/f'' 4000000 (small_process ca)"
proof -
  have name: "path_file_name ''/f'' = Some ''f''" by code_simp
  have "fs_small (small_fs bytes time)" "fs_ok (small_fs bytes time)" if "length bytes < 2 ^ 64" for bytes time
    using that by (auto simp: fs_small_def small_fs_def fs_ok_def)
  then show ?thesis
    by (simp add: fair_world_def small_process_def world.defs small_world_def ordinary_def name TEMP_PREFIX_def
        undisturbed_def coarse_clock_lag)
qed

theorem edit_tool_atomic_witness:
  "\<exists>r w'. edit_run depth_hashing plain_externs ''panic'' \<lparr>v_exists = \<lambda>p. True, v_canonicalize = \<lambda>p. Inr p\<rparr>
      (workspace_new ''/'' False)
      \<lparr>er_path = ''/f'', er_snapshot = SnapshotId 2, er_edits = [Replace (Position 1 0) (Position 2 2) ''x'']\<rparr>
      (small_process (with_capacity 2)) = (r, w') \<and> (\<forall>e. r = Inl e \<longrightarrow> kept [] ''/f'' (w_log w'))"
proof -
  let ?view = "\<lparr>v_exists = \<lambda>p. True, v_canonicalize = \<lambda>p. Inr p\<rparr>"
  let ?req = "\<lparr>er_path = ''/f'', er_snapshot = SnapshotId 2, er_edits = [Replace (Position 1 0) (Position 2 2) ''x'']\<rparr>"
  obtain r w' where run: "edit_run depth_hashing plain_externs ''panic'' ?view (workspace_new ''/'' False) ?req
      (small_process (with_capacity 2)) = (r, w')"
    by (metis surj_pair)
  have "resolve_workspace_path ?view (workspace_new ''/'' False) (er_path ?req) = Inr ''/f''" by code_simp
  from edit_tool_atomic [OF plain_externs_ok _ this small_process_fair run]
  have "case r of Inl e \<Rightarrow> kept (w_log (small_process (with_capacity 2))) ''/f'' (w_log w') | Inr success \<Rightarrow> True"
    by (auto simp: utf8_ok_ascii code_of_def split: sum.splits)
  then show ?thesis using run by (auto simp: small_process_def world.defs small_world_def)
qed

end
