(* ===== verification/Write_Tool.thy ===== *)
theory Write_Tool
  imports Edit_Atomic
begin

text \<open>
  The \<open>write\<close> tool (\<open>src/write.rs\<close>): decide the request against the file as it is, create it
  exclusively or replace it against the stamp of the load, and put the new snapshot into the cache.
\<close>

section \<open>The code\<close>

definition write_success_new :: "string \<Rightarrow> snapshot_id \<Rightarrow> u64 \<Rightarrow> u64 \<Rightarrow> bool \<Rightarrow> write_success" where
  "write_success_new path snapshot bytes lines was_created =
     \<lparr>wsu_path = path, wsu_snapshot = snapshot, wsu_bytes = bytes, wsu_lines = lines, wsu_created = was_created\<rparr>"

text \<open>Always an error: the one that describes what won the race.\<close>

definition lose_create_race ::
    "externs \<Rightarrow> path \<Rightarrow> write_request \<Rightarrow> ('z world_scheme, protocol_error fault, 'a) comp" where
  "lose_create_race x p input =
     handle (snapshot_load x p)
       (\<lambda>error.
          if is_missing error then
            raise (Err (protocol_error_new CodeIo
              (''Failed to write '' @ p @ '': destination appeared and vanished during create; retry'')))
          else raise (Err (snapshot_protocol_error ''write'' p error)))
       (\<lambda>snapshot.
          case validate_reference_write (Some (sn_text snapshot, sn_id snapshot)) input of
            Inr _ \<Rightarrow> raise (Err (protocol_error_new CodeIo
              (''Failed to write '' @ p @ '': lost a create race but the destination no longer conflicts; retry'')))
          | Inl error \<Rightarrow> raise error)"

text \<open>\<open>None\<close> for a missing file.\<close>

definition load_current :: "externs \<Rightarrow> path \<Rightarrow> ('z world_scheme, protocol_error fault, snapshot option) comp" where
  "load_current x p =
     handle (snapshot_load x p)
       (\<lambda>error. if is_missing error then ret None else raise (Err (snapshot_protocol_error ''write'' p error)))
       (\<lambda>snapshot. ret (Some snapshot))"

definition persist_write ::
    "externs \<Rightarrow> path \<Rightarrow> bytes \<Rightarrow> snapshot option \<Rightarrow> bool \<Rightarrow> durability \<Rightarrow> ('z world_scheme, persist_error, file_stamp option) comp" where
  "persist_write x p bytes current was_created durability =
     (if was_created then atomic_create p bytes durability
      else
        let expected = Option.bind current (\<lambda>snapshot.
          map_option (\<lambda>stamp. \<lparr>ed_stamp = stamp, ed_content_id = sn_id snapshot\<rparr>) (sn_stamp snapshot)) in
        atomic_write x p bytes expected durability)"

definition is_exists_error :: "persist_error \<Rightarrow> bool" where
  "is_exists_error e = (case e of DestinationExists p \<Rightarrow> True | _ \<Rightarrow> False)"

text \<open>The part after the decision: persist, answer, publish.\<close>

definition finish_write ::
    "hashing \<Rightarrow> externs \<Rightarrow> path \<Rightarrow> write_request \<Rightarrow> snapshot option \<Rightarrow> bool \<Rightarrow> durability \<Rightarrow>
     ('z process_scheme, protocol_error fault, write_success) comp" where
  "finish_write hs x p input current was_created durability =
     (let bytes = wr_content input in
      handle (persist_write x p bytes current was_created durability)
        (\<lambda>error. if is_exists_error error then lose_create_race x p input
                 else raise (Err (persist_protocol_error error)))
        (\<lambda>stamp.
           bind (lift (map_err (\<lambda>e. Err (snapshot_protocol_error ''write'' p e)) (from_validated_bytes x bytes))) (\<lambda>persisted.
           let success = write_success_new (wr_path input) (sn_id persisted) (sn_byte_len persisted)
             (sn_line_count persisted) was_created in
           bind (publish_snapshot hs p stamp persisted) (\<lambda>_. ret success))))"

definition write_run_blocking ::
    "hashing \<Rightarrow> externs \<Rightarrow> path \<Rightarrow> write_request \<Rightarrow> durability \<Rightarrow> ('z process_scheme, protocol_error fault, write_success) comp" where
  "write_run_blocking hs x p input durability =
     bind (load_current x p) (\<lambda>current.
     bind (lift (validate_reference_write (map_option (\<lambda>snapshot. (sn_text snapshot, sn_id snapshot)) current) input)) (\<lambda>was_created.
     finish_write hs x p input current was_created durability))"

definition write_run ::
    "hashing \<Rightarrow> externs \<Rightarrow> string \<Rightarrow> os_view \<Rightarrow> workspace \<Rightarrow> write_request \<Rightarrow> ('z process_scheme, protocol_error, write_success) comp" where
  "write_run hs x join view ws input =
     bind (lift (map_err protocol_error_of_contract (write_request_validate input))) (\<lambda>_.
     bind (lift (resolve_workspace_path view ws (wr_path input))) (\<lambda>p.
     spawn_blocking join ''write'' p (write_run_blocking hs x p input (wsp_durability ws))))"

definition run_write ::
    "hashing \<Rightarrow> externs \<Rightarrow> string \<Rightarrow> os_view \<Rightarrow> (protocol_error \<Rightarrow> string + string) \<Rightarrow> (write_success \<Rightarrow> string + string) \<Rightarrow>
     workspace \<Rightarrow> write_request \<Rightarrow> ('z process_scheme, 'e, tool_outcome) comp" where
  "run_write hs x join view encode encode_success ws input =
     handle (write_run hs x join view ws input)
       (\<lambda>error. ret (protocol_outcome encode error)) (\<lambda>success. ret (success_outcome encode_success success))"

section \<open>Phases\<close>

text \<open>A steady program changes nothing, whatever the others do.\<close>

lemma stable_kept: "stable E (\<lambda>f now l. kept l0 p l)"
  by (simp add: stable_def kept_Cons)

lemma script_any: "script_ok (\<lambda>now t. True) now ts"
  by (induction ts arbitrary: now) simp_all

lemma steady_kept:
  assumes "steady m" "m w = (r, w')" "kept l0 p (w_log w)"
  shows "kept l0 p (w_log w')"
proof -
  have "holds (\<lambda>f now l. kept l0 p l) w" using assms(3) by (simp add: holds_def)
  from rgD(3) [OF steadyD [OF assms(1) stable_kept] refl script_any this assms(2)]
  show ?thesis by (simp add: holds_def)
qed

lemma steady_lose_race: "steady (lose_create_race x p input)"
  unfolding lose_create_race_def by (auto intro!: steady_rules split: sum.split)

lemma lose_race_error: "\<exists>e. fst (lose_create_race x p input w) = Inl e"
  by (auto simp: lose_create_race_def handle_def raise_def split: prod.splits sum.splits)

definition write_result :: "externs \<Rightarrow> write_request \<Rightarrow> bool \<Rightarrow> write_success" where
  "write_result x input was_created =
     write_success_new (wr_path input) (content_id x (wr_content input)) (of_nat (length (wr_content input)))
       (of_nat (seg_count (wr_content input))) was_created"

text \<open>What an allowed write does: a creation over nothing, or a replacement of the named snapshot.\<close>

definition write_done :: "externs \<Rightarrow> u64 \<Rightarrow> (fsys \<times> fsys) list \<Rightarrow> path \<Rightarrow> write_request \<Rightarrow> expected_destination option \<Rightarrow>
    write_success \<Rightarrow> (fsys \<times> fsys) list \<Rightarrow> bool" where
  "write_done x device l0 p input expected success l \<longleftrightarrow>
     (case expected of
        None \<Rightarrow> wr_expect input = Absent \<and> success = write_result x input True \<and> created l0 p (wr_content input) l
      | Some e \<Rightarrow> wr_expect input = ExpectSnapshot (ed_content_id e) \<and> success = write_result x input False \<and>
          committed device expected l0 p (wr_content input) l)"

lemma persist_phase:
  fixes w1 :: "'z process_scheme"
  assumes x: "externs_ok x" and ok: "text_ok (wr_content input)" and rest: "at_rest p l0 w1" "ordinary p"
    and phase: "\<And>q w2. persist_write x p (wr_content input) current was_created d w1 = (q, w2) \<Longrightarrow>
      (case q of Inl e \<Rightarrow> kept (w_log w1) p (w_log w2) | Inr _ \<Rightarrow> done (w_log w2))"
    and run: "finish_write hs x p input current was_created d w1 = (r, w')"
  shows "case r of Inl e \<Rightarrow> kept l0 p (w_log w') | Inr success \<Rightarrow> success = write_result x input was_created \<and> done (w_log w')"
proof -
  obtain q w2 where q: "persist_write x p (wr_content input) current was_created d w1 = (q, w2)" by (metis surj_pair)
  note run = run [unfolded finish_write_def Let_def handle_run q, simplified]
  have kept: "kept l0 p (w_log w1)" using rest by (simp add: at_rest_def)
  show ?thesis
  proof (cases q)
    case (Inl e)
    have k2: "kept l0 p (w_log w2)" using phase [OF q] Inl kept_trans [OF kept] by simp
    show ?thesis
    proof (cases "is_exists_error e")
      case True
      then have lose: "lose_create_race x p input w2 = (r, w')" using run Inl by simp
      have "\<exists>e. r = Inl e" by (metis fst_conv lose lose_race_error)
      then show ?thesis using steady_kept [OF steady_lose_race lose k2] by auto
    next
      case False
      then have "\<exists>e. r = Inl e" "w' = w2" using run Inl by (auto simp: raise_def)
      then show ?thesis using k2 by auto
    qed
  next
    case (Inr stamp)
    let ?snap = "fresh_snapshot x (wr_content input) None"
    obtain u :: "protocol_error fault + unit" and w3 where w3: "publish_snapshot hs p stamp ?snap w2 = (u, w3)"
      by (metis surj_pair)
    have u: "u = Inr ()" using publish_snapshot_run [OF w3] by simp
    have "r = Inr (write_result x input was_created) \<and> w' = w3"
      using run unfolding Inr write_result_def
      by (simp add: comp_simps from_validated_bytes_ok [OF x ok] w3 u fresh_sizes)
    then show ?thesis using phase [OF q] Inr publish_snapshot_run [OF w3] by simp
  qed
qed

lemma preserves_onward_finish:
  fixes w :: "'z process_scheme"
  shows "preserves (onward w) (finish_write hs x p input current was_created d)"
proof -
  have "preserves (onward w) (publish_snapshot hs p stamp snap :: ('z process_scheme, protocol_error fault, unit) comp)" for stamp snap
    by (auto simp: publish_snapshot_def preserves_def locked_def ret_def onward_def Let_def split: option.split)
  then show ?thesis
    unfolding finish_write_def persist_write_def lose_create_race_def Let_def
    using survives_onward uncounted_onward by (auto intro!: preserves_rules split: sum.split)
qed

lemma load_current_run:
  assumes "load_current x p w = (c, w1)"
  shows "\<exists>q. snapshot_load x p w = (q, w1) \<and> (\<forall>s. c = Inr (Some s) \<longrightarrow> q = Inr s)"
  using assms by (auto simp: load_current_def handle_def ret_def raise_def split: prod.splits sum.splits if_splits)

lemma write_created:
  assumes x: "externs_ok x" and ok: "text_ok (wr_content input)" and absent: "wr_expect input = Absent"
    and rest: "at_rest p l0 w1" "ordinary p" and run: "finish_write hs x p input current True d w1 = (r, w')"
  shows "case r of Inl e \<Rightarrow> kept l0 p (w_log w') | Inr success \<Rightarrow> write_done x dev l0 p input None success (w_log w')"
proof -
  have "case q of Inl e \<Rightarrow> kept (w_log w1) p (w_log w2) | Inr _ \<Rightarrow> created (w_log w1) p (wr_content input) (w_log w2)"
    if "persist_write x p (wr_content input) current True d w1 = (q, w2)" for q w2
    using atomic_create_outcome [OF _ rest(2), of w1] that rest(1)
    by (simp add: persist_write_def at_rest_def create_post_def)
  from persist_phase [OF x ok rest this run] show ?thesis
    using rest(1) absent created_before by (auto simp: write_done_def at_rest_def split: sum.splits)
qed

lemma write_replaced:
  assumes x: "externs_ok x" and ok: "text_ok (wr_content input)"
    and named: "wr_expect input = ExpectSnapshot (content_id x before)"
    and rest: "at_rest p l0 w1" "ordinary p"
    and run: "finish_write hs x p input (Some (fresh_snapshot x before (Some stamp))) False d w1 = (r, w')"
  shows "case r of Inl e \<Rightarrow> kept l0 p (w_log w')
    | Inr success \<Rightarrow> write_done x (w_device w1) l0 p input (Some \<lparr>ed_stamp = stamp, ed_content_id = content_id x before\<rparr>) success (w_log w')"
proof -
  have "case q of Inl e \<Rightarrow> kept (w_log w1) p (w_log w2) | Inr _ \<Rightarrow>
      committed (w_device w1) (Some \<lparr>ed_stamp = stamp, ed_content_id = content_id x before\<rparr>) (w_log w1) p (wr_content input) (w_log w2)"
    if "persist_write x p (wr_content input) (Some (fresh_snapshot x before (Some stamp))) False d w1 = (q, w2)" for q w2
    using atomic_write_outcome [OF _ rest(2), of w1] that rest(1)
    by (simp add: persist_write_def at_rest_def persist_post_def)
  from persist_phase [OF x ok rest this run] show ?thesis
    using rest(1) named committed_before by (auto simp: write_done_def at_rest_def split: sum.splits)
qed

lemma write_run_exact:
  assumes x: "externs_ok x" and utf8: "utf8_ok (wr_content input)"
    and fair: "fair_world p gran w" and run: "write_run_blocking hs x p input d w = (r, w')"
  shows "case r of
      Inl e \<Rightarrow> kept (w_log w) p (w_log w')
    | Inr success \<Rightarrow>
        write_done x (w_device w) (w_log w) p input None success (w_log w') \<or>
        (\<exists>before stamp. write_done x (w_device w) (w_log w) p input
            (Some \<lparr>ed_stamp = stamp, ed_content_id = content_id x before\<rparr>) success (w_log w') \<and>
          (\<not> fs_racy stamp \<longrightarrow> quick_run gran w w' \<longrightarrow> held_text (w_log w) p before (w_log w')))"
proof -
  let ?l = "w_log w"
  let ?known = "\<lambda>current. map_option (\<lambda>snapshot. (sn_text snapshot, sn_id snapshot)) current"
  have p: "ordinary p" using fair by (simp add: fair_world_def)
  obtain c :: "protocol_error fault + snapshot option" and w1 where c: "load_current x p w = (c, w1)" by (metis surj_pair)
  obtain q where q: "snapshot_load x p w = (q, w1)" "\<And>s. c = Inr (Some s) \<Longrightarrow> q = Inr s"
    using load_current_run [OF c] by blast
  note load = load_phase [OF x fair q(1)]
  have same: "w_device w1 = w_device w" "w_clock w1 = w_clock w" using load(2) by (simp_all add: host_of_def)
  have kept: "kept ?l p (w_log w1)" using load(1) by (simp add: at_rest_def)
  note run = run [unfolded write_run_blocking_def bind_run c, simplified]
  show ?thesis
  proof (cases c)
    case (Inl e)
    then show ?thesis using run kept by auto
  next
    case (Inr current)
    note run = run [unfolded Inr, simplified]
    show ?thesis
    proof (cases "validate_reference_write (?known current) input")
      case (Inl e)
      then show ?thesis using run kept by (auto simp: lift_def)
    next
      case (Inr was_created)
      then have run: "finish_write hs x p input current was_created d w1 = (r, w')" using run by (simp add: lift_def)
      have decide: "NUL \<notin> set (wr_content input)" "length (wr_content input) \<le> max_file_len"
        "case wr_expect input of Absent \<Rightarrow> current = None \<and> was_created
         | ExpectSnapshot requested \<Rightarrow> (\<exists>bytes. ?known current = Some (bytes, requested)) \<and> \<not> was_created"
        using Inr by (auto simp: write_eq_Inr split: write_expect.splits)
      have ok: "text_ok (wr_content input)" using decide(1,2) utf8 by (simp add: text_ok_def)
      show ?thesis
      proof (cases "wr_expect input")
        case Absent
        then have "finish_write hs x p input current True d w1 = (r, w')" using decide(3) run by simp
        from write_created [OF x ok Absent load(1) p this] show ?thesis by (auto split: sum.splits)
      next
        case (ExpectSnapshot requested)
        then obtain s where s: "current = Some s" "sn_id s = requested" "\<not> was_created" using decide(3) by auto
        obtain t stamp where t: "s = fresh_snapshot x t (Some stamp)" "text_ok t"
          and held: "\<not> fs_racy stamp \<Longrightarrow> quick_run gran w w1 \<Longrightarrow> held_text ?l p t (w_log w1)"
          using load(4) [OF q(2)] \<open>c = Inr current\<close> s(1) by blast
        have named: "wr_expect input = ExpectSnapshot (content_id x t)" using ExpectSnapshot s(2) t(1) by simp
        have "finish_write hs x p input (Some (fresh_snapshot x t (Some stamp))) False d w1 = (r, w')"
          using run s t(1) by simp
        note out = write_replaced [OF x ok named load(1) p this]
        have "onward w1 w1" using load(3) same by (simp add: onward_def)
        then have "onward w1 w'" using preservesD [OF preserves_onward_finish _ run] by blast
        then have "held_text ?l p t (w_log w')" if "\<not> fs_racy stamp" "quick_run gran w w'"
          by (rule held_onward) (use held that in auto)
        then show ?thesis using out unfolding same by (cases r) auto
      qed
    qed
  qed
qed

section \<open>Properties\<close>

text \<open>
  Property C5.  The \<open>write\<close> tool end to end, with other processes changing files between any two
  calls and with any call failing.  If it reports an error, also after a lost race to create the
  file, no step of it changed what the file holds.  If it succeeds on a request to create, the one
  step that created the file found nothing there and left the complete content; if it succeeds on
  a request to replace, the request named the identity of the text that was loaded, and one step
  gave the file the complete content after the file was seen with the stamp of that load, which the
  file held during a quick run when the stamp was not racy.
\<close>

theorem write_tool_atomic:
  assumes "externs_ok x" and "utf8_ok (wr_content input)"
    and "resolve_workspace_path view ws (wr_path input) = Inr p" and "fair_world p gran w"
    and "write_run hs x join view ws input w = (r, w')"
  shows "case r of
      Inl e \<Rightarrow> kept (w_log w) p (w_log w')
    | Inr success \<Rightarrow>
        write_done x (w_device w) (w_log w) p input None success (w_log w') \<or>
        (\<exists>before stamp. write_done x (w_device w) (w_log w) p input
            (Some \<lparr>ed_stamp = stamp, ed_content_id = content_id x before\<rparr>) success (w_log w') \<and>
          (\<not> fs_racy stamp \<longrightarrow> quick_run gran w w' \<longrightarrow> held_text (w_log w) p before (w_log w')))"
proof (cases "write_request_validate input")
  case (Inl e)
  then have "r = Inl (protocol_error_of_contract e)" "w' = w" using assms(5) by (auto simp: write_run_def raise_def)
  then show ?thesis by simp
next
  case (Inr u)
  obtain q w1 where q: "write_run_blocking hs x p input (wsp_durability ws) w = (q, w1)" by (metis surj_pair)
  then have "r = map_err (\<lambda>e. case e of Panic \<Rightarrow> join_protocol_error ''write'' p join | Err e \<Rightarrow> e) q" "w' = w1"
    using assms(3,5) Inr by (simp_all add: write_run_def spawn_blocking_def with_err_run)
  then show ?thesis using write_run_exact [OF assms(1,2,4) q] by (cases q) simp_all
qed

theorem write_tool_atomic_witness:
  "\<exists>r w'. write_run depth_hashing plain_externs ''panic'' \<lparr>v_exists = \<lambda>p. True, v_canonicalize = \<lambda>p. Inr p\<rparr>
      (workspace_new ''/'' False) \<lparr>wr_path = ''/f'', wr_content = ''xy'', wr_expect = ExpectSnapshot (SnapshotId 2)\<rparr>
      (small_process (with_capacity 2)) = (r, w') \<and> (\<forall>e. r = Inl e \<longrightarrow> kept [] ''/f'' (w_log w'))"
proof -
  let ?view = "\<lparr>v_exists = \<lambda>p. True, v_canonicalize = \<lambda>p. Inr p\<rparr>"
  let ?req = "\<lparr>wr_path = ''/f'', wr_content = ''xy'', wr_expect = ExpectSnapshot (SnapshotId 2)\<rparr>"
  obtain r w' where run: "write_run depth_hashing plain_externs ''panic'' ?view (workspace_new ''/'' False) ?req
      (small_process (with_capacity 2)) = (r, w')"
    by (metis surj_pair)
  have "resolve_workspace_path ?view (workspace_new ''/'' False) (wr_path ?req) = Inr ''/f''" by code_simp
  from write_tool_atomic [OF plain_externs_ok _ this small_process_fair run]
  have "case r of Inl e \<Rightarrow> kept (w_log (small_process (with_capacity 2))) ''/f'' (w_log w') | Inr success \<Rightarrow> True"
    by (auto simp: utf8_ok_ascii code_of_def split: sum.splits)
  then show ?thesis using run by (auto simp: small_process_def world.defs small_world_def)
qed

end
