(* ===== verification/Read_Tool.thy ===== *)
theory Read_Tool
  imports Write_Tool
begin

text \<open>
  The \<open>read\<close> tool (\<open>src/read.rs\<close>): load through the cache, resolve the start of the page from the
  cursor or the start line, and render.  Large files take the blocking route, which differs only
  in what becomes of a panic.
\<close>

section \<open>The code\<close>

definition BLOCKING_READ_BYTES :: nat where
  "BLOCKING_READ_BYTES = 256 * 1024"

text \<open>Any rejection on the fast path falls back to the reference rules.\<close>

definition validate_cursor_on_snapshot ::
    "externs \<Rightarrow> string \<Rightarrow> page_cursor \<Rightarrow> (snapshot, protocol_error fault, u64) comp" where
  "validate_cursor_on_snapshot x path cursor = (\<lambda>s.
     let reference = (\<lambda>s. (rbind (validate_reference_cursor path (sn_text s) (sn_id s) cursor) (\<lambda>p. Inr (pos_line p)), s)) in
     if cur_snapshot cursor = sn_id s then
       (case validate_boundary x (cur_next cursor) s of
          (Inr _, s') \<Rightarrow> (Inr (pos_line (cur_next cursor)), s')
        | (Inl _, s') \<Rightarrow> reference s')
     else reference s)"

definition cursor_position_or_first :: "page_cursor option \<Rightarrow> u64 \<Rightarrow> position" where
  "cursor_position_or_first cursor start_line =
     (case cursor of
        Some cursor \<Rightarrow> cur_next cursor
      | None \<Rightarrow> (case position_new start_line 0 of Inr p \<Rightarrow> p | Inl _ \<Rightarrow> Position 1 0))"

definition read_start :: "externs \<Rightarrow> read_request \<Rightarrow> (snapshot, protocol_error fault, u64) comp" where
  "read_start x input =
     (case rr_cursor input of
        Some cursor \<Rightarrow> validate_cursor_on_snapshot x (rr_path input) cursor
      | None \<Rightarrow> ret (case_option 1 id (rr_start_line input)))"

definition header_alone :: "externs \<Rightarrow> read_request \<Rightarrow> snapshot \<Rightarrow> protocol_error fault + string" where
  "header_alone x input s =
     map_err (\<lambda>e. Err (protocol_error_of_contract e))
       (rbind (snapshot_header_new (rr_path input) (sn_id s) (sn_line_count s) (sn_byte_len s)) (\<lambda>header.
        Inr (snapshot_header_render (x_json x) header)))"

definition snapshot_fault :: "path \<Rightarrow> snapshot_error fault \<Rightarrow> protocol_error fault" where
  "snapshot_fault p e = (case e of Panic \<Rightarrow> Panic | Err e \<Rightarrow> Err (snapshot_protocol_error ''read'' p e))"

definition render_page :: "externs \<Rightarrow> string \<Rightarrow> path \<Rightarrow> read_request \<Rightarrow> u64 \<Rightarrow> (snapshot, protocol_error fault, string) comp" where
  "render_page x join p input start_line = (\<lambda>s.
     let render = with_err (snapshot_fault p) (render_snapshot_page x (rr_path input) start_line (rr_limit input)) in
     if unat (sn_byte_len s) > BLOCKING_READ_BYTES then with_err Err (spawn_blocking join ''read'' p render) s
     else render s)"

definition read_page :: "externs \<Rightarrow> string \<Rightarrow> path \<Rightarrow> read_request \<Rightarrow> (snapshot, protocol_error fault, string) comp" where
  "read_page x join p input =
     bind (read_start x input) (\<lambda>start_line s.
     if start_line > sn_line_count s then
       (if rr_cursor input \<noteq> None then
          Inl (Err (protocol_error_of_contract (InvalidPosition (cursor_position_or_first (rr_cursor input) start_line))))
        else header_alone x input s, s)
     else render_page x join p input start_line s)"

text \<open>The size that decides the route; a file that cannot be stat'ed counts as large.\<close>

definition reads_blocking :: "path \<Rightarrow> ('z world_scheme, 'e, bool) comp" where
  "reads_blocking p =
     handle (sys_stat p) (\<lambda>_. ret True) (\<lambda>m. ret (unat (md_len m) > BLOCKING_READ_BYTES))"

definition load_shared ::
    "hashing \<Rightarrow> externs \<Rightarrow> string \<Rightarrow> path \<Rightarrow> bool \<Rightarrow> ('z process_scheme, protocol_error fault, snapshot) comp" where
  "load_shared hs x join p blocking =
     (let load = with_err (\<lambda>e. Err (snapshot_protocol_error ''read'' p e)) (get_or_load hs p (snapshot_load x p)) in
      if blocking then with_err Err (spawn_blocking join ''read'' p load) else load)"

definition read_run ::
    "hashing \<Rightarrow> externs \<Rightarrow> string \<Rightarrow> os_view \<Rightarrow> workspace \<Rightarrow> read_request \<Rightarrow> ('z process_scheme, protocol_error fault, string) comp" where
  "read_run hs x join view ws input =
     bind (lift (map_err (\<lambda>e. Err (protocol_error_of_contract e)) (read_request_validate input))) (\<lambda>_.
     bind (lift (map_err Err (resolve_workspace_path view ws (rr_path input)))) (\<lambda>p.
     bind (reads_blocking p) (\<lambda>blocking.
     bind (load_shared hs x join p blocking) (\<lambda>snapshot.
     lift (fst (read_page x join p input snapshot))))))"

definition run_read ::
    "hashing \<Rightarrow> externs \<Rightarrow> string \<Rightarrow> os_view \<Rightarrow> (protocol_error \<Rightarrow> string + string) \<Rightarrow> workspace \<Rightarrow> read_request \<Rightarrow>
     ('z process_scheme, unit fault, tool_outcome) comp" where
  "run_read hs x join view encode ws input =
     handle (read_run hs x join view ws input)
       (\<lambda>error. case error of Panic \<Rightarrow> raise Panic | Err error \<Rightarrow> ret (protocol_outcome encode error))
       (\<lambda>t. ret (outcome_success t))"

section \<open>The page\<close>

lemma validate_cursor_run:
  assumes x: "externs_ok x" and wf: "wf_snapshot x s" and fit: "offsets_fit x s" and line: "pos_line (cur_next cursor) \<noteq> 0"
  shows "\<exists>s'. same_snapshot x s s' \<and> validate_cursor_on_snapshot x path cursor s =
    (if cur_snapshot cursor \<noteq> sn_id s
     then Inl (Err (stale_error path (sn_text s) (cur_snapshot cursor) (sn_id s) (unat (pos_line (cur_next cursor)))))
     else if is_boundary (sn_text s) (cur_next cursor) then Inr (pos_line (cur_next cursor))
     else Inl (Err (protocol_error_of_contract (InvalidPosition (cur_next cursor)))), s')"
proof -
  have ok: "text_ok (sn_text s)" using wf by (simp add: wf_snapshot_def)
  have bad: "validate_reference_position (sn_text s) (cur_next cursor) = Inl (InvalidPosition (cur_next cursor))"
    if "\<not> is_boundary (sn_text s) (cur_next cursor)"
  proof (cases "validate_reference_position (sn_text s) (cur_next cursor)")
    case (Inl e)
    then have "e = InvalidPosition (cur_next cursor)"
      using ok validate_text_eq_Inr [of "sn_text s" "sn_text s"]
      by (auto simp: validate_reference_position_def Let_def rbind_def split: sum.splits dest: boundary_ordinal_Inl)
    then show ?thesis using Inl by simp
  next
    case (Inr u)
    then show ?thesis using that validate_reference_position_eq_Inr [OF ok] by blast
  qed
  show ?thesis
    using snapshot_boundary_run [OF x wf fit line] ok bad
    by (auto simp: validate_cursor_on_snapshot_def validate_boundary_def comp_simps cursor_cases same_snapshot_def
        validate_text_eq_Inr split: sum.splits)
qed


lemma render_page_run:
  assumes "externs_ok x" "wf_snapshot x s" "offsets_fit x s"
    and start: "1 \<le> unat start_line" "unat start_line \<le> seg_count (sn_text s)"
  shows "fst (render_page x join p input start_line s) =
    Inr (page_text x (rr_path input) (sn_text s) (unat start_line - 1) (unat (rr_limit input)))"
  using render_snapshot_page_run [OF assms, of "rr_path input" "rr_limit input"]
  by (simp add: render_page_def spawn_blocking_def with_err_run Let_def)

lemma same_snapshot_fields:
  assumes "same_snapshot x s s'"
  shows "sn_line_count s' = sn_line_count s" "sn_text s' = sn_text s" "sn_id s' = sn_id s"
    "wf_snapshot x s \<Longrightarrow> wf_snapshot x s'" "offsets_fit x s \<Longrightarrow> offsets_fit x s'"
  using assms by (auto simp: same_snapshot_def)

text \<open>The answer of \<open>read\<close> to a valid request, as a function of the text of the file.\<close>

definition read_answer :: "externs \<Rightarrow> read_request \<Rightarrow> string \<Rightarrow> protocol_error fault + string" where
  "read_answer x input t =
    (case rr_cursor input of
       Some c \<Rightarrow>
         if cur_snapshot c \<noteq> content_id x t
         then Inl (Err (stale_error (rr_path input) t (cur_snapshot c) (content_id x t) (unat (pos_line (cur_next c)))))
         else if \<not> is_boundary t (cur_next c) \<or> seg_count t < unat (pos_line (cur_next c))
         then Inl (Err (protocol_error_of_contract (InvalidPosition (cur_next c))))
         else Inr (page_text x (rr_path input) t (unat (pos_line (cur_next c)) - 1) (unat (rr_limit input)))
     | None \<Rightarrow>
         (let start = unat (case_option 1 id (rr_start_line input)) in
          if seg_count t < start
          then Inr (snapshot_header_render (x_json x) (text_header (rr_path input) (content_id x t) t))
          else Inr (page_text x (rr_path input) t (start - 1) (unat (rr_limit input)))))"

lemma read_page_answer:
  assumes "externs_ok x" and "wf_snapshot x s" and "offsets_fit x s"
    and "read_request_validate input = Inr ()" and "\<forall>c. rr_cursor input = Some c \<longrightarrow> pos_line (cur_next c) \<noteq> 0"
  shows "fst (read_page x join p input s) = read_answer x input (sn_text s)"
proof (cases "rr_cursor input")
  case None
  have id: "content_id x (sn_text s) = sn_id s" using assms(2) by (simp add: wf_snapshot_def)
  let ?start = "case_option 1 id (rr_start_line input)"
  have pos: "1 \<le> unat ?start"
    using assms(4) None by (auto simp: read_request_validate_def unat_gt_0 Suc_le_eq split: if_splits option.splits)
  have beyond: "sn_line_count s < ?start \<longleftrightarrow> seg_count (sn_text s) < unat ?start"
    using wf_line_count(1) [OF assms(2)] by (simp add: word_less_nat_alt)
  show ?thesis
  proof (cases "seg_count (sn_text s) < unat ?start")
    case True
    then show ?thesis
      using None beyond id header_of_snapshot [OF assms(2)]
      by (simp add: read_answer_def read_page_def read_start_def comp_simps header_alone_def rbind_def)
  next
    case False
    then show ?thesis
      using None beyond render_page_run [OF assms(1-3) pos]
      by (auto simp: read_answer_def read_page_def read_start_def comp_simps)
  qed
next
  case (Some c)
  have id: "content_id x (sn_text s) = sn_id s" using assms(2) by (simp add: wf_snapshot_def)
  have line: "pos_line (cur_next c) \<noteq> 0" using assms(5) Some by simp
  obtain s' where s': "same_snapshot x s s'" and start: "read_start x input s =
    (if cur_snapshot c \<noteq> sn_id s
     then Inl (Err (stale_error (rr_path input) (sn_text s) (cur_snapshot c) (sn_id s) (unat (pos_line (cur_next c)))))
     else if is_boundary (sn_text s) (cur_next c) then Inr (pos_line (cur_next c))
     else Inl (Err (protocol_error_of_contract (InvalidPosition (cur_next c)))), s')"
    using validate_cursor_run [OF assms(1-3) line, of "rr_path input"] Some by (auto simp: read_start_def)
  note same = same_snapshot_fields [OF s']
  have beyond: "sn_line_count s' < pos_line (cur_next c) \<longleftrightarrow> seg_count (sn_text s) < unat (pos_line (cur_next c))"
    using wf_line_count(1) [OF assms(2)] same(1) by (simp add: word_less_nat_alt)
  have page: "fst (render_page x join p input (pos_line (cur_next c)) s') =
      Inr (page_text x (rr_path input) (sn_text s) (unat (pos_line (cur_next c)) - 1) (unat (rr_limit input)))"
    if "\<not> seg_count (sn_text s) < unat (pos_line (cur_next c))"
    using render_page_run [OF assms(1) same(4) [OF assms(2)] same(5) [OF assms(3)], of "pos_line (cur_next c)" join p input] that line same(2)
    by (simp add: unat_gt_0 Suc_le_eq)
  show ?thesis
    using Some start beyond page id
    by (simp add: read_answer_def read_page_def comp_simps cursor_position_or_first_def)
qed

section \<open>Properties\<close>

text \<open>
  Property C16.  The answer of \<open>read\<close> on a loaded snapshot, for every valid request.  A cursor of
  another snapshot is the structured conflict; a cursor that is no boundary, or the end of the
  text, is refused as an invalid position; any other cursor gives exactly the page that starts at
  its line.  Without a cursor a start line inside the text gives its page, and one beyond the last
  line gives the header alone.  The route through the blocking pool makes no difference.
\<close>

theorem read_page_exact:
  assumes "externs_ok x" and "wf_snapshot x s" and "offsets_fit x s"
    and "read_request_validate input = Inr ()" and "\<forall>c. rr_cursor input = Some c \<longrightarrow> pos_line (cur_next c) \<noteq> 0"
  shows "fst (read_page x join p input s) =
    (case rr_cursor input of
       Some c \<Rightarrow>
         if cur_snapshot c \<noteq> sn_id s
         then Inl (Err (stale_error (rr_path input) (sn_text s) (cur_snapshot c) (sn_id s) (unat (pos_line (cur_next c)))))
         else if \<not> is_boundary (sn_text s) (cur_next c) \<or> seg_count (sn_text s) < unat (pos_line (cur_next c))
         then Inl (Err (protocol_error_of_contract (InvalidPosition (cur_next c))))
         else Inr (page_text x (rr_path input) (sn_text s) (unat (pos_line (cur_next c)) - 1) (unat (rr_limit input)))
     | None \<Rightarrow>
         (let start = unat (case_option 1 id (rr_start_line input)) in
          if seg_count (sn_text s) < start
          then Inr (snapshot_header_render (x_json x) (text_header (rr_path input) (sn_id s) (sn_text s)))
          else Inr (page_text x (rr_path input) (sn_text s) (start - 1) (unat (rr_limit input)))))"
proof -
  have id: "content_id x (sn_text s) = sn_id s" using assms(2) by (simp add: wf_snapshot_def)
  show ?thesis using read_page_answer [OF assms] unfolding read_answer_def id .
qed

theorem read_page_exact_witness:
  "fst (read_page plain_externs ''panic'' ''/f''
      \<lparr>rr_path = ''f'', rr_limit = 1, rr_cursor = Some \<lparr>cur_snapshot = SnapshotId 3, cur_next = Position 2 2\<rparr>, rr_start_line = None\<rparr>
      (fresh_snapshot plain_externs (''a'' @ [LF] @ ''b'') None)) =
    Inr (page_text plain_externs ''f'' (''a'' @ [LF] @ ''b'') 1 1)"
proof -
  let ?t = "''a'' @ [LF] @ ''b''" and ?s = "fresh_snapshot plain_externs (''a'' @ [LF] @ ''b'') None"
  let ?req = "\<lparr>rr_path = ''f'', rr_limit = 1, rr_cursor = Some \<lparr>cur_snapshot = SnapshotId 3, cur_next = Position 2 2\<rparr>, rr_start_line = None\<rparr>"
  have "text_ok ?t" by (simp add: text_ok_def max_file_len_def utf8_ok_ascii code_of_def)
  then have "wf_snapshot plain_externs ?s" by simp
  moreover have "offsets_fit plain_externs ?s" by (simp add: offsets_fit_def plain_externs_def)
  moreover have "read_request_validate ?req = Inr ()" by (simp add: read_request_validate_def MAX_PAGE_LINES_def)
  moreover have "sn_id ?s = SnapshotId 3" by (simp add: content_id_def plain_externs_def)
  moreover have "is_boundary ?t (Position 2 2)" by (simp add: is_boundary_def boundary_at_def seg_count_def seg_off_def)
  moreover have "seg_count ?t = 2" by (simp add: seg_count_def)
  ultimately show ?thesis
    using read_page_exact [of plain_externs ?s ?req "''panic''" "''/f''"] by simp
qed

end
