(* ===== verification/Tool_Listing.thy ===== *)
theory Tool_Listing
  imports Read_Tool
begin

text \<open>
  What the server tells a client about its tools (\<open>src/server.rs\<close>): names, descriptions and the
  annotations that say which tools leave the workspace alone.
\<close>

section \<open>Descriptions\<close>

definition MAX_LINES_READ :: nat where
  "MAX_LINES_READ = unat MAX_PAGE_LINES"

text \<open>Every line ends with a line feed.\<close>

definition text_lines :: "string list \<Rightarrow> string" where
  "text_lines ls = concat (map (\<lambda>l. l @ [LF]) ls)"

definition READ_TEMPLATE :: string where
  "READ_TEMPLATE = text_lines [
    ''Read a file with versioned positional output for use with edit.'',
    '''',
    ''Every response starts with a snapshot header:'',
    ''[hashline snapshot=<ID> lines=<N> bytes=<B> path=<JSON_STRING>]'',
    '''',
    ''Each following line is LINE@BYTE|CONTENT. Pass the snapshot ID and positions to edit.'',
    ''Pagination footer: [hashline next snapshot=<ID> position=LINE@BYTE]'',
    '''',
    ''Usage:'',
    ''- path is workspace-relative or absolute'',
    ''- limit defaults to {max_lines_read} (max {max_lines_read})'',
    ''- optional start_line begins the page at that 1-based line (no cursor needed)'',
    ''- optional cursor continues a prior page (never combined with start_line)'']"

definition EDIT_TEMPLATE :: string where
  "EDIT_TEMPLATE = text_lines [
    ''Edit a file using versioned byte-range replace operations.'',
    '''',
    ''{'',
    ''  \"file_path\": \"src/lib.rs\",'',
    ''  \"snapshot\": \"<32-hex from read>\",'',
    ''  \"edits\": ['',
    ''    { \"op\": \"replace\", \"start\": \"21@418\", \"end\": \"22@430\", \"content\": \"mod render;'',
    ''\" }'',
    ''  ]'',
    ''}'',
    '''',
    ''start inclusive, end exclusive. Stale snapshot fails closed with snapshot_conflict.'']"

definition WRITE_TEMPLATE :: string where
  "WRITE_TEMPLATE = text_lines [
    ''Create a new file, or replace a whole file you have read, with versioned safety.'',
    '''',
    ''{'',
    ''  \"file_path\": \"src/new.rs\",'',
    ''  \"content\": \"mod fresh;'' @ [CHR 0x5C] @ ''n\",'',
    ''  \"expect\": \"absent\"'',
    ''}'',
    '''',
    ''expect \"absent\" creates the file exclusively; if it already exists the error'',
    ''returns the current snapshot header so you can read or overwrite instead.'',
    ''expect <32-hex snapshot from read> replaces exactly that version; a stale'',
    ''snapshot fails closed with snapshot_conflict. Success returns the new'',
    ''snapshot for immediate use with edit. Parent directories are created.'']"

definition GREP_TEMPLATE :: string where
  "GREP_TEMPLATE = text_lines [
    ''Search file contents with position-annotated results for use with edit.'',
    '''',
    ''Each matching file section starts with its snapshot header; match lines carry'',
    ''LINE@BYTE positions you can pass directly to edit without reading the file'',
    ''first. Grep-style separators follow the position: `:` for match lines and'',
    ''`-` for context lines.'',
    '''',
    ''Content output format:'',
    '''',
    ''  12@345:matched line content    '' @ [CHR 0xE2] @ [CHR 0x86] @ [CHR 0x90] @ '' match (:)'',
    ''  11@331-context line content    '' @ [CHR 0xE2] @ [CHR 0x86] @ [CHR 0x90] @ '' context (-)'',
    '''',
    ''Usage:'',
    ''- pattern is a regex: `log.*Error`, `function'' @ [CHR 0x5C] @ ''s+'' @ [CHR 0x5C] @ ''w+`, `TODO`'',
    ''- Search scope defaults to the workspace root; narrow it with path and glob'',
    ''- Use after_context/before_context/context for context lines around matches (like -A/-B/-C)'',
    ''- output_mode \"files_with_matches\" lists matching paths only; \"count\" lists PATH: N'',
    ''  match counts; both are cheap discovery modes (context only applies to \"content\")'',
    ''- Respects .gitignore; hidden files and binary files are skipped''] @
    ''- Results are capped; truncated results show \"at least\" counts''"

definition GLOB_TEMPLATE :: string where
  "GLOB_TEMPLATE = text_lines [
    ''Find files by glob pattern, newest first, for use with read and edit.'',
    '''',
    ''{'',
    ''  \"pattern\": \"**/*.rs\",'',
    ''  \"path\": \"src\",'',
    ''  \"max_results\": 1000'',
    ''}'',
    '''',
    ''`*` stops at path separators; `**` crosses them. The walk respects'',
    ''.gitignore and skips hidden files. Results are paths you can pass directly'',
    ''to read, edit, and write, sorted by modification time (newest first), and'',
    ''end with: [hashline files=<N> truncated=<true|false>]'']"

text \<open>\<open>str::replace\<close> with a pattern that is not empty: the matches from left to right, each once.\<close>

function str_replace :: "string \<Rightarrow> string \<Rightarrow> string \<Rightarrow> string" where
  "str_replace pattern by [] = []"
| "str_replace pattern by (c # cs) =
     (if pattern \<noteq> [] \<and> take (length pattern) (c # cs) = pattern
      then by @ str_replace pattern by (drop (length pattern - 1) cs)
      else c # str_replace pattern by cs)"
  by pat_completeness auto

termination by (relation "measure (\<lambda>(pattern, by, s). length s)") auto

definition read_description :: string where
  "read_description = str_replace ''{max_lines_read}'' (dec_string MAX_LINES_READ) READ_TEMPLATE"

section \<open>Annotations\<close>

text \<open>A \<open>ToolAnnotations\<close> value: a title, and hints that may be left out.\<close>

record tool_annotations =
  an_title :: string
  an_read_only :: "bool option"
  an_destructive :: "bool option"
  an_idempotent :: "bool option"
  an_open_world :: "bool option"

definition read_only_annotations :: "string \<Rightarrow> tool_annotations" where
  "read_only_annotations title = \<lparr>an_title = title, an_read_only = Some True, an_destructive = None,
     an_idempotent = Some True, an_open_world = Some False\<rparr>"

definition mutating_annotations :: "string \<Rightarrow> tool_annotations" where
  "mutating_annotations title = \<lparr>an_title = title, an_read_only = Some False, an_destructive = Some True,
     an_idempotent = None, an_open_world = Some False\<rparr>"

section \<open>The listing\<close>

text \<open>\<open>schema\<close> is what \<open>schemars\<close> derives for the request type of that name.\<close>

record 'j tool =
  tl_name :: string
  tl_description :: string
  tl_schema :: 'j
  tl_annotations :: tool_annotations

definition tool_new :: "(string \<Rightarrow> 'j) \<Rightarrow> string \<Rightarrow> string \<Rightarrow> string \<Rightarrow> tool_annotations \<Rightarrow> 'j tool" where
  "tool_new schema request name description annotations =
     \<lparr>tl_name = name, tl_description = description, tl_schema = schema request, tl_annotations = annotations\<rparr>"

definition tool_listing :: "(string \<Rightarrow> 'j) \<Rightarrow> 'j tool list" where
  "tool_listing schema =
     [tool_new schema ''ReadRequest'' ''read'' read_description (read_only_annotations ''Versioned file read''),
      tool_new schema ''EditRequest'' ''edit'' EDIT_TEMPLATE (mutating_annotations ''Versioned byte-range edit''),
      tool_new schema ''WriteRequest'' ''write'' WRITE_TEMPLATE (mutating_annotations ''Versioned file create or replace''),
      tool_new schema ''GrepRequest'' ''grep'' GREP_TEMPLATE (read_only_annotations ''Versioned content search''),
      tool_new schema ''GlobRequest'' ''glob'' GLOB_TEMPLATE (read_only_annotations ''Deterministic file discovery'')]"

definition TOOLS_LIST_TTL_MS :: u64 where
  "TOOLS_LIST_TTL_MS = 5 * 60 * 1000"

datatype cache_scope = ScopePublic | ScopePrivate

record 'j tools_page =
  tp_tools :: "'j tool list"
  tp_ttl_ms :: "u64 option"
  tp_cache_scope :: "cache_scope option"

lemma tool_listing_names: "map tl_name (tool_listing schema) = [''read'', ''edit'', ''write'', ''grep'', ''glob'']"
  by (simp add: tool_listing_def tool_new_def)

lemma tool_listing_read_only:
  "tool \<in> set (tool_listing schema) \<Longrightarrow> an_read_only (tl_annotations tool) = Some True \<Longrightarrow>
    tl_name tool = ''read'' \<or> tl_name tool = ''grep'' \<or> tl_name tool = ''glob''"
  by (auto simp: tool_listing_def tool_new_def mutating_annotations_def)

end
