(* ===== verification/Server.thy ===== *)
theory Server
  imports Tool_Listing
begin

text \<open>
  The server (\<open>src/server.rs\<close>) and how the command line starts it (\<open>src/main.rs\<close>): the workspace
  root and the client roots that may replace it, the tool listing, and the dispatch of calls.
\<close>

section \<open>URIs of client roots\<close>

definition strip_prefix :: "string \<Rightarrow> string \<Rightarrow> string option" where
  "strip_prefix prefix s = (if take (length prefix) s = prefix then Some (drop (length prefix) s) else None)"

definition starts_with :: "string \<Rightarrow> string \<Rightarrow> bool" where
  "starts_with s prefix \<longleftrightarrow> strip_prefix prefix s \<noteq> None"

text \<open>\<open>decode\<close> is \<open>percent_encoding::percent_decode_str\<close>.\<close>

definition uri_path :: "string \<Rightarrow> string option" where
  "uri_path rest =
     (if starts_with rest ''/'' then Some rest
      else
        let host = hd (split_slash rest) in
        if host \<noteq> ''localhost'' then None else str_get rest (length host) (length rest))"

definition file_uri_to_path :: "(string \<Rightarrow> bytes) \<Rightarrow> string \<Rightarrow> path option" where
  "file_uri_to_path decode uri =
     Option.bind (strip_prefix ''file://'' uri) (\<lambda>rest.
     Option.bind (uri_path rest) (\<lambda>p.
     if p = [] then None
     else if utf8_ok (decode p) then Some (decode p) else None))"

section \<open>State\<close>

text \<open>
  The root is shared by the clones of the server, the other fields never change after the start;
  \<open>sv_tools\<close> is the \<open>OnceLock\<close> of the listing.
\<close>

record 'j server =
  sv_root :: path
  sv_root_pinned :: bool
  sv_restrict :: bool
  sv_durability :: durability
  sv_tools :: "'j tool list option"

text \<open>What the file system answers about a root at the time of the call.\<close>

record root_view = os_view +
  v_is_dir :: "path \<Rightarrow> bool"

definition server_new :: "'v os_view_scheme \<Rightarrow> path \<Rightarrow> 'j server" where
  "server_new view root =
     \<lparr>sv_root = (case v_canonicalize view root of Inr canonical \<Rightarrow> canonical | Inl _ \<Rightarrow> root),
      sv_root_pinned = False, sv_restrict = False, sv_durability = DurFull, sv_tools = None\<rparr>"

definition with_root_pinned :: "bool \<Rightarrow> 'j server \<Rightarrow> 'j server" where
  "with_root_pinned pinned sv = sv\<lparr>sv_root_pinned := pinned\<rparr>"

definition with_restrict :: "bool \<Rightarrow> 'j server \<Rightarrow> 'j server" where
  "with_restrict restrict sv = sv\<lparr>sv_restrict := restrict\<rparr>"

definition with_durability :: "durability \<Rightarrow> 'j server \<Rightarrow> 'j server" where
  "with_durability durability sv = sv\<lparr>sv_durability := durability\<rparr>"

definition current_root :: "'j server \<Rightarrow> path" where
  "current_root sv = sv_root sv"

text \<open>\<open>Workspace::new(root, restrict).with_durability(durability)\<close>\<close>

definition server_workspace :: "'j server \<Rightarrow> workspace" where
  "server_workspace sv = (workspace_new (current_root sv) (sv_restrict sv))\<lparr>wsp_durability := sv_durability sv\<rparr>"

section \<open>Roots\<close>

text \<open>
  Whether the candidate is the root now, and the new state.  Paths are compared by components.
\<close>

definition set_root :: "'v root_view_scheme \<Rightarrow> path \<Rightarrow> 'j server \<Rightarrow> bool \<times> 'j server" where
  "set_root view candidate sv =
     (if sv_root_pinned sv then (False, sv)
      else case v_canonicalize view candidate of
        Inl _ \<Rightarrow> (False, sv)
      | Inr canonical \<Rightarrow>
          if \<not> v_is_dir view canonical then (False, sv)
          else (True, if path_components (sv_root sv) \<noteq> path_components canonical then sv\<lparr>sv_root := canonical\<rparr> else sv))"

text \<open>
  What the peer says: its initialization info, if there is any, with the advertised capability,
  and its answer to \<open>roots/list\<close>.
\<close>

record peer =
  pe_info :: "bool option"
  pe_roots :: "string + string list"

text \<open>\<open>any(set_root)\<close> over the candidates, each against the file system as it is by then.\<close>

fun adopt_first :: "(nat \<Rightarrow> 'v root_view_scheme) \<Rightarrow> path list \<Rightarrow> 'j server \<Rightarrow> bool \<times> 'j server" where
  "adopt_first views [] sv = (False, sv)"
| "adopt_first views (candidate # rest) sv =
     (case set_root (views 0) candidate sv of
        (True, sv') \<Rightarrow> (True, sv')
      | (False, sv') \<Rightarrow> adopt_first (\<lambda>n. views (Suc n)) rest sv')"

definition adopt_client_roots :: "(string \<Rightarrow> bytes) \<Rightarrow> (nat \<Rightarrow> 'v root_view_scheme) \<Rightarrow> peer \<Rightarrow> 'j server \<Rightarrow> 'j server" where
  "adopt_client_roots decode views peer sv =
     (if sv_root_pinned sv then sv
      else case pe_info peer of
        None \<Rightarrow> sv
      | Some roots_capability \<Rightarrow>
          if \<not> roots_capability then sv
          else case pe_roots peer of
            Inl _ \<Rightarrow> sv
          | Inr uris \<Rightarrow> snd (adopt_first views (List.map_filter (file_uri_to_path decode) uris) sv))"

section \<open>Starting the server\<close>

datatype durability_arg = ArgFull | ArgBarrier | ArgNone

fun durability_of_arg :: "durability_arg \<Rightarrow> durability" where
  "durability_of_arg ArgFull = DurFull"
| "durability_of_arg ArgBarrier = DurBarrier"
| "durability_of_arg ArgNone = DurNone"

record cli =
  cli_root :: "path option"
  cli_restrict :: bool
  cli_durability :: durability_arg

text \<open>\<open>main\<close> up to the session: \<open>cwd\<close> is the answer of \<open>current_dir\<close>.\<close>

definition start_server :: "'v os_view_scheme \<Rightarrow> io_error + path \<Rightarrow> cli \<Rightarrow> string + 'j server" where
  "start_server view cwd cli =
     rbind (case cli_root cli of Some root \<Rightarrow> Inr root
            | None \<Rightarrow> map_err (\<lambda>_. ''failed to determine current directory'') cwd) (\<lambda>root.
     rbind (map_err (\<lambda>_. ''workspace root does not exist: '' @ root) (v_canonicalize view root)) (\<lambda>root.
     Inr (with_durability (durability_of_arg (cli_durability cli))
       (with_restrict (cli_restrict cli)
       (with_root_pinned (cli_root cli \<noteq> None) (server_new view root))))))"

section \<open>The listing\<close>

definition server_tools :: "(string \<Rightarrow> 'j) \<Rightarrow> 'j server \<Rightarrow> 'j tool list \<times> 'j server" where
  "server_tools schema sv =
     (case sv_tools sv of
        Some listing \<Rightarrow> (listing, sv)
      | None \<Rightarrow> (tool_listing schema, sv\<lparr>sv_tools := Some (tool_listing schema)\<rparr>))"

definition tools_result :: "(string \<Rightarrow> 'j) \<Rightarrow> 'j server \<Rightarrow> 'j tools_page \<times> 'j server" where
  "tools_result schema sv =
     (let (listing, sv') = server_tools schema sv in
      (\<lparr>tp_tools = listing, tp_ttl_ms = Some TOOLS_LIST_TTL_MS, tp_cache_scope = Some ScopePublic\<rparr>, sv'))"

section \<open>Dispatch\<close>

text \<open>
  What a call needs besides the server: the decoders \<open>serde\<close> derives for the requests and the
  encoders for the answers, the rendering of a failed join, and what the tools themselves need.
\<close>

record 'j backend =
  be_read_args :: "'j \<Rightarrow> string + read_request"
  be_edit_args :: "'j \<Rightarrow> string + edit_request"
  be_write_args :: "'j \<Rightarrow> string + write_request"
  be_grep_args :: "'j \<Rightarrow> string + grep_request"
  be_glob_args :: "'j \<Rightarrow> string + glob_request"
  be_error :: "protocol_error \<Rightarrow> string + string"
  be_edit_success :: "edit_success \<Rightarrow> string + string"
  be_write_success :: "write_success \<Rightarrow> string + string"
  be_join :: string
  be_hashing :: hashing
  be_externs :: externs
  be_view :: os_view
  be_grep :: grep_env
  be_glob :: glob_env

datatype mcp_error = InvalidParams string | InternalError string

record call_result =
  cr_content :: "string list"
  cr_is_error :: bool

definition call_result_of :: "tool_outcome \<Rightarrow> call_result" where
  "call_result_of outcome = \<lparr>cr_content = [to_text outcome], cr_is_error = to_is_error outcome\<rparr>"

definition run_grep :: "(protocol_error \<Rightarrow> string + string) \<Rightarrow> grep_env \<Rightarrow> workspace \<Rightarrow> grep_request \<Rightarrow> unit fault + tool_outcome" where
  "run_grep encode env ws input =
     (case grep_run env ws input of
        Inr t \<Rightarrow> Inr (outcome_success t)
      | Inl (Err e) \<Rightarrow> Inr (protocol_outcome encode e)
      | Inl Panic \<Rightarrow> Inl Panic)"

definition bad_arguments :: "string \<Rightarrow> string \<Rightarrow> tool_outcome" where
  "bad_arguments name e = outcome_error (''Invalid arguments for '' @ name @ '': '' @ e)"

text \<open>A task on the blocking pool that panics is an infrastructure failure.\<close>

definition blocking_task :: "string \<Rightarrow> string \<Rightarrow> unit fault + tool_outcome \<Rightarrow> mcp_error fault + tool_outcome" where
  "blocking_task join name r = map_err (\<lambda>_. Err (InternalError (name @ '' task failed: '' @ join))) r"

definition call_outcome ::
    "'j backend \<Rightarrow> 'j server \<Rightarrow> string \<Rightarrow> 'j \<Rightarrow> ('z process_scheme, mcp_error fault, tool_outcome) comp" where
  "call_outcome be sv name arguments =
     (let ws = server_workspace sv; malformed = (\<lambda>e. ret (bad_arguments name e)) in
      if name = ''read'' then
        case_sum malformed (\<lambda>input. with_err (\<lambda>_. Panic)
          (run_read (be_hashing be) (be_externs be) (be_join be) (be_view be) (be_error be) ws input)) (be_read_args be arguments)
      else if name = ''edit'' then
        case_sum malformed (run_edit (be_hashing be) (be_externs be) (be_join be) (be_view be) (be_error be) (be_edit_success be) ws)
          (be_edit_args be arguments)
      else if name = ''write'' then
        case_sum malformed (run_write (be_hashing be) (be_externs be) (be_join be) (be_view be) (be_error be) (be_write_success be) ws)
          (be_write_args be arguments)
      else if name = ''grep'' then
        case_sum malformed (\<lambda>input. lift (blocking_task (be_join be) name (run_grep (be_error be) (be_grep be) ws input)))
          (be_grep_args be arguments)
      else if name = ''glob'' then
        case_sum malformed (\<lambda>input. lift (blocking_task (be_join be) name (run_glob (be_error be) (be_glob be) ws input)))
          (be_glob_args be arguments)
      else raise (Err (InvalidParams (''Unknown tool: '' @ name))))"

definition dispatch :: "'j backend \<Rightarrow> 'j server \<Rightarrow> string \<Rightarrow> 'j \<Rightarrow> ('z process_scheme, mcp_error fault, call_result) comp" where
  "dispatch be sv name arguments = bind (call_outcome be sv name arguments) (\<lambda>outcome. ret (call_result_of outcome))"

text \<open>\<open>call_tool\<close>: missing arguments are the empty object; \<open>object\<close> is \<open>Value::Object\<close>.\<close>

definition call_tool ::
    "('m list \<Rightarrow> 'j) \<Rightarrow> 'j backend \<Rightarrow> 'j server \<Rightarrow> string \<Rightarrow> 'm list option \<Rightarrow> ('z process_scheme, mcp_error fault, call_result) comp" where
  "call_tool object be sv name arguments = dispatch be sv name (object (case_option [] id arguments))"

end
