(* ===== verification/Server_Policy.thy ===== *)
theory Server_Policy
  imports Server
begin

text \<open>
  What the server promises about its root and its listing: a step relation for the handlers that
  change its state, and which files a call may touch.
\<close>

section \<open>URIs\<close>

lemma strip_prefix_eq: "strip_prefix prefix s = Some t \<longleftrightarrow> s = prefix @ t"
  by (auto simp: strip_prefix_def) (metis append_take_drop_id)

lemma starts_with_iff: "starts_with s prefix \<longleftrightarrow> (\<exists>t. s = prefix @ t)"
  using strip_prefix_eq [of prefix s] unfolding starts_with_def by auto

lemma split_slash_localhost: "hd (split_slash s) = ''localhost'' \<longleftrightarrow> (\<exists>t. s = ''localhost'' @ t \<and> (t = [] \<or> hd t = SLASH))"
proof -
  have hd: "hd (split_slash s) = takeWhile (\<lambda>c. c \<noteq> SLASH) s" for s
    by (induction s rule: split_slash.induct) (auto split: list.splits)
  have "takeWhile (\<lambda>c. c \<noteq> SLASH) s = ''localhost'' \<longleftrightarrow> (\<exists>t. s = ''localhost'' @ t \<and> (t = [] \<or> hd t = SLASH))"
  proof
    assume L: "takeWhile (\<lambda>c. c \<noteq> SLASH) s = ''localhost''"
    then have "s = ''localhost'' @ dropWhile (\<lambda>c. c \<noteq> SLASH) s" by (metis takeWhile_dropWhile_id)
    moreover have "dropWhile (\<lambda>c. c \<noteq> SLASH) s = [] \<or> hd (dropWhile (\<lambda>c. c \<noteq> SLASH) s) = SLASH"
      using hd_dropWhile [of "\<lambda>c. c \<noteq> SLASH" s] by auto
    ultimately show "\<exists>t. s = ''localhost'' @ t \<and> (t = [] \<or> hd t = SLASH)" by blast
  next
    assume "\<exists>t. s = ''localhost'' @ t \<and> (t = [] \<or> hd t = SLASH)"
    then obtain t where t: "s = ''localhost'' @ t" "t = [] \<or> hd t = SLASH" by blast
    then have "takeWhile (\<lambda>c. c \<noteq> SLASH) t = []" by (cases t) auto
    then show "takeWhile (\<lambda>c. c \<noteq> SLASH) s = ''localhost''" using t by (simp add: takeWhile_append)
  qed
  then show ?thesis by (simp add: hd)
qed

lemma localhost_get: "str_get (''localhost'' @ t) 9 (length (''localhost'' @ t)) = (if t = [] \<or> \<not> is_cont (hd t) then Some t else None)"
  by (cases t) (auto simp: str_get_def char_boundary_def nth_append)

lemma uri_path_iff:
  "uri_path rest = Some p \<and> p \<noteq> [] \<longleftrightarrow> p \<noteq> [] \<and> hd p = SLASH \<and> (rest = p \<or> rest = ''localhost'' @ p)"
proof (cases "starts_with rest ''/''")
  case True
  then obtain t where "rest = ''/'' @ t" by (auto simp: starts_with_iff)
  then show ?thesis using True by (auto simp: uri_path_def)
next
  case False
  then have hd: "\<not> (rest \<noteq> [] \<and> hd rest = SLASH)" by (cases rest) (auto simp: starts_with_iff)
  have cont: "\<not> is_cont SLASH" by (simp add: is_cont_def code_of_def)
  show ?thesis
  proof (cases "hd (split_slash rest) = ''localhost''")
    case True
    then obtain t where t: "rest = ''localhost'' @ t" "t = [] \<or> hd t = SLASH" by (auto simp: split_slash_localhost)
    then have "uri_path rest = Some t"
      using False True localhost_get [of t] cont by (auto simp: uri_path_def Let_def numeral_eq_Suc)
    then show ?thesis using t hd by auto
  next
    case other: False
    then have "uri_path rest = None" using False by (simp add: uri_path_def Let_def)
    then show ?thesis using other hd by (auto simp: split_slash_localhost)
  qed
qed

section \<open>Steps\<close>

text \<open>
  A session: a background task tries one root candidate of the client, or a client lists the
  tools.  Two tasks may be at work at once; each try takes effect in one step under the lock.
\<close>

inductive server_step :: "(string \<Rightarrow> bytes) \<Rightarrow> (string \<Rightarrow> 'j) \<Rightarrow> 'j server \<Rightarrow> 'j server \<Rightarrow> bool"
  for decode schema where
  try_root: "file_uri_to_path decode uri = Some candidate \<Longrightarrow> set_root (view :: root_view) candidate sv = (adopted, sv') \<Longrightarrow>
    server_step decode schema sv sv'"
| list_tools: "tools_result schema sv = (listing, sv') \<Longrightarrow> server_step decode schema sv sv'"

inductive server_reach :: "(string \<Rightarrow> bytes) \<Rightarrow> (string \<Rightarrow> 'j) \<Rightarrow> 'j server \<Rightarrow> 'j server \<Rightarrow> bool"
  for decode schema sv0 where
  reach_start: "server_reach decode schema sv0 sv0"
| reach_step: "server_reach decode schema sv0 sv \<Longrightarrow> server_step decode schema sv sv' \<Longrightarrow> server_reach decode schema sv0 sv'"

lemma server_reach_trans:
  "server_reach decode schema b c \<Longrightarrow> server_reach decode schema a b \<Longrightarrow> server_reach decode schema a c"
  by (induction rule: server_reach.induct) (auto intro: reach_step)

text \<open>A usable root: one the client named, canonical and a directory when it was tried.\<close>

definition client_root :: "(string \<Rightarrow> bytes) \<Rightarrow> path \<Rightarrow> bool" where
  "client_root decode root \<longleftrightarrow> (\<exists>uri candidate (view :: root_view).
     file_uri_to_path decode uri = Some candidate \<and> v_canonicalize view candidate = Inr root \<and> v_is_dir view root)"

definition session_ok :: "(string \<Rightarrow> bytes) \<Rightarrow> (string \<Rightarrow> 'j) \<Rightarrow> 'j server \<Rightarrow> 'j server \<Rightarrow> bool" where
  "session_ok decode schema sv0 sv \<longleftrightarrow>
     sv_root_pinned sv = sv_root_pinned sv0 \<and> sv_restrict sv = sv_restrict sv0 \<and> sv_durability sv = sv_durability sv0 \<and>
     (sv_root sv = sv_root sv0 \<or> \<not> sv_root_pinned sv0 \<and> client_root decode (sv_root sv)) \<and>
     (sv_tools sv = sv_tools sv0 \<or> sv_tools sv = Some (tool_listing schema))"

lemma set_root_session:
  assumes "session_ok decode schema sv0 sv" "file_uri_to_path decode uri = Some candidate"
    and "set_root (view :: root_view) candidate sv = (adopted, sv')"
  shows "session_ok decode schema sv0 sv'"
proof (cases "sv' = sv")
  case False
  then obtain root where root: "\<not> sv_root_pinned sv" "v_canonicalize view candidate = Inr root" "v_is_dir view root"
    "sv' = sv\<lparr>sv_root := root\<rparr>"
    using assms(3) by (auto simp: set_root_def split: if_splits sum.splits)
  then have "client_root decode root" using assms(2) unfolding client_root_def by blast
  then show ?thesis using assms(1) root by (simp add: session_ok_def)
qed (use assms(1) in simp)

lemma step_session_ok: "server_step decode schema sv sv' \<Longrightarrow> session_ok decode schema sv0 sv \<Longrightarrow> session_ok decode schema sv0 sv'"
proof (induction rule: server_step.induct)
  case (try_root uri candidate view sv adopted sv')
  then show ?case using set_root_session by blast
next
  case (list_tools sv listing sv')
  then show ?case by (auto simp: session_ok_def tools_result_def server_tools_def split: option.splits)
qed

lemma reach_session_ok: "server_reach decode schema sv0 sv \<Longrightarrow> session_ok decode schema sv0 sv"
  by (induction rule: server_reach.induct) (simp add: session_ok_def, rule step_session_ok)

section \<open>Adoption\<close>

text \<open>The roots of the candidates that can be used, in order, each at the time it is tried.\<close>

fun usable_roots :: "(nat \<Rightarrow> 'v root_view_scheme) \<Rightarrow> path list \<Rightarrow> path list" where
  "usable_roots views [] = []"
| "usable_roots views (candidate # rest) =
     (case v_canonicalize (views 0) candidate of
        Inr canonical \<Rightarrow> if v_is_dir (views 0) canonical then [canonical] else []
      | Inl _ \<Rightarrow> []) @ usable_roots (\<lambda>n. views (Suc n)) rest"

lemma adopt_first_run:
  "\<not> sv_root_pinned sv \<Longrightarrow> adopt_first views candidates sv =
    (case usable_roots views candidates of [] \<Rightarrow> (False, sv)
     | root # _ \<Rightarrow> (True, if path_components root = path_components (sv_root sv) then sv else sv\<lparr>sv_root := root\<rparr>))"
proof (induction candidates arbitrary: views)
  case Nil
  then show ?case by simp
next
  case (Cons c cs)
  then show ?case by (auto simp: set_root_def split: sum.splits)
qed

lemma adopt_first_reach:
  "\<forall>c\<in>set candidates. \<exists>uri. file_uri_to_path decode uri = Some c \<Longrightarrow>
    server_reach decode schema sv (snd (adopt_first (views :: nat \<Rightarrow> root_view) candidates sv))"
proof (induction candidates arbitrary: views sv)
  case Nil
  then show ?case by (simp add: reach_start)
next
  case (Cons c cs)
  obtain uri where uri: "file_uri_to_path decode uri = Some c" using Cons.prems by auto
  obtain ok sv' where set: "set_root (views 0) c sv = (ok, sv')" by fastforce
  have one: "server_reach decode schema sv sv'" by (rule reach_step [OF reach_start try_root [OF uri set]])
  show ?case
  proof (cases ok)
    case True
    then show ?thesis using one set by simp
  next
    case False
    have "server_reach decode schema sv' (snd (adopt_first (\<lambda>n. views (Suc n)) cs sv'))"
      by (rule Cons.IH) (use Cons.prems in simp)
    then show ?thesis using server_reach_trans [OF _ one] set False by simp
  qed
qed

lemma adopt_reach: "server_reach decode schema sv (adopt_client_roots decode (views :: nat \<Rightarrow> root_view) peer sv)"
proof -
  have "\<forall>c\<in>set (List.map_filter (file_uri_to_path decode) uris). \<exists>uri. file_uri_to_path decode uri = Some c" for uris
    by (auto simp: map_filter_def)
  then show ?thesis
    unfolding adopt_client_roots_def
    by (auto intro!: reach_start adopt_first_reach split: option.split sum.split)
qed

section \<open>Tools that only read\<close>

lemma steady_sections [steady_rules]: "steady (locked act)" "steady (holding f)"
  by (auto intro!: steadyI rgI simp: locked_def holding_def host_of_def holds_def Let_def split: prod.splits)

lemma steady_current_stamp [steady_rules]: "steady (current_stamp p)"
  unfolding current_stamp_def by (auto intro!: steady_rules)

lemma steady_get_or_load [steady_rules]:
  assumes "steady loader"
  shows "steady (get_or_load hs p loader)"
proof -
  have "steady (verify_racy_resident hs p :: ('a process_scheme, snapshot_error, snapshot option) comp)"
    unfolding verify_racy_resident_def read_verified_def by (auto intro!: steady_rules split: option.split)
  moreover have "steady (stamped_hit hs p :: ('a process_scheme, snapshot_error, snapshot option) comp)"
    unfolding stamped_hit_def by (auto intro!: steady_rules split: option.split)
  moreover have "steady (load_into_cell hs p loader cell)" for cell
    unfolding load_into_cell_def using assms by (auto intro!: steady_rules)
  ultimately show ?thesis
    unfolding get_or_load_def by (auto intro!: steady_rules split: option.split sum.split inflight_state.split)
qed

lemma steady_run_read: "steady (run_read hs x join view encode ws input)"
proof -
  have "steady (load_shared hs x join p blocking :: ('a process_scheme, protocol_error fault, snapshot) comp)" for p blocking
    unfolding load_shared_def spawn_blocking_def Let_def by (auto intro!: steady_rules)
  then have "steady (read_run hs x join view ws input :: ('a process_scheme, protocol_error fault, string) comp)"
    unfolding read_run_def reads_blocking_def by (auto intro!: steady_rules)
  then show ?thesis
    unfolding run_read_def by (auto intro!: steady_rules split: fault.split)
qed

lemma steady_read_only_call:
  assumes "tool \<in> set (tool_listing schema)" "an_read_only (tl_annotations tool) = Some True"
  shows "steady (dispatch be sv (tl_name tool) arguments)"
proof -
  have "steady (call_outcome be sv (tl_name tool) arguments)"
    using tool_listing_read_only [OF assms] unfolding call_outcome_def Let_def
    by (auto intro!: steady_rules steady_run_read split: sum.split)
  then show ?thesis unfolding dispatch_def by (auto intro!: steady_rules)
qed

section \<open>Properties\<close>

text \<open>
  Property C20.  The root of a running server, after any interleaving of root candidates and listings:
  a root given on the command line never changes; otherwise the root is the one of the start or
  a path that a \<open>file://\<close> URI of the client named, canonical and a directory when it was tried.
  Confinement, durability and the listing are those of the start throughout.
\<close>

theorem root_policy:
  assumes "start_server view cwd cli = Inr sv0" and "server_reach decode schema sv0 sv"
  shows "(cli_root cli \<noteq> None \<longrightarrow> sv_root sv = sv_root sv0) \<and>
     (sv_root sv = sv_root sv0 \<or> client_root decode (sv_root sv)) \<and>
     sv_restrict sv = cli_restrict cli \<and> sv_durability sv = durability_of_arg (cli_durability cli) \<and>
     fst (server_tools schema sv) = tool_listing schema"
proof -
  have start: "sv_root_pinned sv0 \<longleftrightarrow> cli_root cli \<noteq> None" "sv_restrict sv0 = cli_restrict cli"
    "sv_durability sv0 = durability_of_arg (cli_durability cli)" "sv_tools sv0 = None"
    using assms(1) unfolding start_server_def rbind_eq_Inr
    by (auto simp: with_durability_def with_restrict_def with_root_pinned_def server_new_def)
  then show ?thesis
    using reach_session_ok [OF assms(2)] by (auto simp: session_ok_def server_tools_def)
qed

definition one_dir :: root_view where
  "one_dir = os_view.extend \<lparr>v_exists = \<lambda>p. True, v_canonicalize = \<lambda>p. Inr p\<rparr> \<lparr>v_is_dir = \<lambda>p. p = ''/a''\<rparr>"

lemma one_dir_simps: "v_canonicalize one_dir p = Inr p" "v_is_dir one_dir p \<longleftrightarrow> p = ''/a''"
  by (simp_all add: one_dir_def os_view.defs)

theorem root_policy_witness:
  "\<exists>sv0 :: unit server. start_server one_dir (Inr ''/x'') \<lparr>cli_root = Some ''/r'', cli_restrict = True, cli_durability = ArgNone\<rparr> = Inr sv0 \<and>
     sv_root (adopt_client_roots id (\<lambda>n. one_dir) \<lparr>pe_info = Some True, pe_roots = Inr [''file:///a'']\<rparr> sv0) = sv_root sv0"
proof -
  let ?cli = "\<lparr>cli_root = Some ''/r'', cli_restrict = True, cli_durability = ArgNone\<rparr>"
  let ?peer = "\<lparr>pe_info = Some True, pe_roots = Inr [''file:///a'']\<rparr>"
  obtain sv0 :: "unit server" where sv0: "start_server one_dir (Inr ''/x'') ?cli = Inr sv0"
    by (simp add: start_server_def one_dir_simps)
  from root_policy [OF sv0 adopt_reach] have "sv_root (adopt_client_roots id (\<lambda>n. one_dir) ?peer sv0) = sv_root sv0" by simp
  then show ?thesis using sv0 by blast
qed

text \<open>
  Property C30.  Which URI names which path: exactly \<open>file://\<close> with an empty or a \<open>localhost\<close>
  authority and an absolute path whose percent-decoding is valid UTF-8; the result is that
  decoding.
\<close>

theorem file_uri_paths:
  "file_uri_to_path decode uri = Some root \<longleftrightarrow>
     (\<exists>p. (uri = ''file://'' @ p \<or> uri = ''file://localhost'' @ p) \<and> p \<noteq> [] \<and> hd p = SLASH \<and>
        utf8_ok (decode p) \<and> root = decode p)"
proof -
  have split: "''file://localhost'' @ p = ''file://'' @ (''localhost'' @ p)" for p by simp
  have "file_uri_to_path decode uri = Some root \<longleftrightarrow>
     (\<exists>rest p. uri = ''file://'' @ rest \<and> (uri_path rest = Some p \<and> p \<noteq> []) \<and> utf8_ok (decode p) \<and> root = decode p)"
    by (auto simp: file_uri_to_path_def Option.bind_eq_Some_conv strip_prefix_eq split: if_splits)
  then show ?thesis unfolding uri_path_iff split by blast
qed

text \<open>
  Adoption of client roots: a server that is not pinned, with a client that advertises
  the capability and answers the query, takes the first of its roots that is a usable directory
  when it is tried (keeping the spelling it has for an equal path), and keeps its root when there
  is none; in every other case nothing changes.
\<close>

theorem client_roots_adopted:
  "adopt_client_roots decode views peer sv =
     (case (sv_root_pinned sv, pe_info peer, pe_roots peer) of
        (False, Some True, Inr uris) \<Rightarrow>
          (case usable_roots views (List.map_filter (file_uri_to_path decode) uris) of
             [] \<Rightarrow> sv | root # _ \<Rightarrow> if path_components root = path_components (sv_root sv) then sv else sv\<lparr>sv_root := root\<rparr>)
      | _ \<Rightarrow> sv)"
  by (auto simp: adopt_client_roots_def adopt_first_run split: option.split sum.split list.split bool.split)

text \<open>
  Property C29.  The annotations are honest: a call of a tool that the listing declares read-only
  changes the content of no file, whatever its arguments are, whatever other processes do
  meanwhile and whatever fails.
\<close>

theorem read_only_tools_keep_files:
  assumes "tool \<in> set (fst (server_tools schema sv))" and "server_reach decode schema (server_new view root) sv"
    and "an_read_only (tl_annotations tool) = Some True"
    and "dispatch be sv (tl_name tool) arguments w = (r, w')"
  shows "kept (w_log w) p (w_log w')"
proof -
  have "sv_tools sv = None \<or> sv_tools sv = Some (tool_listing schema)"
    using reach_session_ok [OF assms(2)] by (auto simp: session_ok_def server_new_def)
  then have "tool \<in> set (tool_listing schema)" using assms(1) by (auto simp: server_tools_def)
  from steady_kept [OF steady_read_only_call [OF this assms(3)] assms(4)] show ?thesis by simp
qed

text \<open>A backend whose requests are fixed: reading \<open>/f\<close>, everything else malformed.\<close>

definition plain_backend :: "unit backend" where
  "plain_backend =
     \<lparr>be_read_args = \<lambda>_. Inr \<lparr>rr_path = ''/f'', rr_limit = 1, rr_cursor = None, rr_start_line = None\<rparr>,
      be_edit_args = \<lambda>_. Inl ''?'', be_write_args = \<lambda>_. Inl ''?'', be_grep_args = \<lambda>_. Inl ''?'', be_glob_args = \<lambda>_. Inl ''?'',
      be_error = \<lambda>e. Inr (pe_message e), be_edit_success = \<lambda>_. Inr ''ok'', be_write_success = \<lambda>_. Inr ''ok'',
      be_join = ''panic'', be_hashing = depth_hashing, be_externs = plain_externs,
      be_view = \<lparr>v_exists = \<lambda>p. True, v_canonicalize = \<lambda>p. Inr p\<rparr>,
      be_grep = \<lparr>ge_externs = plain_externs, ge_lossy = id, ge_view = \<lparr>v_exists = \<lambda>p. True, v_canonicalize = \<lambda>p. Inr p\<rparr>,
        ge_regex = \<lambda>p i. Inl ''?'', ge_override = \<lambda>p g. None, ge_is_file = \<lambda>p. Inr False, ge_read = \<lambda>p. Inr [],
        ge_schedule = \<lambda>p g. [], ge_drops = []\<rparr>,
      be_glob = \<lparr>genv_view = \<lparr>v_exists = \<lambda>_. True, v_canonicalize = Inr\<rparr>, genv_glob = \<lambda>_. Inl ''?'',
        genv_is_dir = \<lambda>_. Inr True, genv_walk = \<lambda>_. []\<rparr>\<rparr>"

theorem read_only_tools_keep_files_witness:
  "\<exists>r w'. dispatch plain_backend (server_new one_dir ''/a'') ''read'' () (small_process (with_capacity 2)) = (r, w') \<and>
     kept [] ''/f'' (w_log w')"
proof -
  let ?sv = "server_new one_dir ''/a'' :: unit server" and ?w = "small_process (with_capacity 2)"
  let ?tool = "tool_new (\<lambda>_. ()) ''ReadRequest'' ''read'' read_description (read_only_annotations ''Versioned file read'')"
  obtain r w' where run: "dispatch plain_backend ?sv (tl_name ?tool) () ?w = (r, w')" by (metis surj_pair)
  have listed: "?tool \<in> set (fst (server_tools (\<lambda>_. ()) ?sv))"
    by (simp add: server_tools_def server_new_def tool_listing_def)
  have "an_read_only (tl_annotations ?tool) = Some True" by (simp add: tool_new_def read_only_annotations_def)
  from read_only_tools_keep_files [OF listed reach_start this run]
  have "kept (w_log ?w) ''/f'' (w_log w')" .
  then show ?thesis using run by (auto simp: small_process_def world.defs small_world_def tool_new_def)
qed

end
