(* ===== verification/Cache_Sound.thy ===== *)
theory Cache_Sound
  imports Server_Policy
begin

text \<open>
  What the cache is good for: a property of all entries that are put into it is a property of all
  entries it has, whatever the other threads do.  For a property of snapshots that means that the
  cache serves only snapshots that have it; the tools put in only well-formed ones.
\<close>

section \<open>A cache of good entries\<close>

text \<open>
  All entries satisfy \<open>Q\<close>, the loads in flight have their cells, and a load that has settled gave
  a snapshot with \<open>P\<close>.
\<close>

definition shard_all :: "(cache_entry \<Rightarrow> bool) \<Rightarrow> nat \<Rightarrow> shard \<Rightarrow> bool" where
  "shard_all Q n s \<longleftrightarrow> (\<forall>(k, e) \<in> set (sh_map s). Q e) \<and> (\<forall>(k, cell) \<in> set (sh_inflight s). cell < n)"

definition cache_all :: "(cache_entry \<Rightarrow> bool) \<Rightarrow> (snapshot \<Rightarrow> bool) \<Rightarrow> cache \<Rightarrow> bool" where
  "cache_all Q P ca \<longleftrightarrow> length (ca_shards ca) = SHARD_COUNT \<and>
     (\<forall>s \<in> set (ca_shards ca). shard_all Q (length (ca_cells ca)) s) \<and>
     (\<forall>snap. Ready (Inr snap) \<in> set (ca_cells ca) \<longrightarrow> P snap)"

lemma shard_all_more: "shard_all Q n s \<Longrightarrow> n \<le> m \<Longrightarrow> shard_all Q m s"
  by (auto simp: shard_all_def)

lemma drop_entry_all: "shard_all Q n s \<Longrightarrow> shard_all Q n (drop_entry key s)"
  by (auto simp: shard_all_def drop_entry_def split: option.splits dest!: set_delete)

lemma evict_all: "shard_all Q n s \<Longrightarrow> shard_all Q n (evict hs capacity bytes s)"
proof (induction hs capacity bytes s rule: evict.induct)
  case (1 hs capacity bytes s)
  then show ?case by (subst evict.simps) (simp add: drop_entry_all)
qed

definition entry_of :: "snapshot \<Rightarrow> cache_entry" where
  "entry_of snap = \<lparr>en_snapshot = snap, en_bytes = sn_byte_len snap, en_stamp = sn_stamp snap\<rparr>"

lemma entry_of_fields [simp]: "en_snapshot (entry_of snap) = snap" "en_stamp (entry_of snap) = sn_stamp snap"
  by (simp_all add: entry_of_def)

lemma insert_entry_all: "shard_all Q n s \<Longrightarrow> Q (entry_of snap) \<Longrightarrow> shard_all Q n (insert_entry hs capacity key snap s)"
  using evict_all [OF drop_entry_all, of Q n s hs capacity "sn_byte_len snap" key]
  by (fastforce simp: insert_entry_def entry_of_def Let_def shard_all_def dest!: set_update)

lemma shard_of_all: "cache_all Q P ca \<Longrightarrow> shard_all Q (length (ca_cells ca)) (shard_of hs p ca)"
  by (simp add: cache_all_def shard_of_def shard_index_less)

lemma set_shard_all:
  "cache_all Q P ca \<Longrightarrow> shard_all Q (length (ca_cells ca)) s \<Longrightarrow> cache_all Q P (set_shard hs p s ca)"
  by (auto simp: cache_all_def set_shard_def dest!: set_update_subset_insert [THEN subsetD])

lemma set_shard_cells [simp]: "ca_cells (set_shard hs p s ca) = ca_cells ca"
  by (simp add: set_shard_def)

lemma resident_all: "cache_all Q P ca \<Longrightarrow> resident hs p ca = Some e \<Longrightarrow> Q e"
  using shard_of_all [of Q P ca hs p] by (auto simp: resident_def shard_all_def dest!: map_of_SomeD)

text \<open>The critical sections keep it and never give up a cell.\<close>

definition section_all :: "(cache_entry \<Rightarrow> bool) \<Rightarrow> (snapshot \<Rightarrow> bool) \<Rightarrow> (cache \<Rightarrow> cache) \<Rightarrow> bool" where
  "section_all Q P f \<longleftrightarrow> (\<forall>ca. cache_all Q P ca \<longrightarrow> cache_all Q P (f ca) \<and> length (ca_cells ca) \<le> length (ca_cells (f ca)))"

named_theorems section_rules

lemma section_insert [section_rules]: "Q (entry_of snap) \<Longrightarrow> section_all Q P (cache_insert hs p snap)"
  by (auto simp: section_all_def cache_insert_def intro!: set_shard_all insert_entry_all shard_of_all)

lemma refresh_all:
  assumes ca: "cache_all Q P ca"
    and "\<And>e. resident hs p ca = Some e \<Longrightarrow> Q e \<Longrightarrow> stamp_opt_eq (en_stamp e) (Some entry_stamp) \<Longrightarrow> Q (e\<lparr>en_stamp := Some after\<rparr>)"
  shows "cache_all Q P (refresh_entry hs p entry_stamp after ca)"
proof -
  have "shard_all Q (length (ca_cells ca)) ((shard_of hs p ca)\<lparr>sh_map := AList.update (path_components p) (e\<lparr>en_stamp := Some after\<rparr>) (sh_map (shard_of hs p ca))\<rparr>)"
    if "resident hs p ca = Some e" "stamp_opt_eq (en_stamp e) (Some entry_stamp)" for e
    using shard_of_all [OF ca, of hs p] assms(2) [OF that(1) resident_all [OF ca that(1)] that(2)]
    by (fastforce simp: shard_all_def dest!: set_update)
  then show ?thesis
    using ca by (auto simp: refresh_entry_def Let_def intro!: set_shard_all split: option.split)
qed

lemma section_refresh:
  assumes "\<And>e. Q e \<Longrightarrow> stamp_opt_eq (en_stamp e) (Some entry_stamp) \<Longrightarrow> Q (e\<lparr>en_stamp := Some after\<rparr>)"
  shows "section_all Q P (refresh_entry hs p entry_stamp after)"
  unfolding section_all_def
proof (intro allI impI conjI)
  fix ca assume "cache_all Q P ca"
  then show "cache_all Q P (refresh_entry hs p entry_stamp after ca)" using assms by (rule refresh_all)
  show "length (ca_cells ca) \<le> length (ca_cells (refresh_entry hs p entry_stamp after ca))"
    by (simp add: refresh_entry_def Let_def split: option.split)
qed

lemma join_all:
  assumes "cache_all Q P ca" "join_flight hs p ca = (cell, ca')"
  shows "cache_all Q P ca'" "length (ca_cells ca) \<le> length (ca_cells ca')" "cell < length (ca_cells ca')"
proof -
  let ?s = "shard_of hs p ca" and ?n = "length (ca_cells ca)"
  have s: "shard_all Q ?n ?s" by (rule shard_of_all [OF assms(1)])
  have "cache_all Q P ca' \<and> ?n \<le> length (ca_cells ca') \<and> cell < length (ca_cells ca')"
  proof (cases "map_of (sh_inflight ?s) (path_components p)")
    case (Some c)
    then show ?thesis using assms s by (auto simp: join_flight_def Let_def shard_all_def dest!: map_of_SomeD)
  next
    case None
    let ?t = "?s\<lparr>sh_inflight := AList.update (path_components p) ?n (sh_inflight ?s)\<rparr>"
    have t: "shard_all Q (Suc ?n) ?t" using s by (fastforce simp: shard_all_def dest!: set_update)
    have "ca_shards (set_shard hs p ?t ca) = (ca_shards ca)[shard_index hs p := ?t]" by (simp add: set_shard_def)
    moreover have "\<forall>u \<in> set (ca_shards ca). shard_all Q (Suc ?n) u"
      using assms(1) shard_all_more unfolding cache_all_def by fastforce
    ultimately have "cache_all Q P ((set_shard hs p ?t ca)\<lparr>ca_cells := ca_cells ca @ [Pending]\<rparr>)"
      using assms(1) t by (auto simp: cache_all_def dest!: set_update_subset_insert [THEN subsetD])
    then show ?thesis using assms(2) None by (auto simp: join_flight_def Let_def)
  qed
  then show "cache_all Q P ca'" "?n \<le> length (ca_cells ca')" "cell < length (ca_cells ca')" by auto
qed

lemma claim_all:
  assumes "cache_all Q P ca" "claim_cell hs p stamp ca = (claimed, ca')"
  shows "cache_all Q P ca' \<and> length (ca_cells ca) \<le> length (ca_cells ca') \<and>
    (case claimed of Inl snap \<Rightarrow> \<exists>e. resident hs p ca = Some e \<and> entry_fits stamp e \<and> snap = en_snapshot e | Inr cell \<Rightarrow> cell < length (ca_cells ca'))"
proof -
  have dropped: "cache_all Q P (set_shard hs p (drop_entry (path_components p) (shard_of hs p ca)) ca)"
    by (intro set_shard_all drop_entry_all shard_of_all [OF assms(1)] assms(1))
  show ?thesis
    using assms join_all [OF assms(1)] join_all [OF dropped]
    by (fastforce simp: claim_cell_def split: option.splits if_splits prod.splits)
qed

lemma section_claim [section_rules]: "section_all Q P (\<lambda>ca. snd (claim_cell hs p stamp ca))"
  unfolding section_all_def by (metis claim_all prod.collapse)

lemma section_set_cell [section_rules]:
  "(\<And>snap. state = Ready (Inr snap) \<Longrightarrow> P snap) \<Longrightarrow> section_all Q P (set_cell cell state)"
  by (auto simp: section_all_def set_cell_def cache_all_def dest!: set_update_subset_insert [THEN subsetD])

lemma flight_cleared_all: "shard_all Q n s \<Longrightarrow> shard_all Q n (s\<lparr>sh_inflight := AList.delete k (sh_inflight s)\<rparr>)"
  by (auto simp: shard_all_def dest!: set_delete)

lemma section_clear [section_rules]: "section_all Q P (clear_inflight hs p)"
  by (auto simp: section_all_def clear_inflight_def Let_def intro!: set_shard_all flight_cleared_all shard_of_all)

lemma section_invalidate [section_rules]: "section_all Q P (cache_invalidate hs p)"
  using flight_cleared_all [OF drop_entry_all [OF shard_of_all]]
  by (auto simp: section_all_def cache_invalidate_def Let_def intro!: set_shard_all)

lemma with_capacity_all [simp]: "cache_all Q P (with_capacity capacity)"
  by (auto simp: cache_all_def with_capacity_def shard_all_def shard_default_def)

section \<open>Loads through the cache\<close>

text \<open>The thread's view: the cache is good, has at least \<open>n\<close> cells, and the other threads keep it so.\<close>

abbreviation cache_good :: "(snapshot \<Rightarrow> bool) \<Rightarrow> cache \<Rightarrow> bool" where
  "cache_good P \<equiv> cache_all (\<lambda>e. P (en_snapshot e)) P"

abbreviation section_good :: "(snapshot \<Rightarrow> bool) \<Rightarrow> (cache \<Rightarrow> cache) \<Rightarrow> bool" where
  "section_good P \<equiv> section_all (\<lambda>e. P (en_snapshot e)) P"

definition sound :: "(snapshot \<Rightarrow> bool) \<Rightarrow> nat \<Rightarrow> 'z process_scheme \<Rightarrow> bool" where
  "sound P n w \<longleftrightarrow> cache_good P (pr_cache w) \<and> n \<le> length (ca_cells (pr_cache w)) \<and> (\<forall>t \<in> set (pr_turns w). \<forall>f now. section_good P (t f now))"

lemma section_good_refresh [section_rules]: "section_good P (refresh_entry hs p entry_stamp after)"
  by (rule section_refresh) simp

lemma sound_less: "sound P n w \<Longrightarrow> m \<le> n \<Longrightarrow> sound P m w"
  by (auto simp: sound_def)

lemma sound_turn: "sound P n w \<Longrightarrow> cache_good P (others_turn w) \<and> n \<le> length (ca_cells (others_turn w))"
  by (cases "pr_turns w") (auto simp: sound_def others_turn_def section_all_def intro: le_trans)

lemma sound_locked:
  assumes "sound P n w" "locked act w = (r, w')"
  obtains v ca where "r = Inr v" "act (others_turn w) = (v, ca)" "pr_cache w' = ca" "pr_turns w' = tl (pr_turns w)"
  using assms by (auto simp: locked_def split: prod.splits)

lemma sound_afterwards:
  "sound P n w \<Longrightarrow> cache_good P ca \<Longrightarrow> m \<le> length (ca_cells ca) \<Longrightarrow> pr_cache w' = ca \<Longrightarrow> pr_turns w' = tl (pr_turns w) \<Longrightarrow> sound P m w'"
  by (cases "pr_turns w") (auto simp: sound_def)

text \<open>A program that keeps the cache good and returns only what satisfies \<open>Q\<close>.\<close>

definition gives :: "(snapshot \<Rightarrow> bool) \<Rightarrow> nat \<Rightarrow> ('z process_scheme, 'e, 'a) comp \<Rightarrow> ('a \<Rightarrow> bool) \<Rightarrow> bool" where
  "gives P n m Q \<longleftrightarrow> (\<forall>w r w'. sound P n w \<longrightarrow> m w = (r, w') \<longrightarrow> sound P n w' \<and> (\<forall>v. r = Inr v \<longrightarrow> Q v))"

named_theorems gives_rules

lemma gives_basic [gives_rules]: "gives P n (raise e) Q" "Q x \<Longrightarrow> gives P n (ret x) Q"
  by (auto simp: gives_def raise_def ret_def)

lemma givesD:
  assumes "gives P n m Q" "sound P n w" "m w = (r, w')"
  shows "sound P n w'" "r = Inr v \<Longrightarrow> Q v"
  using assms unfolding gives_def by blast+

lemma givesI:
  "(\<And>w r w'. sound P n w \<Longrightarrow> m w = (r, w') \<Longrightarrow> sound P n w' \<and> (\<forall>v. r = Inr v \<longrightarrow> Q v)) \<Longrightarrow> gives P n m Q"
  by (simp add: gives_def)

lemma gives_bind:
  assumes "gives P n m R" "\<And>x. R x \<Longrightarrow> gives P n (k x) Q"
  shows "gives P n (bind m k) Q"
proof (rule givesI)
  fix w r w' assume w: "sound P n w" "bind m k w = (r, w')"
  obtain q w1 where q: "m w = (q, w1)" by (metis surj_pair)
  note one = givesD [OF assms(1) w(1) q]
  show "sound P n w' \<and> (\<forall>v. r = Inr v \<longrightarrow> Q v)"
    using w(2) q one givesD [OF assms(2) one(1)] by (cases q) (auto simp: bind_run)
qed

lemma gives_handle:
  assumes "gives P n m R" "\<And>e. gives P n (g e) Q" "\<And>x. R x \<Longrightarrow> gives P n (k x) Q"
  shows "gives P n (handle m g k) Q"
proof (rule givesI)
  fix w r w' assume w: "sound P n w" "handle m g k w = (r, w')"
  obtain q w1 where q: "m w = (q, w1)" by (metis surj_pair)
  note one = givesD [OF assms(1) w(1) q]
  show "sound P n w' \<and> (\<forall>v. r = Inr v \<longrightarrow> Q v)"
    using w(2) q one givesD [OF assms(2) one(1)] givesD [OF assms(3) one(1)] by (cases q) (auto simp: handle_run)
qed

lemma gives_then: "gives P n m (\<lambda>_. True) \<Longrightarrow> (\<And>x. gives P n (k x) Q) \<Longrightarrow> gives P n (bind m k) Q"
  by (rule gives_bind)

lemma gives_with_err:
  assumes "gives P n m Q"
  shows "gives P n (with_err g m) Q"
proof (rule givesI)
  fix w r w' assume w: "sound P n w" "with_err g m w = (r, w')"
  obtain q w1 where q: "m w = (q, w1)" by (metis surj_pair)
  show "sound P n w' \<and> (\<forall>v. r = Inr v \<longrightarrow> Q v)"
    using w(2) q givesD [OF assms w(1) q] by (cases q) (auto simp: with_err_run)
qed

lemma gives_outside:
  assumes "keeps shared m"
  shows "gives P n m (\<lambda>_. True)"
proof (rule givesI)
  fix w r w' assume w: "sound P n w" "m w = (r, w')"
  then have "shared w' = shared w" using assms unfolding keeps_def by (metis snd_conv)
  then show "sound P n w' \<and> (\<forall>v. r = Inr v \<longrightarrow> True)" using w(1) by (simp add: sound_def)
qed

lemma gives_section [gives_rules]:
  assumes "section_good P (\<lambda>ca. snd (act ca))" "\<And>ca. cache_good P ca \<Longrightarrow> n \<le> length (ca_cells ca) \<Longrightarrow> Q (fst (act ca))"
  shows "gives P n (locked act) Q"
proof (rule givesI)
  fix w r w' assume w: "sound P n w" and run: "locked act w = (r, w')"
  obtain v ca where l: "r = Inr v" "act (others_turn w) = (v, ca)" "pr_cache w' = ca" "pr_turns w' = tl (pr_turns w)"
    by (rule sound_locked [OF w run])
  note turn = sound_turn [OF w]
  have "cache_good P ca \<and> n \<le> length (ca_cells ca)"
    using assms(1) turn l(2) unfolding section_all_def by (metis le_trans snd_conv)
  then show "sound P n w' \<and> (\<forall>v. r = Inr v \<longrightarrow> Q v)"
    using sound_afterwards [OF w _ _ l(3,4)] assms(2) turn l(1,2) by (metis fst_conv sum.inject(2))
qed

lemma gives_holding [gives_rules]: "section_good P f \<Longrightarrow> gives P n (holding f) (\<lambda>_. True)"
  by (auto simp: gives_def holding_def sound_def section_all_def intro: le_trans)

text \<open>What a load of the cache returns is what the cache holds or what the loader returned.\<close>

lemma gives_refreshed:
  assumes snap: "P snap"
  shows "gives P n (handle (read_verified p stamp) (\<lambda>_. ret None) (\<lambda>r. case r of None \<Rightarrow> ret None
      | Some (bytes, after) \<Rightarrow> if \<not> (stamp_eq after stamp \<and> bytes = sn_text snap) then ret None
          else bind (locked (\<lambda>ca. ((), refresh_entry hs p stamp after ca))) (\<lambda>_. ret (Some snap))))
    (\<lambda>hit. \<forall>snap. hit = Some snap \<longrightarrow> P snap)"
proof (rule gives_handle)
  show "gives P n (read_verified p stamp) (\<lambda>_. True)"
    by (intro gives_outside keeps_read_verified outside_shared)
next
  fix r :: "(bytes \<times> file_stamp) option"
  show "gives P n (case r of None \<Rightarrow> ret None
      | Some (bytes, after) \<Rightarrow> if \<not> (stamp_eq after stamp \<and> bytes = sn_text snap) then ret None
          else bind (locked (\<lambda>ca. ((), refresh_entry hs p stamp after ca))) (\<lambda>_. ret (Some snap)))
    (\<lambda>hit. \<forall>snap. hit = Some snap \<longrightarrow> P snap)"
    by (auto intro!: gives_then gives_section gives_basic simp: snap section_rules split: option.split)
qed (simp add: gives_basic)

lemma gives_verify: "gives P n (verify_racy_resident hs p) (\<lambda>hit. \<forall>snap. hit = Some snap \<longrightarrow> P snap)"
  unfolding verify_racy_resident_def
proof (rule gives_bind)
  show "gives P n (locked (\<lambda>ca. (racy_resident hs p ca, ca))) (\<lambda>f. \<forall>snap stamp. f = Some (snap, stamp) \<longrightarrow> P snap)"
    by (rule gives_section) (auto simp: section_all_def racy_resident_def dest: resident_all split: option.splits if_splits)
next
  fix f :: "(snapshot \<times> file_stamp) option" assume f: "\<forall>snap stamp. f = Some (snap, stamp) \<longrightarrow> P snap"
  show "gives P n (case f of None \<Rightarrow> ret None | Some (snap, entry_stamp) \<Rightarrow>
      handle (read_verified p entry_stamp) (\<lambda>_. ret None) (\<lambda>r. case r of None \<Rightarrow> ret None
        | Some (bytes, after) \<Rightarrow> if \<not> (stamp_eq after entry_stamp \<and> bytes = sn_text snap) then ret None
            else bind (locked (\<lambda>ca. ((), refresh_entry hs p entry_stamp after ca))) (\<lambda>_. ret (Some snap))))
      (\<lambda>hit. \<forall>snap. hit = Some snap \<longrightarrow> P snap)"
  proof (cases f)
    case None
    then show ?thesis by (simp add: gives_basic)
  next
    case (Some found)
    obtain snap stamp where found: "found = (snap, stamp)" by (cases found)
    then have "P snap" using f Some by simp
    then show ?thesis unfolding Some found option.case prod.case by (rule gives_refreshed)
  qed
qed

lemma gives_hit:
  "gives P n (stamped_hit hs p :: ('z process_scheme, 'e, snapshot option) comp) (\<lambda>hit. \<forall>snap. hit = Some snap \<longrightarrow> P snap)"
proof -
  have "gives P n (current_stamp p :: ('z process_scheme, 'e, file_stamp option) comp) (\<lambda>_. True)"
    by (intro gives_outside keeps_current_stamp outside_shared)
  moreover have "P snap" if "cache_good P ca" "cache_get hs p stamp ca = Some snap" for ca stamp snap
    using resident_all [OF that(1), of hs p] that(2) by (auto simp: cache_get_def split: option.splits if_splits)
  ultimately show ?thesis
    unfolding stamped_hit_def by (auto intro!: gives_bind gives_rules simp: section_all_def split: option.split)
qed

lemma gives_load_into_cell:
  assumes "gives P n loader P"
  shows "gives P n (load_into_cell hs p loader cell) P"
proof -
  have clear: "gives P n (locked (\<lambda>ca. ((), clear_inflight hs p ca)) :: ('z process_scheme, snapshot_error, unit) comp) (\<lambda>_. True)"
    by (rule gives_section) (simp_all add: section_rules)
  have insert: "gives P n (locked (\<lambda>ca. ((), cache_insert hs p snap ca)) :: ('z process_scheme, snapshot_error, unit) comp) (\<lambda>_. True)" if "P snap" for snap
    by (rule gives_section) (simp_all add: section_rules that)
  show ?thesis
    unfolding load_into_cell_def
    by (rule gives_handle [OF assms])
      (intro gives_then gives_holding section_rules clear insert gives_basic; simp)+
qed

lemma gives_cell:
  assumes "cell < n" "gives P n loader P"
  shows "gives P n (bind (locked (\<lambda>ca. (ca_cells ca ! cell, ca))) (\<lambda>state.
     case state of
       Ready (Inr snap) \<Rightarrow> ret snap
     | Ready (Inl msg) \<Rightarrow> raise (SnIo ''load cached'' p \<lparr>io_kind_of = IoOther, io_text = msg\<rparr>)
     | Pending \<Rightarrow> load_into_cell hs p loader cell)) P"
proof (rule gives_bind)
  show "gives P n (locked (\<lambda>ca. (ca_cells ca ! cell, ca))) (\<lambda>state. \<forall>snap. state = Ready (Inr snap) \<longrightarrow> P snap)"
  proof (rule gives_section)
    fix ca assume "cache_good P ca" "n \<le> length (ca_cells ca)"
    moreover from this have "ca_cells ca ! cell \<in> set (ca_cells ca)" using assms(1) by simp
    ultimately show "\<forall>snap. fst (ca_cells ca ! cell, ca) = Ready (Inr snap) \<longrightarrow> P snap" by (auto simp: cache_all_def)
  qed (simp add: section_all_def)
next
  fix state assume "\<forall>snap. state = Ready (Inr snap) \<longrightarrow> P snap"
  then show "gives P n (case state of
       Ready (Inr snap) \<Rightarrow> ret snap
     | Ready (Inl msg) \<Rightarrow> raise (SnIo ''load cached'' p \<lparr>io_kind_of = IoOther, io_text = msg\<rparr>)
     | Pending \<Rightarrow> load_into_cell hs p loader cell) P"
    using gives_load_into_cell [OF assms(2)] by (auto intro: gives_basic split: inflight_state.split sum.split)
qed

lemma gives_claim:
  assumes "\<And>n. gives P n loader P"
  shows "gives P n (bind (locked (claim_cell hs p stamp)) (\<lambda>claimed.
     case claimed of Inl snap \<Rightarrow> ret snap | Inr cell \<Rightarrow>
     bind (locked (\<lambda>ca. (ca_cells ca ! cell, ca))) (\<lambda>state.
     case state of
       Ready (Inr snap) \<Rightarrow> ret snap
     | Ready (Inl msg) \<Rightarrow> raise (SnIo ''load cached'' p \<lparr>io_kind_of = IoOther, io_text = msg\<rparr>)
     | Pending \<Rightarrow> load_into_cell hs p loader cell))) P" (is "gives P n (bind ?claim ?next) P")
proof (rule givesI)
  fix w r w' assume w: "sound P n w" "bind ?claim ?next w = (r, w')"
  obtain q w1 where q: "?claim w = (q, w1)" by (metis surj_pair)
  obtain claimed ca where l: "q = Inr claimed" "claim_cell hs p stamp (others_turn w) = (claimed, ca)"
    "pr_cache w1 = ca" "pr_turns w1 = tl (pr_turns w)"
    by (rule sound_locked [OF w(1) q])
  note turn = sound_turn [OF w(1)]
  have c: "cache_good P ca" "length (ca_cells (others_turn w)) \<le> length (ca_cells ca)"
      "case claimed of Inl snap \<Rightarrow> P snap | Inr cell \<Rightarrow> cell < length (ca_cells ca)"
    using claim_all [OF _ l(2), of "\<lambda>e. P (en_snapshot e)" P] turn
    by (auto split: sum.splits dest: resident_all)
  have after: "sound P m w1" if "m \<le> length (ca_cells ca)" for m
    by (rule sound_afterwards [OF w(1) c(1) that l(3,4)])
  have n: "n \<le> length (ca_cells ca)" using turn c(2) by linarith
  show "sound P n w' \<and> (\<forall>v. r = Inr v \<longrightarrow> P v)"
  proof (cases claimed)
    case (Inl snap)
    then show ?thesis using w(2) q l(1) c(3) after [OF n] by (auto simp: bind_run ret_def)
  next
    case (Inr cell)
    let ?m = "max n (Suc cell)"
    have m: "?m \<le> length (ca_cells ca)" using n c(3) Inr by simp
    have run: "?next (Inr cell) w1 = (r, w')" using w(2) q l(1) Inr by (simp add: bind_run)
    have "sound P ?m w' \<and> (\<forall>v. r = Inr v \<longrightarrow> P v)"
      using givesD [OF gives_cell [OF _ assms] after [OF m] run [simplified]] by simp
    then show ?thesis using sound_less by fastforce
  qed
qed

lemma gives_get_or_load:
  assumes "\<And>n. gives P n loader P"
  shows "gives P n (get_or_load hs p loader) P"
proof -
  have served: "gives P n (case hit of Some snap \<Rightarrow> ret snap | None \<Rightarrow> m) P"
    if "\<forall>snap. hit = Some snap \<longrightarrow> P snap" "gives P n m P" for hit m
    using that by (auto intro: gives_basic split: option.split)
  have "gives P n (current_stamp p) (\<lambda>_. True)"
    by (intro gives_outside keeps_current_stamp outside_shared)
  then show ?thesis
    unfolding get_or_load_def
    by (intro gives_bind [OF gives_hit] served gives_bind [OF gives_verify] gives_then gives_claim assms)
qed

section \<open>The tools put in well-formed snapshots\<close>

lemma survives_sound: "survives (sound P n)" "uncounted (sound P n)"
  by (simp_all add: survives_def uncounted_def sound_def)

lemma gives_preserves: "gives P n m (\<lambda>_. True) \<longleftrightarrow> preserves (sound P n) m"
proof
  assume g: "gives P n m (\<lambda>_. True)"
  have "sound P n (snd (m w))" if "sound P n w" for w by (rule givesD(1) [OF g that surjective_pairing])
  then show "preserves (sound P n) m" by (simp add: preserves_def)
next
  assume pres: "preserves (sound P n) m"
  have "sound P n w'" if "sound P n w" "m w = (r, w')" for w r w' by (rule preservesD [OF pres that])
  then show "gives P n m (\<lambda>_. True)" by (simp add: gives_def)
qed

lemma gives_load:
  assumes "externs_ok x"
  shows "gives P n (snapshot_load x p) (wf_snapshot x)"
proof (rule givesI)
  fix w r w' assume w: "sound P n w" "snapshot_load x p w = (r, w')"
  have "sound P n w'" by (rule preservesD [OF survives_load [OF survives_sound(1)] w])
  moreover have "wf_snapshot x v" if r: "r = Inr v" for v
  proof -
    obtain t stamp where "v = fresh_snapshot x t (Some stamp)" "text_ok t"
      using load_fresh [OF assms w(2) [unfolded r]] by blast
    then show ?thesis by simp
  qed
  ultimately show "sound P n w' \<and> (\<forall>v. r = Inr v \<longrightarrow> wf_snapshot x v)" by blast
qed

abbreviation keeps_sound :: "externs \<Rightarrow> ('z process_scheme, 'e, 'a) comp \<Rightarrow> bool" where
  "keeps_sound x m \<equiv> preserves (sound (wf_snapshot x) 0) m"

lemma publish_snapshot_sound: "wf_snapshot x snap \<Longrightarrow> keeps_sound x (publish_snapshot hs p stamp snap)"
  unfolding publish_snapshot_def
  by (auto intro!: gives_basic gives_section simp: gives_preserves [symmetric] section_rules split: option.split)

lemma publish_sound:
  assumes x: "externs_ok x" and ok: "text_ok applied"
  shows "keeps_sound x (publish hs x p input previous applied expected d)"
  unfolding publish_def Let_def from_validated_bytes_ok [OF x ok] map_err_simps bind_lift_Inr
  by (intro preserves_rules survives_persist survives_sound publish_snapshot_sound) (use ok in simp)

lemma edit_sound:
  assumes x: "externs_ok x" and contents: "\<forall>operation\<in>set (er_edits input). utf8_ok (op_content operation)"
  shows "keeps_sound x (edit_run_blocking hs x p input d)"
proof -
  have applied: "text_ok applied" if "apply_versioned_reference_edits before current input = Inr applied" for before current applied
  proof -
    have "apply_reference_edits before (er_edits input) = Inr applied"
      using that by (simp add: versioned_edit_eq_Inr apply_reference_edits_eq_Inr)
    then show ?thesis using contents by (rule edited_text_ok)
  qed
  have publishing: "keeps_sound x (bind (lift r) (\<lambda>applied. bind m (\<lambda>_. publish hs x p input previous applied expected d)))"
      "keeps_sound x (bind (lift r) (\<lambda>applied. publish hs x p input previous applied expected d))"
    if "\<And>applied. r = Inr applied \<Longrightarrow> text_ok applied" "keeps_sound x m" for r m previous expected
  proof -
    have "keeps_sound x (bind (lift r) (\<lambda>applied. bind m (\<lambda>_. publish hs x p input previous applied expected d))) \<and>
      keeps_sound x (bind (lift r) (\<lambda>applied. publish hs x p input previous applied expected d))"
    proof (cases r)
      case (Inr applied)
      note pub = publish_sound [OF x that(1) [OF Inr]]
      show ?thesis unfolding Inr bind_lift_Inr by (intro conjI preserves_bind that(2) pub)
    qed (simp add: preserves_basic)
    then show "keeps_sound x (bind (lift r) (\<lambda>applied. bind m (\<lambda>_. publish hs x p input previous applied expected d)))"
      "keeps_sound x (bind (lift r) (\<lambda>applied. publish hs x p input previous applied expected d))" by blast+
  qed
  have dirs: "keeps_sound x (case path_parent p of None \<Rightarrow> ret ()
      | Some parent \<Rightarrow> with_err (\<lambda>e. Err (protocol_error_new CodeIo (''Failed to create parent directory for '' @ p @ '': '' @ io_text e)))
          (create_dir_all parent))"
    by (auto intro!: preserves_rules survives_sound split: option.split)
  have created: "keeps_sound x (create_new_file hs x p input d)"
    unfolding create_new_file_def
    by (auto intro!: preserves_rules publishing(1) [OF applied dirs])
  have engine: "keeps_sound x (bind (lift (fst (apply_edits_fast x input snapshot))) (\<lambda>applied.
      publish hs x p input (sn_id snapshot) applied (sn_stamp snapshot) d))" if "wf_snapshot x snapshot" for snapshot
  proof (rule publishing(2) [OF applied dirs])
    fix applied assume "fst (apply_edits_fast x input snapshot) = Inr applied"
    then show "apply_versioned_reference_edits (sn_text snapshot) (sn_id snapshot) input = Inr applied"
      using apply_edits_fast_run [OF x that, of input] by auto
  qed
  show ?thesis
    unfolding edit_run_blocking_def gives_preserves [symmetric]
    by (rule gives_handle [OF gives_load [OF x]])
      (use created engine in \<open>auto simp: gives_preserves intro!: preserves_basic\<close>)
qed

lemma reload_sound: "keeps_sound x (load_current x p)" "keeps_sound x (lose_create_race x p input)"
  unfolding load_current_def lose_create_race_def
  by (auto intro!: preserves_rules survives_load survives_sound split: sum.split)

lemma finish_write_sound:
  assumes x: "externs_ok x" and ok: "text_ok (wr_content input)"
  shows "keeps_sound x (finish_write hs x p input current creates d)"
  unfolding finish_write_def Let_def persist_write_def from_validated_bytes_ok [OF x ok] map_err_simps bind_lift_Inr
  by (intro preserves_rules publish_snapshot_sound)
    (use ok in \<open>auto intro!: preserves_rules reload_sound survives_persist survives_sound\<close>)

lemma write_sound:
  assumes x: "externs_ok x" and content: "utf8_ok (wr_content input)"
  shows "keeps_sound x (write_run_blocking hs x p input d)"
proof -
  have "keeps_sound x (bind (lift (validate_reference_write current input)) (\<lambda>creates. finish_write hs x p input c creates d))" for current c
  proof (cases "validate_reference_write current input")
    case (Inr creates)
    then have "text_ok (wr_content input)" using content by (auto simp: write_eq_Inr text_ok_def)
    then show ?thesis using finish_write_sound [OF x] Inr by simp
  qed (simp add: preserves_basic)
  then show ?thesis
    unfolding write_run_blocking_def by (rule preserves_bind [OF reload_sound(1)])
qed

end
