(* ===== verification/Cache_Logic.thy ===== *)
theory Cache_Logic
  imports Cache_Sound
begin

text \<open>
  Reasoning about programs that share the cache: what it means for the cache to be coherent with
  the files, what the other threads may do to it, and triples that carry both along.
\<close>

section \<open>Coherent entries\<close>

text \<open>
  Every entry has a stamp, and a stamp that is not racy vouches for the text: the inode it names
  holds the text as long as its change time is that of the stamp.
\<close>

definition coherent_entry :: "u64 \<Rightarrow> int \<Rightarrow> fsys \<Rightarrow> system_time \<Rightarrow> cache_entry \<Rightarrow> bool" where
  "coherent_entry device gran f now e \<longleftrightarrow> (\<exists>stamp. en_stamp e = Some stamp \<and>
     (\<not> fs_racy stamp \<longrightarrow> vouched device gran stamp (sn_text (en_snapshot e)) f now))"

abbreviation coherent :: "u64 \<Rightarrow> int \<Rightarrow> fsys \<Rightarrow> system_time \<Rightarrow> cache \<Rightarrow> bool" where
  "coherent device gran f now \<equiv> cache_all (coherent_entry device gran f now) (\<lambda>_. True)"

lemma cache_all_mono: "(\<And>e. Q e \<Longrightarrow> Q' e) \<Longrightarrow> cache_all Q P ca \<Longrightarrow> cache_all Q' P ca"
  by (fastforce simp: cache_all_def shard_all_def)

text \<open>What other processes do to the files cannot break it: a later change sets a later change time.\<close>

lemma vouched_tick:
  assumes v: "vouched device gran stamp bytes f now" and lag: "clock_lag clk gran"
    and t: "allowed (settled_rely clk) now t" "tk_now t < 2 ^ 63"
  shows "vouched device gran stamp bytes (tk_env t f) (tk_now t)"
proof -
  have h: "honest clk now t" using allowed_settled [OF t(1)] by blast
  obtain u where u: "to_system_time (the (fs_changed stamp)) = Some u" "u + gran < now"
    using v unfolding vouched_def by blast
  have "in_bytes (f_inodes (tk_env t f) i) = bytes"
    if i: "i < 2 ^ 64" "fs_identity stamp = \<lparr>fi_device = device, fi_inode = of_nat i\<rparr>"
      "in_ctime (f_inodes (tk_env t f) i) = the (fs_changed stamp)" for i
  proof (cases "in_bytes (f_inodes (tk_env t f) i) = in_bytes (f_inodes f i) \<and>
      in_ctime (f_inodes (tk_env t f) i) = in_ctime (f_inodes f i)")
    case True
    then show ?thesis using v i unfolding vouched_def by metis
  next
    case False
    then obtain s where s: "now \<le> s" "s \<le> tk_now t" "in_ctime (f_inodes (tk_env t f) i) = clk s"
      using h unfolding honest_def by blast
    then obtain u' where "to_system_time (clk s) = Some u'" "s - gran \<le> u'"
      using lag t(2) unfolding clock_lag_def by (meson le_less_trans)
    then show ?thesis using u s i(3) by simp
  qed
  moreover have "u + gran < tk_now t" using u(2) h by (simp add: honest_def)
  ultimately show ?thesis using u(1) unfolding vouched_def by blast
qed

lemma coherent_tick:
  assumes "coherent device gran f now ca" "clock_lag clk gran" "allowed (settled_rely clk) now t" "tk_now t < 2 ^ 63"
  shows "coherent device gran (tk_env t f) (tk_now t) ca"
  by (rule cache_all_mono [OF _ assms(1)]) (use vouched_tick [OF _ assms(2-4)] in \<open>auto simp: coherent_entry_def\<close>)

text \<open>An entry whose stamp the path has, and that is not racy, has the text of the path.\<close>

lemma entry_current:
  assumes "coherent_entry device gran f now e" "stamp_opt_eq (en_stamp e) (Some cur)" "\<not> stamp_racy_opt (en_stamp e)"
    and "stamp_at device f p cur" "fs_small f"
  shows "content_at f p = Some (sn_text (en_snapshot e))"
  using assms vouched_content [OF _ assms(4) _ assms(5)]
  by (auto simp: coherent_entry_def stamp_racy_opt_def stamp_opt_eq_Some stamp_eq_sym)

section \<open>The other threads\<close>

definition flight :: "hashing \<Rightarrow> path \<Rightarrow> cache \<Rightarrow> nat option" where
  "flight hs p ca = map_of (sh_inflight (shard_of hs p ca)) (path_components p)"

text \<open>
  A turn that leaves the path to this thread: it may drop the entry of the path, and it touches
  neither a load of the path that is in flight nor its cell.
\<close>

definition apart :: "hashing \<Rightarrow> path \<Rightarrow> (cache \<Rightarrow> cache) \<Rightarrow> bool" where
  "apart hs p t \<longleftrightarrow> (\<forall>ca.
     (resident hs p (t ca) = None \<or> resident hs p (t ca) = resident hs p ca) \<and>
     flight hs p (t ca) = flight hs p ca \<and>
     (\<forall>cell. flight hs p ca = Some cell \<longrightarrow> ca_cells (t ca) ! cell = ca_cells ca ! cell))"

definition considerate :: "u64 \<Rightarrow> int \<Rightarrow> hashing \<Rightarrow> path \<Rightarrow> turn \<Rightarrow> bool" where
  "considerate device gran hs p t \<longleftrightarrow> (\<forall>f now.
     section_all (coherent_entry device gran f now) (\<lambda>_. True) (t f now) \<and> apart hs p (t f now))"

definition turn_closed :: "hashing \<Rightarrow> path \<Rightarrow> (cache \<Rightarrow> bool) \<Rightarrow> bool" where
  "turn_closed hs p K \<longleftrightarrow> (\<forall>t ca. apart hs p t \<longrightarrow> K ca \<longrightarrow> K (t ca))"

section \<open>Rules with the cache\<close>

text \<open>
  Triples whose assertions also speak of the cache.  They are claimed only while the call is
  \<open>quick\<close>, and carry the coherence of the cache along.
\<close>

type_synonym view = "fsys \<Rightarrow> system_time \<Rightarrow> (fsys \<times> fsys) list \<Rightarrow> cache \<Rightarrow> bool"

definition viewed :: "u64 \<Rightarrow> int \<Rightarrow> system_time \<Rightarrow> assertion \<Rightarrow> (cache \<Rightarrow> bool) \<Rightarrow> view" where
  "viewed device gran t0 A K f now l ca \<longleftrightarrow>
     (quick gran t0 now \<longrightarrow> A f now l \<and> coherent device gran f now ca \<and> K ca)"

definition at_process :: "host \<Rightarrow> rely \<Rightarrow> (turn \<Rightarrow> bool) \<Rightarrow> view \<Rightarrow> 'z process_scheme \<Rightarrow> bool" where
  "at_process h E T A w \<longleftrightarrow> host_of w = h \<and> script_ok E (w_now w) (w_script w) \<and> (\<forall>t \<in> set (pr_turns w). T t) \<and>
     A (w_fs w) (w_now w) (w_log w) (pr_cache w)"

definition crg :: "host \<Rightarrow> rely \<Rightarrow> (turn \<Rightarrow> bool) \<Rightarrow> view \<Rightarrow> ('z process_scheme, 'e, 'a) comp \<Rightarrow> ('e + 'a \<Rightarrow> view) \<Rightarrow> bool" where
  "crg h E T A m B \<longleftrightarrow> (\<forall>w r w'. at_process h E T A w \<longrightarrow> m w = (r, w') \<longrightarrow> at_process h E T (B r) w')"

lemma crgD: "crg h E T A m B \<Longrightarrow> at_process h E T A w \<Longrightarrow> m w = (r, w') \<Longrightarrow> at_process h E T (B r) w'"
  unfolding crg_def by blast

lemma crg_post: "crg h E T A m B' \<Longrightarrow> (\<And>r f now l ca. B' r f now l ca \<Longrightarrow> B r f now l ca) \<Longrightarrow> crg h E T A m B"
  unfolding crg_def at_process_def by blast

lemma crg_pre: "crg h E T A' m B \<Longrightarrow> (\<And>f now l ca. A f now l ca \<Longrightarrow> A' f now l ca) \<Longrightarrow> crg h E T A m B"
  unfolding crg_def at_process_def by blast

lemma crg_basic:
  "(\<And>f now l ca. A f now l ca \<Longrightarrow> B (Inr v) f now l ca) \<Longrightarrow> crg h E T A (ret v) B"
  "(\<And>f now l ca. A f now l ca \<Longrightarrow> B (Inl e) f now l ca) \<Longrightarrow> crg h E T A (raise e) B"
  by (auto simp: crg_def at_process_def comp_simps)

lemma crg_bind:
  assumes "crg h E T A m (case_sum (\<lambda>e. B (Inl e)) C)" "\<And>v. crg h E T (C v) (k v) B"
  shows "crg h E T A (bind m k) B"
  unfolding crg_def
proof (intro allI impI)
  fix w r w' assume w: "at_process h E T A w" "bind m k w = (r, w')"
  obtain q w1 where q: "m w = (q, w1)" by (metis surj_pair)
  note one = crgD [OF assms(1) w(1) q]
  show "at_process h E T (B r) w'"
    using w(2) q one crgD [OF assms(2)] by (cases q) (auto simp: bind_run)
qed

lemma crg_handle:
  assumes "crg h E T A m (case_sum D C)" "\<And>e. crg h E T (D e) (g e) B" "\<And>v. crg h E T (C v) (k v) B"
  shows "crg h E T A (handle m g k) B"
  unfolding crg_def
proof (intro allI impI)
  fix w r w' assume w: "at_process h E T A w" "handle m g k w = (r, w')"
  obtain q w1 where q: "m w = (q, w1)" by (metis surj_pair)
  note one = crgD [OF assms(1) w(1) q]
  show "at_process h E T (B r) w'"
    using w(2) q one crgD [OF assms(2)] crgD [OF assms(3)] by (cases q) (auto simp: handle_run)
qed

lemma quick_earlier: "quick gran t0 now' \<Longrightarrow> now \<le> now' \<Longrightarrow> quick gran t0 now"
  by (simp add: quick_def)

text \<open>A program that only observes the files.\<close>

lemma crg_files:
  fixes m :: "('z process_scheme, 'e, 'a) comp"
  assumes lag: "clock_lag (fst h) gran" and m: "rg h (settled_rely (fst h)) A m B" "steady m"
    and keeps: "keeps shared m"
  shows "crg h (settled_rely (fst h)) T (viewed (fst (snd h)) gran t0 A K) m (\<lambda>r. viewed (fst (snd h)) gran t0 (B r) K)"
  unfolding crg_def
proof (intro allI impI)
  fix w :: "'z process_scheme" and r :: "'e + 'a" and w'
  let ?E = "settled_rely (fst h)" and ?d = "fst (snd h)"
  assume w: "at_process h ?E T (viewed ?d gran t0 A K) w" and run: "m w = (r, w')"
  have start: "host_of w = h" "script_ok ?E (w_now w) (w_script w)" "\<forall>t \<in> set (pr_turns w). T t"
    using w by (simp_all add: at_process_def)
  have same: "shared w' = shared w" using keeps run unfolding keeps_def by (metis snd_conv)
  have later: "stable ?E (\<lambda>f now l. w_now w \<le> now)"
    unfolding stable_def by (auto dest!: allowed_settled simp: honest_def)
  have "now \<le> tk_now t" if "allowed ?E now t" for now t using allowed_settled [OF that] by (simp add: honest_def)
  then have keep: "stable ?E (\<lambda>f now l. now < 2 ^ 63 \<longrightarrow> coherent ?d gran f now (pr_cache w))"
    unfolding stable_def using coherent_tick [OF _ lag] by (meson le_less_trans)
  note time = rgD [OF steadyD [OF m(2) later] start(1,2) _ run, unfolded holds_def, OF order_refl]
  have "B r (w_fs w') (w_now w') (w_log w') \<and> coherent ?d gran (w_fs w') (w_now w') (pr_cache w') \<and> K (pr_cache w')"
    if q: "quick gran t0 (w_now w')"
  proof -
    have "quick gran t0 (w_now w)" by (rule quick_earlier [OF q time(3)])
    then have A: "A (w_fs w) (w_now w) (w_log w)" "coherent ?d gran (w_fs w) (w_now w) (pr_cache w)" "K (pr_cache w)"
      using w by (simp_all add: at_process_def viewed_def)
    have "B r (w_fs w') (w_now w') (w_log w')" using rgD(3) [OF m(1) start(1,2) _ run] A(1) by (simp add: holds_def)
    moreover have "coherent ?d gran (w_fs w') (w_now w') (pr_cache w)"
      using rgD(3) [OF steadyD [OF m(2) keep] start(1,2) _ run] A(2) q by (simp add: holds_def quick_def)
    ultimately show ?thesis using A(3) same by simp
  qed
  then show "at_process h ?E T (viewed ?d gran t0 (B r) K) w'"
    using time(1,2) start(3) same by (simp add: at_process_def viewed_def)
qed

text \<open>A critical section, after a considerate turn of the others.\<close>

lemma crg_locked:
  assumes act: "\<And>f now l ca. quick gran t0 now \<Longrightarrow> A f now l \<Longrightarrow> coherent device gran f now ca \<Longrightarrow> K ca \<Longrightarrow>
      (case act ca of (v, ca') \<Rightarrow> B (Inr v) f now l \<and> coherent device gran f now ca' \<and> K' (Inr v) ca')"
    and closed: "turn_closed hs p K"
  shows "crg h E (considerate device gran hs p) (viewed device gran t0 A K) (locked act :: ('z process_scheme, 'e, 'a) comp)
    (\<lambda>r. viewed device gran t0 (B r) (K' r))"
  unfolding crg_def
proof (intro allI impI)
  fix w :: "'z process_scheme" and r :: "'e + 'a" and w'
  let ?T = "considerate device gran hs p"
  assume w: "at_process h E ?T (viewed device gran t0 A K) w" and run: "locked act w = (r, w')"
  obtain v ca where v: "act (others_turn w) = (v, ca)" by (metis surj_pair)
  have w': "r = Inr v" "w' = w\<lparr>pr_cache := ca, pr_turns := tl (pr_turns w)\<rparr>" using run by (simp_all add: locked_def v)
  have turn: "coherent device gran (w_fs w) (w_now w) (others_turn w) \<and> K (others_turn w)"
    if "coherent device gran (w_fs w) (w_now w) (pr_cache w)" "K (pr_cache w)"
    using w that closed
    by (cases "pr_turns w") (auto simp: at_process_def others_turn_def considerate_def section_all_def turn_closed_def)
  have "viewed device gran t0 (B r) (K' r) (w_fs w) (w_now w) (w_log w) ca"
    using w turn act [where f = "w_fs w" and now = "w_now w" and l = "w_log w" and ca = "others_turn w"] v
    by (auto simp: at_process_def viewed_def w'(1))
  then show "at_process h E ?T (viewed device gran t0 (B r) (K' r)) w'"
    using w by (cases "pr_turns w") (auto simp: w'(2) at_process_def host_of_def)
qed

lemma crg_holding:
  assumes "\<And>f now ca. coherent device gran f now ca \<Longrightarrow> coherent device gran f now (g ca)" "\<And>ca. K ca \<Longrightarrow> K' (g ca)"
  shows "crg h E T (viewed device gran t0 A K) (holding g) (\<lambda>_. viewed device gran t0 A K')"
  using assms by (auto simp: crg_def at_process_def viewed_def holding_def host_of_def)

end
