(* ===== verification/Cache_Coherent.thy ===== *)
theory Cache_Coherent
  imports Cache_Logic
begin

text \<open>
  The cache is an accelerator, never an authority: what a load through the cache returns is what
  the path held at a moment during the call, or the file was changed so recently that its time
  stamps cannot tell.
\<close>

section \<open>The verified read\<close>

lemma begins_all: "begins bs b \<Longrightarrow> length b \<le> length bs \<Longrightarrow> b = bs"
  by simp

text \<open>The inode was named by the path at a moment of the call, and untouched since \<open>t0\<close> it holds what it held then.\<close>

definition opened :: "(system_time \<Rightarrow> file_time) \<Rightarrow> system_time \<Rightarrow> (fsys \<times> fsys) list \<Rightarrow> path \<Rightarrow> nat \<Rightarrow> assertion" where
  "opened clk t0 l0 p i f now l \<longleftrightarrow>
     (\<exists>s c new. l = new @ l0 \<and> s \<in> set new \<and> lookup (fst s) p = Some i \<and>
        since clk t0 l0 i c (\<lambda>b. b = in_bytes (f_inodes (fst s) i)) f now l)"

lemma stable_opened: "stable (settled_rely clk) (opened clk t0 l0 p i)"
  unfolding stable_def opened_def
proof (intro allI impI)
  fix f now l t
  assume "\<exists>s c new. l = new @ l0 \<and> s \<in> set new \<and> lookup (fst s) p = Some i \<and>
      since clk t0 l0 i c (\<lambda>b. b = in_bytes (f_inodes (fst s) i)) f now l"
    and t: "allowed (settled_rely clk) now t"
  then obtain s c new where s: "l = new @ l0" "s \<in> set new" "lookup (fst s) p = Some i"
    "since clk t0 l0 i c (\<lambda>b. b = in_bytes (f_inodes (fst s) i)) f now l" by blast
  let ?f = "tk_env t f"
  have "since clk t0 l0 i c (\<lambda>b. b = in_bytes (f_inodes (fst s) i)) ?f (tk_now t) ((?f, ?f) # l)"
    using stable_since s(4) t unfolding stable_def by blast
  then show "\<exists>s c new. (?f, ?f) # l = new @ l0 \<and> s \<in> set new \<and> lookup (fst s) p = Some i \<and>
      since clk t0 l0 i c (\<lambda>b. b = in_bytes (f_inodes (fst s) i)) ?f (tk_now t) ((?f, ?f) # l)"
    using s(1-3) by (intro exI [of _ s] exI [of _ c] exI [of _ "(?f, ?f) # new"]) simp
qed

lemma stable_conj: "stable E A \<Longrightarrow> stable E B \<Longrightarrow> stable E (\<lambda>f now l. A f now l \<and> B f now l)"
  unfolding stable_def by blast

lemma opened_now:
  assumes "lookup f p = Some i" "begun t0 l0 f now l" "logged (begun t0 l0) f l"
  shows "opened clk t0 l0 p i f now l"
proof -
  obtain new where "l = ((f, f) # new) @ l0" using assms(3) by (auto simp: logged_def begun_def)
  moreover have "i < 2 ^ 64" using assms(1,2) by (auto simp: begun_def fs_small_def lookup_def)
  ultimately show ?thesis
    using assms(1,2) unfolding opened_def
    by (intro exI [of _ "(f, f)"] exI [of _ "in_ctime (f_inodes f i)"] exI [of _ "(f, f) # new"])
      (auto simp: since_def begun_def)
qed

text \<open>What the verified read has at its last stamp.\<close>

lemma verified_moment:
  assumes lag: "clock_lag clk gran" and q: "quick gran t0 now"
    and opened: "opened clk t0 l0 p i f now l" and l: "\<exists>new. l = (f, f) # new @ l0"
    and since: "since clk t0 l0 i c (\<lambda>b. b = bytes \<or> begins bytes b \<and> unat (sat_add_u64 (fs_len stamp) 1) \<le> length bytes) f now l"
    and after: "after = stamp_from_metadata now (inode_metadata device f i)"
    and eq: "stamp_eq after stamp" "fs_changed stamp = Some c"
  shows "justified device gran t0 l0 p bytes after f now l"
proof -
  let ?b = "in_bytes (f_inodes f i)"
  have ct: "in_ctime (f_inodes f i) = c" "fs_changed after = Some c" and len: "fs_len stamp = of_nat (length ?b)"
    using eq by (simp_all add: after stamp_eq_def stamp_from_metadata_def inode_metadata_def Let_def)
  have small: "length ?b < 2 ^ 64" "t0 \<le> now" using since by (simp_all add: since_def fs_small_def)
  have "unat (of_nat (length ?b) :: u64) = length ?b" using small(1) by (simp add: unat_of_nat_u64 usize_max_def)
  then have "length ?b \<le> unat (sat_add_u64 (fs_len stamp) 1)"
    using small(1) by (simp add: len unat_sat_add_u64 usize_max_def)
  then have S: "since clk t0 l0 i c (\<lambda>b. b = bytes) f now l"
    using since by (elim since_mono) (auto dest: begins_all)
  obtain new where new: "l = ((f, f) # new) @ l0" using l by auto
  obtain s where s: "s \<in> set ((f, f) # new)" "lookup (fst s) p = Some i"
    "dirty clk t0 now i f \<or> ?b = in_bytes (f_inodes (fst s) i)"
  proof -
    obtain s c' new' where o: "l = new' @ l0" "s \<in> set new'" "lookup (fst s) p = Some i"
      "since clk t0 l0 i c' (\<lambda>b. b = in_bytes (f_inodes (fst s) i)) f now l"
      using opened unfolding opened_def by blast
    have "new' = (f, f) # new" using o(1) new by simp
    then show ?thesis using that [of s] o(2-4) by (simp add: since_def) blast
  qed
  show ?thesis
  proof (cases "fs_racy after")
    case True
    then have "recent t0 (in_mtime (f_inodes f i)) (in_ctime (f_inodes f i))"
      using dated_stamp [OF small(2), of "inode_metadata device f i"]
      by (simp add: after dated_def stamp_from_metadata_def inode_metadata_def Let_def)
    then have "lately t0 p ((f, f) # new)" using s(1,2) unfolding lately_def by (intro exI [of _ i]) auto
    then show ?thesis using True new by (auto simp: justified_def)
  next
    case False
    have aged: "aged device i after now" by (simp add: after aged_stamp inode_metadata_def Let_def)
    have q': "now \<le> t0 + RACY_WINDOW - gran" "now < 2 ^ 63" using q by (simp_all add: quick_def)
    have v: "vouched device gran after bytes f now"
      by (rule settled_vouched [OF S aged order_refl lag ct(2) False q'])
    obtain t where "to_system_time c = Some t" "t + RACY_WINDOW < now" using aged False ct(2) by (auto simp: aged_def)
    then have "\<not> dirty clk t0 now i f" using old_not_dirty [OF lag q'(2) ct(1), of t t0] q'(1) by simp
    then have "content_at (fst s) p = Some bytes" using s(2,3) S by (simp add: content_at_def since_def)
    then show ?thesis using v False new s(1) unfolding justified_def by (intro conjI exI [of _ "(f, f) # new"]) auto
  qed
qed

definition verified_post :: "u64 \<Rightarrow> int \<Rightarrow> system_time \<Rightarrow> (fsys \<times> fsys) list \<Rightarrow> path \<Rightarrow> file_stamp \<Rightarrow>
    (bytes \<times> file_stamp) option \<Rightarrow> assertion" where
  "verified_post device gran t0 l0 p stamp r f now l \<longleftrightarrow>
     (\<forall>bytes after. r = Some (bytes, after) \<longrightarrow> stamp_eq after stamp \<longrightarrow> quick gran t0 now \<longrightarrow>
        justified device gran t0 l0 p bytes after f now l)"

lemma verified_post_None: "verified_post device gran t0 l0 p stamp None f now l"
  by (simp add: verified_post_def)

text \<open>The stamp after the read.\<close>

lemma rg_last_stamp:
  assumes lag: "clock_lag clk gran" and c: "fs_changed stamp = Some c"
  shows "rg h (settled_rely clk) (\<lambda>f now l. opened clk t0 l0 p i f now l \<and>
       since clk t0 l0 i c (\<lambda>b. b = bytes \<or> begins bytes b \<and> unat (sat_add_u64 (fs_len stamp) 1) \<le> length bytes) f now l)
     (bind (sys_fstat i) (\<lambda>m'. bind (stamp_of m') (\<lambda>after. ret (Some (bytes, after)))))
     (\<lambda>r f now l. \<forall>v. r = Inr v \<longrightarrow> verified_post (fst (snd h)) gran t0 l0 p stamp v f now l)"
    (is "rg h ?E ?A _ ?B")
proof (rule rg_bind [where C = "\<lambda>m' f now l. ?A f now l \<and> logged ?A f l \<and> m' = inode_metadata (fst (snd h)) f i"], goal_cases)
  case 1
  have "stable ?E ?A" by (rule stable_conj [OF stable_opened stable_since])
  from rg_fstat [OF this] show ?case by (rule rg_post) (simp split: sum.splits)
next
  case (2 m')
  show ?case
  proof (rule rg_bind [where C = "\<lambda>after f now l. ?A f now l \<and> logged ?A f l \<and>
      after = stamp_from_metadata now (inode_metadata (fst (snd h)) f i)"], goal_cases)
    case 1
    show ?case by (rule rg_stamp_of) simp
  next
    case (2 after)
    have "verified_post (fst (snd h)) gran t0 l0 p stamp (Some (bytes, after)) f now l"
      if a: "?A f now l" "logged ?A f l" "after = stamp_from_metadata now (inode_metadata (fst (snd h)) f i)" for f now l
    proof -
      have "\<exists>new. l = (f, f) # new @ l0" using a(2) by (auto simp: logged_def opened_def)
      then show ?thesis using verified_moment [OF lag _ _ _ _ a(3) _ c] a(1) by (auto simp: verified_post_def)
    qed
    then show ?case by (intro rg_ret) blast
  qed
qed

lemma rg_confirmed_read:
  assumes lag: "clock_lag clk gran" and c: "fs_changed stamp = Some c"
  shows "rg h (settled_rely clk) (\<lambda>f now l. opened clk t0 l0 p i f now l \<and> since clk t0 l0 i c (begins []) f now l)
     (bind (read_all i (Some (unat (sat_add_u64 (fs_len stamp) 1))) []) (\<lambda>bytes.
        bind (sys_fstat i) (\<lambda>m'. bind (stamp_of m') (\<lambda>after. ret (Some (bytes, after))))))
     (\<lambda>r f now l. \<forall>v. r = Inr v \<longrightarrow> verified_post (fst (snd h)) gran t0 l0 p stamp v f now l)"
proof (rule rg_bind [OF _ rg_last_stamp [OF lag c]], goal_cases)
  case 1
  show ?case
    by (rule rg_post [OF rg_conj [OF steadyD [OF steady_calls(7) stable_opened] since.rg_read_all_bytes]]) (simp split: sum.splits)
qed

lemma rg_read_verified:
  assumes lag: "clock_lag clk gran"
  shows "rg h (settled_rely clk) (begun t0 l0) (read_verified p stamp)
    (\<lambda>r f now l. \<forall>v. r = Inr v \<longrightarrow> verified_post (fst (snd h)) gran t0 l0 p stamp v f now l)"
  unfolding read_verified_def
proof (rule rg_bind [where C = "opened clk t0 l0 p"], goal_cases)
  case 1
  show ?case
    by (rule rg_post [OF rg_open [OF stable_begun]]) (auto intro: opened_now split: sum.splits)
next
  case (2 i)
  let ?A = "\<lambda>c f now l. opened clk t0 l0 p i f now l \<and> since clk t0 l0 i c (begins []) f now l"
  show ?case
  proof (rule rg_bind [where C = "\<lambda>m. ?A (md_ctime m)"], goal_cases)
    case 1
    show ?case
      by (rule rg_post [OF rg_fstat [OF stable_opened]])
        (auto simp: opened_def since_def inode_metadata_def Let_def split: sum.splits)
  next
    case (2 m)
    show ?case
    proof (rule rg_bind [where C = "\<lambda>before f now l. fs_changed before = Some (md_ctime m) \<and> ?A (md_ctime m) f now l"], goal_cases)
      case 1
      show ?case by (rule rg_stamp_of) (simp add: stamp_from_metadata_def)
    next
      case (2 before)
      show ?case
      proof (rule rg_pure, cases "stamp_eq before stamp", goal_cases)
        case 1
        then have "fs_changed stamp = Some (md_ctime m)" by (simp add: stamp_eq_def)
        from rg_confirmed_read [OF lag this] show ?case by (simp only: 1(2) not_True_eq_False if_False)
      next
        case 2
        then show ?case by (auto intro!: rg_ret simp: verified_post_None)
      qed
    qed
  qed
qed

section \<open>Loads through the cache\<close>

text \<open>The log since \<open>l0\<close> accounts for the text.\<close>

definition served :: "system_time \<Rightarrow> (fsys \<times> fsys) list \<Rightarrow> path \<Rightarrow> bytes \<Rightarrow> (fsys \<times> fsys) list \<Rightarrow> bool" where
  "served t0 l0 p bytes l \<longleftrightarrow>
     (\<exists>new. l = new @ l0 \<and> ((\<exists>s\<in>set new. content_at (fst s) p = Some bytes) \<or> lately t0 p new))"

lemma served_now: "content_at f p = Some bytes \<Longrightarrow> logged (begun t0 l0) f l \<Longrightarrow> served t0 l0 p bytes l"
  unfolding served_def logged_def begun_def
  by (elim exE conjE, rename_tac f0 now0 new, rule_tac x = "(f, f) # new" in exI) simp

lemma served_justified: "justified device gran t0 l0 p bytes stamp f now l \<Longrightarrow> served t0 l0 p bytes l"
  unfolding served_def justified_def by (auto split: if_splits)

lemma viewed_mono:
  "viewed device gran t0 A K f now l ca \<Longrightarrow> (quick gran t0 now \<Longrightarrow> A f now l \<Longrightarrow> A' f now l) \<Longrightarrow> (K ca \<Longrightarrow> K' ca) \<Longrightarrow>
    viewed device gran t0 A' K' f now l ca"
  by (simp add: viewed_def)

lemma rg_current_stamp:
  assumes "stable E A"
  shows "rg h E A (current_stamp p) (\<lambda>r f now l. A f now l \<and>
    (\<forall>s. r = Inr (Some s) \<longrightarrow> stamp_at (fst (snd h)) f p s \<and> logged A f l))"
  unfolding current_stamp_def
proof (rule rg_handle [where D = "\<lambda>_. A" and
      C = "\<lambda>m f now l. A f now l \<and> logged A f l \<and>
        (\<exists>j. lookup f p = Some j \<and> m = inode_metadata (fst (snd h)) f j)"], goal_cases)
  case 1
  show ?case by (rule rg_post [OF rg_stat [OF assms]]) (auto split: sum.splits)
next
  case (2 e)
  then show ?case by (auto intro!: rg_ret)
next
  case (3 m)
  show ?case
    by (rule rg_bind [where C = "\<lambda>s f now l. A f now l \<and> logged A f l \<and> stamp_at (fst (snd h)) f p s"],
        rule rg_stamp_of)
      (auto intro!: rg_ret dest: stamp_at_metadata)
qed

lemma steady_read_verified [steady_rules]: "steady (read_verified p stamp)"
  unfolding read_verified_def by (auto intro!: steady_rules)

lemma crg_current_stamp:
  assumes lag: "clock_lag (fst h) gran"
  shows "crg h (settled_rely (fst h)) T (viewed (fst (snd h)) gran t0 (begun t0 l0) K) (current_stamp p)
    (\<lambda>r. viewed (fst (snd h)) gran t0 (\<lambda>f now l. begun t0 l0 f now l \<and>
       (\<forall>s. r = Inr (Some s) \<longrightarrow> stamp_at (fst (snd h)) f p s \<and> logged (begun t0 l0) f l)) K)"
  by (rule crg_files [OF lag rg_current_stamp [OF stable_begun]])
    (intro steady_current_stamp keeps_current_stamp outside_shared)+

abbreviation idle :: "hashing \<Rightarrow> path \<Rightarrow> cache \<Rightarrow> bool" where
  "idle hs p ca \<equiv> flight hs p ca = None"

lemma turn_closed_idle: "turn_closed hs p (idle hs p)"
  by (auto simp: turn_closed_def apart_def)

text \<open>What the two shortcuts promise.\<close>

definition hit_post :: "hashing \<Rightarrow> u64 \<Rightarrow> int \<Rightarrow> system_time \<Rightarrow> (fsys \<times> fsys) list \<Rightarrow> path \<Rightarrow> 'e + snapshot option \<Rightarrow> view" where
  "hit_post hs device gran t0 l0 p r = viewed device gran t0 (\<lambda>f now l. begun t0 l0 f now l \<and>
     (\<forall>snap. r = Inr (Some snap) \<longrightarrow> served t0 l0 p (sn_text snap) l)) (idle hs p)"

lemma crg_hit:
  assumes lag: "clock_lag (fst h) gran"
  shows "crg h (settled_rely (fst h)) (considerate (fst (snd h)) gran hs p)
    (viewed (fst (snd h)) gran t0 (begun t0 l0) (idle hs p)) (stamped_hit hs p) (hit_post hs (fst (snd h)) gran t0 l0 p)"
  (is "crg h ?E ?T _ _ ?B")
  unfolding stamped_hit_def
proof (rule crg_bind [where C = "\<lambda>cur. viewed (fst (snd h)) gran t0 (\<lambda>f now l. begun t0 l0 f now l \<and>
    (\<forall>s. cur = Some s \<longrightarrow> stamp_at (fst (snd h)) f p s \<and> logged (begun t0 l0) f l)) (idle hs p)"], goal_cases)
  case 1
  show ?case
    by (rule crg_post [OF crg_current_stamp [OF lag]]) (auto simp: hit_post_def elim: viewed_mono split: sum.splits)
next
  case (2 cur)
  show ?case
  proof (cases cur)
    case None
    then show ?thesis by (auto intro!: crg_basic simp: hit_post_def elim: viewed_mono)
  next
    case (Some s)
    have "content_at f p = Some (sn_text snap)"
      if "cache_get hs p (Some s) ca = Some snap" "coherent (fst (snd h)) gran f now ca" "stamp_at (fst (snd h)) f p s"
        "begun t0 l0 f now l" for f now l ca snap
    proof -
      note hit = that(1)
      obtain e where e: "resident hs p ca = Some e" "stamp_opt_eq (en_stamp e) (Some s)" "\<not> stamp_racy_opt (en_stamp e)"
        "en_snapshot e = snap"
        using hit by (cases "resident hs p ca") (auto simp: cache_get_def split: if_splits)
      have "fs_small f" using that(4) by (simp add: begun_def)
      from entry_current [OF resident_all [OF that(2) e(1)] e(2,3) that(3) this] show ?thesis by (simp add: e(4))
    qed
    note current = this
    show ?thesis
      unfolding Some option.case hit_post_def
      by (rule crg_locked [OF _ turn_closed_idle]) (auto intro: served_now [OF current])
  qed
qed

lemma flight_set_shard:
  "length (ca_shards ca) = SHARD_COUNT \<Longrightarrow> flight hs p (set_shard hs p s ca) = map_of (sh_inflight s) (path_components p)"
  by (simp add: flight_def set_shard_def shard_of_def shard_index_less)

lemma cache_all_length: "cache_all Q P ca \<Longrightarrow> length (ca_shards ca) = SHARD_COUNT"
  by (simp add: cache_all_def)

lemma idle_refresh:
  "length (ca_shards ca) = SHARD_COUNT \<Longrightarrow> flight hs p (refresh_entry hs p entry_stamp after ca) = flight hs p ca"
  by (auto simp: refresh_entry_def Let_def flight_set_shard split: option.split) (simp add: flight_def)

text \<open>The entry that was found racy is still the only one the path can have.\<close>

definition only_entry :: "hashing \<Rightarrow> path \<Rightarrow> snapshot \<Rightarrow> cache \<Rightarrow> bool" where
  "only_entry hs p snap ca \<longleftrightarrow> idle hs p ca \<and> (\<forall>e. resident hs p ca = Some e \<longrightarrow> en_snapshot e = snap)"

lemma turn_closed_only: "turn_closed hs p (only_entry hs p snap)"
  by (auto simp: turn_closed_def apart_def only_entry_def) (metis option.distinct(1))

lemma refresh_coherent:
  assumes "coherent device gran f now ca" "only_entry hs p snap ca" "justified device gran t0 l0 p (sn_text snap) after f now l"
  shows "coherent device gran f now (refresh_entry hs p stamp after ca)"
  by (rule refresh_all [OF assms(1)])
    (use assms(2,3) in \<open>auto simp: coherent_entry_def only_entry_def justified_def\<close>)

lemma crg_renew:
  assumes eq: "stamp_eq after stamp"
  shows "crg h E (considerate device gran hs p)
    (viewed device gran t0 (\<lambda>f now l. begun t0 l0 f now l \<and>
       verified_post device gran t0 l0 p stamp (Some (sn_text snap, after)) f now l) (only_entry hs p snap))
    (bind (locked (\<lambda>ca. ((), refresh_entry hs p stamp after ca))) (\<lambda>_. ret (Some snap))
      :: ('z process_scheme, 'e, snapshot option) comp) (hit_post hs device gran t0 l0 p)"
proof (rule crg_bind [where C = "\<lambda>_. viewed device gran t0
    (\<lambda>f now l. begun t0 l0 f now l \<and> served t0 l0 p (sn_text snap) l) (idle hs p)"], goal_cases)
  case 1
  show ?case
    by (rule crg_post [OF crg_locked [where B = "\<lambda>_ f now l. begun t0 l0 f now l \<and> served t0 l0 p (sn_text snap) l"
            and K' = "\<lambda>_. idle hs p", OF _ turn_closed_only]])
      (use eq in \<open>auto simp: verified_post_def hit_post_def only_entry_def idle_refresh [OF cache_all_length]
        elim: viewed_mono served_justified intro!: refresh_coherent split: sum.splits\<close>)
next
  case (2 u)
  show ?case by (rule crg_basic) (simp add: hit_post_def)
qed

lemma crg_confirm:
  assumes lag: "clock_lag (fst h) gran"
  shows "crg h (settled_rely (fst h)) (considerate (fst (snd h)) gran hs p)
    (viewed (fst (snd h)) gran t0 (begun t0 l0) (only_entry hs p snap))
    (handle (read_verified p stamp) (\<lambda>_. ret None) (\<lambda>r. case r of None \<Rightarrow> ret None
      | Some (bytes, after) \<Rightarrow> if \<not> (stamp_eq after stamp \<and> bytes = sn_text snap) then ret None
          else bind (locked (\<lambda>ca. ((), refresh_entry hs p stamp after ca))) (\<lambda>_. ret (Some snap)))
      :: ('z process_scheme, 'e, snapshot option) comp) (hit_post hs (fst (snd h)) gran t0 l0 p)"
proof (rule crg_handle [where D = "\<lambda>_. viewed (fst (snd h)) gran t0 (begun t0 l0) (only_entry hs p snap)" and
      C = "\<lambda>r. viewed (fst (snd h)) gran t0 (\<lambda>f now l. begun t0 l0 f now l \<and>
        verified_post (fst (snd h)) gran t0 l0 p stamp r f now l) (only_entry hs p snap)"], goal_cases)
  case 1
  let ?run = "read_verified p stamp :: ('z process_scheme, io_error, (bytes \<times> file_stamp) option) comp"
  have "rg h (settled_rely (fst h)) (begun t0 l0) ?run (\<lambda>r f now l. begun t0 l0 f now l \<and>
      (\<forall>v. r = Inr v \<longrightarrow> verified_post (fst (snd h)) gran t0 l0 p stamp v f now l))"
    by (rule rg_pre [OF rg_conj [OF steadyD [OF steady_read_verified stable_begun] rg_read_verified [OF lag]]]) simp
  from crg_files [OF lag this steady_read_verified keeps_read_verified [OF outside_shared]] show ?case
    by (rule crg_post) (auto elim: viewed_mono split: sum.splits)
next
  case (2 e)
  show ?case by (rule crg_basic) (auto simp: hit_post_def only_entry_def elim: viewed_mono)
next
  case (3 r)
  have "crg h E T (viewed device gran t0 (\<lambda>f now l. begun t0 l0 f now l \<and> A f now l) (only_entry hs p snap))
      (ret None :: ('z process_scheme, 'e, snapshot option) comp) (hit_post hs device gran t0 l0 p)" for E T device A
    by (rule crg_basic) (auto simp: hit_post_def only_entry_def elim: viewed_mono)
  then show ?case by (auto intro: crg_renew split: option.split)
qed

lemma crg_verify:
  assumes lag: "clock_lag (fst h) gran"
  shows "crg h (settled_rely (fst h)) (considerate (fst (snd h)) gran hs p)
    (viewed (fst (snd h)) gran t0 (begun t0 l0) (idle hs p))
    (verify_racy_resident hs p :: ('z process_scheme, 'e, snapshot option) comp) (hit_post hs (fst (snd h)) gran t0 l0 p)"
  unfolding verify_racy_resident_def
proof (rule crg_bind [where C = "\<lambda>found. viewed (fst (snd h)) gran t0 (begun t0 l0)
    (\<lambda>ca. idle hs p ca \<and> (\<forall>snap stamp. found = Some (snap, stamp) \<longrightarrow> only_entry hs p snap ca))"], goal_cases)
  case 1
  show ?case
    by (rule crg_post [OF crg_locked [where B = "\<lambda>_. begun t0 l0" and K' = "\<lambda>r ca. idle hs p ca \<and>
          (\<forall>snap stamp. r = Inr (Some (snap, stamp)) \<longrightarrow> only_entry hs p snap ca)", OF _ turn_closed_idle]])
      (auto simp: racy_resident_def only_entry_def split: option.splits if_splits sum.splits elim: viewed_mono simp: hit_post_def)
next
  case (2 found)
  show ?case
  proof (cases found)
    case None
    then show ?thesis by (auto intro!: crg_basic simp: hit_post_def elim: viewed_mono)
  next
    case (Some fs)
    obtain snap stamp where fs: "fs = (snap, stamp)" by (cases fs)
    show ?thesis
      unfolding Some fs option.case prod.case by (rule crg_pre [OF crg_confirm [OF lag]]) (erule viewed_mono, auto)
  qed
qed

text \<open>The load that fills the cell.\<close>

definition load_served :: "u64 \<Rightarrow> int \<Rightarrow> system_time \<Rightarrow> (fsys \<times> fsys) list \<Rightarrow> path \<Rightarrow> snapshot_error + snapshot \<Rightarrow> view" where
  "load_served device gran t0 l0 p r =
     viewed device gran t0 (\<lambda>f now l. \<forall>snap. r = Inr snap \<longrightarrow> served t0 l0 p (sn_text snap) l) (\<lambda>_. True)"

lemma turn_closed_any: "turn_closed hs p (\<lambda>_. True)"
  by (simp add: turn_closed_def)

lemma section_step: "section_all Q P g \<Longrightarrow> cache_all Q P ca \<Longrightarrow> cache_all Q P (g ca)"
  by (simp add: section_all_def)

lemma crg_section:
  assumes "\<And>f now l ca. quick gran t0 now \<Longrightarrow> A f now l \<Longrightarrow> section_all (coherent_entry device gran f now) (\<lambda>_. True) g"
  shows "crg h E (considerate device gran hs p) (viewed device gran t0 A (\<lambda>_. True))
    (locked (\<lambda>ca. ((), g ca)) :: ('z process_scheme, 'e, unit) comp) (\<lambda>_. viewed device gran t0 A (\<lambda>_. True))"
  by (rule crg_locked [OF _ turn_closed_any]) (use assms section_step in fastforce)

lemma keeps_load: "outside_files g \<Longrightarrow> keeps g (snapshot_load x p)"
  unfolding keeps_def
proof
  fix w assume "outside_files g"
  then have "preserves (\<lambda>w'. g w' = g w) (snapshot_load x p)" by (rule survives_load [OF survives_outside])
  then show "g (snd (snapshot_load x p w)) = g w" by (simp add: preserves_def)
qed

lemma crg_step:
  assumes "crg h E T A m (\<lambda>_. C)" "\<And>e f now l ca. C f now l ca \<Longrightarrow> B (Inl e) f now l ca" "\<And>v. crg h E T C (k v) B"
  shows "crg h E T A (bind m k) B"
  by (rule crg_bind [OF crg_post [OF assms(1)] assms(3)]) (auto intro: assms(2) split: sum.splits)

text \<open>A loader settles its cell and clears its flight the same way whether it loaded or failed.\<close>

lemma crg_settle_cell:
  assumes "\<And>e f now l ca. viewed device gran t0 A (\<lambda>_. True) f now l ca \<Longrightarrow> B (Inl e) f now l ca"
    and "crg h E (considerate device gran hs p) (viewed device gran t0 A (\<lambda>_. True)) final B"
  shows "crg h E (considerate device gran hs p) (viewed device gran t0 A (\<lambda>_. True))
    (bind (holding (set_cell cell state)) (\<lambda>_. bind (locked (\<lambda>ca. ((), clear_inflight hs p ca))) (\<lambda>_. final))) B"
proof (rule crg_step [where C = "viewed device gran t0 A (\<lambda>_. True)"], goal_cases)
  case 1
  show ?case by (rule crg_holding) (auto intro: section_step [OF section_set_cell])
next
  case (2 e)
  then show ?case by (rule assms(1))
next
  case (3 u)
  show ?case
    by (rule crg_step [where C = "viewed device gran t0 A (\<lambda>_. True)", OF crg_section assms(1) assms(2)]) (simp_all add: section_clear)
qed

text \<open>The claim serves a current entry or opens a flight of its own.\<close>

definition claimed :: "hashing \<Rightarrow> path \<Rightarrow> nat \<Rightarrow> cache \<Rightarrow> bool" where
  "claimed hs p cell ca \<longleftrightarrow> flight hs p ca = Some cell \<and> ca_cells ca ! cell = Pending"

lemma turn_closed_claimed: "turn_closed hs p (claimed hs p cell)"
  by (auto simp: turn_closed_def apart_def claimed_def)

lemma join_claimed:
  assumes "length (ca_shards ca) = SHARD_COUNT" "idle hs p ca" "join_flight hs p ca = (cell, ca')"
  shows "claimed hs p cell ca'"
proof -
  have "flight hs p (c\<lparr>ca_cells := cells\<rparr>) = flight hs p c" for c cells by (simp add: flight_def shard_of_def)
  then show ?thesis
    using assms
    by (auto simp: join_flight_def Let_def claimed_def flight_set_shard update_conv' simp flip: flight_def)
qed

lemma claim_claimed:
  assumes "length (ca_shards ca) = SHARD_COUNT" "idle hs p ca" "claim_cell hs p stamp ca = (Inr cell, ca')"
  shows "claimed hs p cell ca'"
proof -
  let ?s = "drop_entry (path_components p) (shard_of hs p ca)"
  have "idle hs p (set_shard hs p ?s ca)" "length (ca_shards (set_shard hs p ?s ca)) = SHARD_COUNT"
    using assms(1,2) by (simp_all add: flight_set_shard drop_entry_fields flight_def [of hs p ca, symmetric] length_set_shard)
  then show ?thesis
    using assms join_claimed [of ca] join_claimed [of "set_shard hs p ?s ca"]
    by (auto simp: claim_cell_def split: option.splits if_splits prod.splits)
qed

lemma claim_current:
  assumes co: "coherent device gran f now ca" and claim: "claim_cell hs p stamp ca = (Inl snap, ca')"
    and cur: "\<forall>s. stamp = Some s \<longrightarrow> stamp_at device f p s \<and> logged (begun t0 l0) f l" and small: "fs_small f"
  shows "served t0 l0 p (sn_text snap) l"
proof -
  obtain e where e: "resident hs p ca = Some e" "entry_fits stamp e" "snap = en_snapshot e"
    using claim_all [OF co claim] by auto
  note entry = resident_all [OF co e(1)]
  obtain s where s: "stamp = Some s" using e(2) entry by (cases stamp) (auto simp: entry_fits_def coherent_entry_def)
  then have "content_at f p = Some (sn_text snap)"
    using entry_current [OF entry _ _ _ small, of s p] e(2,3) cur by (simp add: entry_fits_def)
  then show ?thesis using served_now cur s by blast
qed

section \<open>Loaders\<close>

text \<open>
  What the cache asks of a loader it runs for a path: it only observes the files, it does not touch
  the cache itself, and what it returns is a text the path held, or was changed too recently.
\<close>

locale settled_loader =
  fixes p :: path and loader :: "('z process_scheme, snapshot_error, snapshot) comp"
  assumes observes: "steady loader" and secluded: "keeps shared loader"
    and settles: "clock_lag (fst h) gran \<Longrightarrow>
      rg h (settled_rely (fst h)) (begun t0 l0) loader (snapshot_post (fst (snd h)) gran t0 l0 p)"
begin

lemma crg_load_into_cell:
  assumes lag: "clock_lag (fst h) gran"
  shows "crg h (settled_rely (fst h)) (considerate (fst (snd h)) gran hs p)
    (viewed (fst (snd h)) gran t0 (begun t0 l0) (\<lambda>_. True)) (load_into_cell hs p loader cell)
    (load_served (fst (snd h)) gran t0 l0 p)"
proof -
  let ?d = "fst (snd h)"
  let ?J = "\<lambda>snap f now l. quick gran t0 now \<longrightarrow>
    (\<exists>stamp. sn_stamp snap = Some stamp \<and> justified ?d gran t0 l0 p (sn_text snap) stamp f now l)"
  show ?thesis
    unfolding load_into_cell_def
  proof (rule crg_handle [where D = "\<lambda>_. viewed ?d gran t0 (\<lambda>_ _ _. True) (\<lambda>_. True)" and
        C = "\<lambda>snap. viewed ?d gran t0 (?J snap) (\<lambda>_. True)"], goal_cases)
    case 1
    show ?case
      by (rule crg_post [OF crg_files [OF lag settles [OF lag] observes secluded]])
        (auto simp: snapshot_post_def elim: viewed_mono split: sum.splits)
  next
    case (2 e)
    show ?case by (rule crg_settle_cell) (auto intro!: crg_basic simp: load_served_def elim: viewed_mono)
  next
    case (3 snap)
    have "load_served ?d gran t0 l0 p (Inr snap) f now l ca" if "viewed ?d gran t0 (?J snap) (\<lambda>_. True) f now l ca" for f now l ca
      using that by (auto simp: load_served_def elim!: viewed_mono dest: served_justified)
    then have "crg h (settled_rely (fst h)) (considerate ?d gran hs p) (viewed ?d gran t0 (?J snap) (\<lambda>_. True))
        (bind (holding (set_cell cell (Ready (Inr snap)))) (\<lambda>_. bind (locked (\<lambda>ca. ((), clear_inflight hs p ca))) (\<lambda>_. ret snap)))
        (load_served ?d gran t0 l0 p)"
      by (intro crg_settle_cell crg_basic) (auto simp: load_served_def elim: viewed_mono)
    then show ?case
      by (intro crg_step [OF crg_section])
        (auto intro: section_insert simp: coherent_entry_def justified_def load_served_def elim: viewed_mono)
  qed
qed

text \<open>Nobody else settles the cell of a flight this thread opened.\<close>

lemma crg_own_flight:
  assumes lag: "clock_lag (fst h) gran"
  shows "crg h (settled_rely (fst h)) (considerate (fst (snd h)) gran hs p)
    (viewed (fst (snd h)) gran t0 (begun t0 l0) (claimed hs p cell))
    (bind (locked (\<lambda>ca. (ca_cells ca ! cell, ca))) (\<lambda>state.
     case state of
       Ready (Inr snap) \<Rightarrow> ret snap
     | Ready (Inl msg) \<Rightarrow> raise (SnIo ''load cached'' p \<lparr>io_kind_of = IoOther, io_text = msg\<rparr>)
     | Pending \<Rightarrow> load_into_cell hs p loader cell))
    (load_served (fst (snd h)) gran t0 l0 p)"
proof (rule crg_bind [where C = "\<lambda>state. viewed (fst (snd h)) gran t0
    (\<lambda>f now l. begun t0 l0 f now l \<and> state = Pending) (\<lambda>_. True)"], goal_cases)
  case 1
  show ?case
    by (rule crg_post [OF crg_locked [where B = "\<lambda>r f now l. begun t0 l0 f now l \<and> (\<forall>s. r = Inr s \<longrightarrow> s = Pending)"
          and K' = "\<lambda>_ _. True", OF _ turn_closed_claimed]])
      (auto simp: claimed_def load_served_def elim: viewed_mono split: sum.splits)
next
  case (2 state)
  show ?case
  proof (cases state)
    case Pending
    then show ?thesis by (auto intro: crg_pre [OF crg_load_into_cell [OF lag]] elim: viewed_mono)
  next
    case (Ready res)
    then show ?thesis by (cases res) (auto intro!: crg_basic simp: load_served_def viewed_def)
  qed
qed

lemma crg_claim:
  assumes lag: "clock_lag (fst h) gran"
  shows "crg h (settled_rely (fst h)) (considerate (fst (snd h)) gran hs p)
    (viewed (fst (snd h)) gran t0 (\<lambda>f now l. begun t0 l0 f now l \<and>
       (\<forall>s. stamp = Some s \<longrightarrow> stamp_at (fst (snd h)) f p s \<and> logged (begun t0 l0) f l)) (idle hs p))
    (bind (locked (claim_cell hs p stamp)) (\<lambda>claimed.
     case claimed of Inl snap \<Rightarrow> ret snap | Inr cell \<Rightarrow>
     bind (locked (\<lambda>ca. (ca_cells ca ! cell, ca))) (\<lambda>state.
     case state of
       Ready (Inr snap) \<Rightarrow> ret snap
     | Ready (Inl msg) \<Rightarrow> raise (SnIo ''load cached'' p \<lparr>io_kind_of = IoOther, io_text = msg\<rparr>)
     | Pending \<Rightarrow> load_into_cell hs p loader cell)))
    (load_served (fst (snd h)) gran t0 l0 p)"
proof (rule crg_bind [where C = "\<lambda>c. viewed (fst (snd h)) gran t0
      (\<lambda>f now l. begun t0 l0 f now l \<and> (\<forall>snap. c = Inl snap \<longrightarrow> served t0 l0 p (sn_text snap) l))
      (\<lambda>ca. \<forall>cell. c = Inr cell \<longrightarrow> claimed hs p cell ca)"], goal_cases)
  case 1
  show ?case
    by (rule crg_post [OF crg_locked [where B = "\<lambda>r f now l. begun t0 l0 f now l \<and>
            (\<forall>snap. r = Inr (Inl snap) \<longrightarrow> served t0 l0 p (sn_text snap) l)"
          and K' = "\<lambda>r ca. \<forall>cell. r = Inr (Inr cell) \<longrightarrow> claimed hs p cell ca", OF _ turn_closed_idle]])
      (auto simp: load_served_def begun_def intro: claim_current claim_claimed [OF cache_all_length] dest: claim_all
        elim!: viewed_mono split: sum.splits prod.splits)
next
  case (2 c)
  show ?case
  proof (cases c)
    case (Inl snap)
    then show ?thesis by (auto intro!: crg_basic simp: load_served_def elim: viewed_mono)
  next
    case (Inr cell)
    show ?thesis
      unfolding Inr sum.case by (rule crg_pre [OF crg_own_flight [OF lag]]) (auto elim: viewed_mono)
  qed
qed

lemma crg_get_or_load:
  assumes lag: "clock_lag (fst h) gran"
  shows "crg h (settled_rely (fst h)) (considerate (fst (snd h)) gran hs p)
    (viewed (fst (snd h)) gran t0 (begun t0 l0) (idle hs p)) (get_or_load hs p loader)
    (load_served (fst (snd h)) gran t0 l0 p)"
proof -
  let ?d = "fst (snd h)" and ?E = "settled_rely (fst h)"
  let ?T = "considerate ?d gran hs p" and ?V = "viewed ?d gran t0 (begun t0 l0) (idle hs p)"
  let ?H = "\<lambda>hit. viewed ?d gran t0 (\<lambda>f now l. begun t0 l0 f now l \<and>
     (\<forall>snap. hit = Some snap \<longrightarrow> served t0 l0 p (sn_text snap) l)) (idle hs p)"
  have shortcut: "crg h ?E ?T ?V (bind m (\<lambda>hit. case hit of Some snap \<Rightarrow> ret snap | None \<Rightarrow> k)) (load_served ?d gran t0 l0 p)"
    if "crg h ?E ?T ?V m (hit_post hs ?d gran t0 l0 p)" "crg h ?E ?T ?V k (load_served ?d gran t0 l0 p)"
    for m :: "('z process_scheme, snapshot_error, snapshot option) comp" and k
  proof (rule crg_bind [where C = ?H], goal_cases)
    case 1
    show ?case by (rule crg_post [OF that(1)]) (auto simp: hit_post_def load_served_def elim: viewed_mono split: sum.splits)
  next
    case (2 hit)
    show ?case
      by (cases hit) (auto intro!: crg_basic crg_pre [OF that(2)] simp: load_served_def elim: viewed_mono)
  qed
  have "crg h ?E ?T ?V (bind (current_stamp p) (\<lambda>stamp. bind (locked (claim_cell hs p stamp)) (\<lambda>claimed.
     case claimed of Inl snap \<Rightarrow> ret snap | Inr cell \<Rightarrow>
     bind (locked (\<lambda>ca. (ca_cells ca ! cell, ca))) (\<lambda>state.
     case state of
       Ready (Inr snap) \<Rightarrow> ret snap
     | Ready (Inl msg) \<Rightarrow> raise (SnIo ''load cached'' p \<lparr>io_kind_of = IoOther, io_text = msg\<rparr>)
     | Pending \<Rightarrow> load_into_cell hs p loader cell)))) (load_served ?d gran t0 l0 p)"
    by (rule crg_bind [OF crg_post [OF crg_current_stamp [OF lag]] crg_claim [OF lag]])
      (auto simp: load_served_def elim: viewed_mono split: sum.splits)
  from shortcut [OF crg_hit [OF lag] shortcut [OF crg_verify [OF lag] this]] show ?thesis
    unfolding get_or_load_def .
qed

end

interpretation snapshot_loader: settled_loader p "snapshot_load x p" for x p
  by unfold_locales
    (simp_all add: steady_load keeps_load [OF outside_shared], simp add: snapshot_load_def rg_load_attempts)

section \<open>Properties\<close>

text \<open>
  Property C12.  The cache is an accelerator, never an authority, under four assumptions. The cache
  is coherent at the start: every entry has a stamp, and the file that a stamp that is not racy
  names holds the text of the entry as long as its change time is that of the stamp. Other processes
  read, write and rename as they like before and during the call, but the clock that stamps changes
  lags behind the time by at most its granularity, every change of a file by others sets its change
  time to that clock, and time does not go back. Other threads of the process may evict the entry of
  the path and do as they like with coherent entries of other paths, but neither load the path nor
  store an entry for it (lemma \<open>renewal_vouches_for_another\<close> shows why), and no load of
  it is in flight when the call starts. And the call takes no longer than the racy window less the
  granularity of the clock (lemma \<open>slow_load_can_tear\<close> shows why); of a slower call
  nothing is claimed, not even that the cache stays coherent. Then a load through the cache that
  returns gives a text that the path held at a moment during the call, whether it was served by
  stamp, by a verified read or by a load of its own; the exception is a file with change or
  modification times within the racy window before the call, or later. And the cache is coherent
  after the call, whether it returns a text or an error.
\<close>

theorem cache_reads_current:
  assumes "clock_lag (w_clock w) gran" "fs_small (w_fs w)"
    and "script_ok (settled_rely (w_clock w)) (w_now w) (w_script w)"
    and "\<forall>t \<in> set (pr_turns w). considerate (w_device w) gran hs p t"
    and "coherent (w_device w) gran (w_fs w) (w_now w) (pr_cache w)" "flight hs p (pr_cache w) = None"
    and "get_or_load hs p (snapshot_load x p) w = (r, w')" "quick gran (w_now w) (w_now w')"
  shows "coherent (w_device w) gran (w_fs w') (w_now w') (pr_cache w') \<and>
     (\<forall>snap. r = Inr snap \<longrightarrow> (\<exists>new. w_log w' = new @ w_log w \<and>
        ((\<exists>moment\<in>set new. content_at (fst moment) p = Some (sn_text snap)) \<or> lately (w_now w) p new)))"
proof -
  let ?h = "host_of w"
  have h: "fst ?h = w_clock w" "fst (snd ?h) = w_device w" by (simp_all add: host_of_def)
  have "at_process ?h (settled_rely (fst ?h)) (considerate (fst (snd ?h)) gran hs p)
      (viewed (fst (snd ?h)) gran (w_now w) (begun (w_now w) (w_log w)) (idle hs p)) w"
    using assms(2-6) by (simp add: at_process_def viewed_def begun_def h)
  from crgD [OF snapshot_loader.crg_get_or_load this assms(7)] assms(1,8) show ?thesis
    by (simp add: h at_process_def load_served_def viewed_def served_def)
qed

text \<open>A process whose cache has the file of the small world under its stamp.\<close>

definition small_stamp :: file_stamp where
  "small_stamp = stamp_from_metadata 9000000000 (inode_metadata 1 (small_fs ''ab'' (coarse_clock 4000000 1000000000)) 1)"

definition stocked_process :: process where
  "stocked_process = small_process (cache_insert depth_hashing ''/f''
     (fresh_snapshot plain_externs ''ab'' (Some small_stamp)) (with_capacity 1000))"

lemma small_stamp_time: "to_system_time (the (fs_changed small_stamp)) = Some 1000000000"
  by (simp add: small_stamp_def small_fs_def stamp_defs Let_def)

lemma stocked_process_coherent:
  "coherent (w_device stocked_process) 4000000 (w_fs stocked_process) (w_now stocked_process) (pr_cache stocked_process)"
proof -
  let ?f = "small_fs ''ab'' (coarse_clock 4000000 1000000000)"
  have "in_bytes (f_inodes ?f i) = ''ab''" if i: "i < 2 ^ 64" "(1 :: u64) = of_nat i" for i
  proof -
    have "i = 1" using identity_inj [of i 1] i by simp
    then show ?thesis by (simp add: small_fs_def)
  qed
  then have "vouched 1 4000000 small_stamp ''ab'' ?f 9000000000"
    by (simp add: vouched_def small_stamp_time) (simp add: small_stamp_def stamp_from_metadata_def inode_metadata_def Let_def)
  then have "coherent_entry 1 4000000 ?f 9000000000 (entry_of (fresh_snapshot plain_externs ''ab'' (Some small_stamp)))"
    by (simp add: coherent_entry_def fresh_snapshot_def)
  from section_step [OF section_insert [of "coherent_entry 1 4000000 ?f 9000000000", OF this] with_capacity_all]
  show ?thesis by (simp add: stocked_process_def small_process_def small_world_def world.defs)
qed

abbreviation ab_files :: fsys where
  "ab_files \<equiv> small_fs ''ab'' (coarse_clock 4000000 1000000000)"

lemma ab_file:
  "lookup ab_files ''/f'' = Some 1" "in_bytes (f_inodes ab_files 1) = ''ab''" "\<not> in_dir (f_inodes ab_files 1)"
  "stamp_from_metadata 9000000000 (inode_metadata 1 ab_files 1) = small_stamp"
  by (simp_all add: small_fs_def lookup_def path_f small_stamp_def)

definition racy_stamp :: file_stamp where
  "racy_stamp = small_stamp\<lparr>fs_racy := True\<rparr>"

lemma small_stamp_fields: "fs_len small_stamp = 2" "\<not> fs_racy small_stamp" "stamp_eq small_stamp racy_stamp"
  "stamp_eq racy_stamp small_stamp" "fs_len racy_stamp = 2" "fs_racy racy_stamp"
  by (simp_all add: racy_stamp_def small_stamp_def small_fs_def stamp_defs Let_def)

lemma stocked_fields:
  "w_fs stocked_process = ab_files" "w_script stocked_process = []" "pr_turns stocked_process = []"
  "w_now stocked_process = 9000000000" "w_device stocked_process = 1" "w_log stocked_process = []"
  "w_clock stocked_process = coarse_clock 4000000"
  by (simp_all add: stocked_process_def small_process_def small_world_def world.defs)

lemma stocked_idle: "flight depth_hashing ''/f'' (pr_cache stocked_process) = None"
  by (simp add: stocked_process_def small_process_def world.defs flight_def cache_defs depth_index new_shards Let_def)

lemma ab_files_small: "fs_small ab_files"
  by (auto simp: small_fs_def fs_small_def split: if_splits)

lemma stocked_load:
  fixes w :: process
  assumes w: "w_fs w = ab_files" "w_script w = []" "pr_turns w = []" "w_now w = 9000000000" "w_device w = 1"
    "pr_cache w = pr_cache stocked_process"
  shows "\<exists>snap w'. get_or_load depth_hashing ''/f'' (snapshot_load plain_externs ''/f'') w = (Inr snap, w') \<and>
    sn_text snap = ''ab'' \<and> w_now w' = 9000000000"
proof -
  let ?snap = "fresh_snapshot plain_externs ''ab'' (Some small_stamp)"
  have stat: "\<exists>w'. current_stamp ''/f'' w = (Inr (Some small_stamp) :: snapshot_error + file_stamp option, w') \<and>
      pr_cache w' = pr_cache w \<and> pr_turns w' = [] \<and> w_now w' = 9000000000"
    using w(1-5) ab_file(1,4)
    by (simp add: current_stamp_def sys_stat_def syscall_def next_tick_def quiet_tick_def comp_simps stamp_of_def Let_def)
  have "sn_byte_len ?snap = 2" "sn_stamp ?snap = Some small_stamp" by (simp_all add: fresh_snapshot_def)
  moreover have "ca_capacity (with_capacity 1000) = 1000" by (simp add: with_capacity_def)
  ultimately have "cache_get depth_hashing ''/f'' (Some small_stamp)
      (cache_insert depth_hashing ''/f'' ?snap (with_capacity 1000)) = Some ?snap"
    using small_stamp_fields(2) by (simp add: cache_defs depth_index new_shards path_f Let_def)
  then have "cache_get depth_hashing ''/f'' (Some small_stamp) (pr_cache w) = Some ?snap"
    by (simp add: w(6) stocked_process_def small_process_def world.defs)
  then show ?thesis
    using stat by (auto simp: get_or_load_def stamped_hit_def bind_run locked_def others_turn_def ret_def fresh_snapshot_def)
qed

theorem cache_reads_current_witness:
  "\<exists>snap w'. get_or_load depth_hashing ''/f'' (snapshot_load plain_externs ''/f'') stocked_process = (Inr snap, w') \<and>
     sn_text snap = ''ab'' \<and> ((\<exists>moment\<in>set (w_log w'). content_at (fst moment) ''/f'' = Some (sn_text snap)) \<or>
       lately 9000000000 ''/f'' (w_log w'))"
proof -
  let ?w = stocked_process
  obtain snap w' where run: "get_or_load depth_hashing ''/f'' (snapshot_load plain_externs ''/f'') ?w = (Inr snap, w')"
    "sn_text snap = ''ab''" "w_now w' = 9000000000"
    using stocked_load [of ?w] stocked_fields by auto
  have "quick 4000000 (w_now ?w) (w_now w')" by (simp add: stocked_fields run(3) quick_def RACY_WINDOW_def)
  moreover have "clock_lag (w_clock ?w) 4000000" by (simp add: stocked_fields coarse_clock_lag)
  moreover have "fs_small (w_fs ?w)" by (simp add: stocked_fields ab_files_small)
  moreover have "script_ok (settled_rely (w_clock ?w)) (w_now ?w) (w_script ?w)"
    "\<forall>t \<in> set (pr_turns ?w). considerate (w_device ?w) 4000000 depth_hashing ''/f'' t" by (simp_all add: stocked_fields)
  ultimately show ?thesis
    using cache_reads_current [OF _ _ _ _ stocked_process_coherent stocked_idle run(1)] run(1,2) stocked_fields(4,6) by auto
qed

text \<open>
  The stamp of the file in the tick of the clock in which it was written, whichever two letters it
  holds then.  A thread that loaded \<open>xy\<close> in that tick, before the file was rewritten to \<open>ab\<close>, stores
  what it loaded eight seconds later, between the two locks of a verified read.
\<close>

definition written_stamp :: "bytes \<Rightarrow> file_stamp" where
  "written_stamp bs = stamp_from_metadata 1000000000 (inode_metadata 1 (small_fs bs (coarse_clock 4000000 1000000000)) 1)"

definition late_insert :: turn where
  "late_insert f now = cache_insert depth_hashing ''/f'' (fresh_snapshot plain_externs ''xy'' (Some racy_stamp))"

definition contended_process :: process where
  "contended_process = (small_process (cache_insert depth_hashing ''/f''
     (fresh_snapshot plain_externs ''ab'' (Some racy_stamp)) (with_capacity 1000)))\<lparr>pr_turns := [\<lambda>_ _ ca. ca, late_insert]\<rparr>"

lemma read_ab_runs:
  fixes w :: process
  assumes "w_fs w = ab_files" "w_script w = []"
  shows "\<exists>w'. read_all 1 (Some 3) [] w = (Inr ''ab'', w') \<and> shared w' = shared w \<and> w_fs w' = ab_files \<and>
    w_script w' = [] \<and> w_now w' = w_now w \<and> w_device w' = w_device w"
proof -
  have one: "sys_read 1 (length acc) (3 - length acc) v = (Inr (take (3 - length acc) (drop (length acc) ''ab'')),
      v\<lparr>w_log := (ab_files, ab_files) # w_log v\<rparr>)" if "w_fs v = ab_files" "w_script v = []" for acc and v :: process
    using that ab_file(2,3)
    by (simp add: sys_read_def syscall_def next_tick_def quiet_tick_def Let_def min_def usize_max_def diff_le_mono)
  show ?thesis
    using assms one [of w "[]"] one [of "w\<lparr>w_log := (ab_files, ab_files) # w_log w\<rparr>" "''ab''"]
    by (simp add: read_all.simps [of 1 "Some 3" "[]"] read_all.simps [of 1 "Some 3" "''ab''"] del: One_nat_def)
qed

lemma verified_read_runs:
  fixes w :: process
  assumes "w_fs w = ab_files" "w_script w = []" "w_now w = 9000000000" "w_device w = 1"
  shows "\<exists>w'. read_verified ''/f'' racy_stamp w = (Inr (Some (''ab'', small_stamp)), w') \<and> shared w' = shared w \<and> w_fs w' = ab_files"
proof -
  let ?log = "\<lambda>v :: process. v\<lparr>w_log := (ab_files, ab_files) # w_log v\<rparr>"
  have calls: "sys_open ''/f'' v = (Inr 1, ?log v)" "sys_fstat 1 v = (Inr (inode_metadata 1 ab_files 1), ?log v)"
    if "w_fs v = ab_files" "w_script v = []" "w_device v = 1" for v :: process
    using that ab_file(1)
    by (simp_all add: sys_open_def sys_fstat_def syscall_def next_tick_def quiet_tick_def ok_or_def Let_def)
  have n: "unat (sat_add_u64 2 1) = 3" by (simp add: sat_add_u64_def usize_max_def)
  obtain w' where w': "read_all 1 (Some 3) [] (?log (?log w)) = (Inr ''ab'', w')" "shared w' = shared w" "w_fs w' = ab_files"
    "w_script w' = []" "w_now w' = 9000000000" "w_device w' = 1"
    using read_ab_runs [of "?log (?log w)"] assms by auto
  show ?thesis
    using assms w' by (simp add: read_verified_def bind_run stamp_of_def ret_def calls n ab_file(4) small_stamp_fields del: One_nat_def)
qed

text \<open>
  The other threads must indeed leave the path alone: a verified read renews the stamp
  of whatever entry it finds under that stamp, not of the snapshot it verified.  The file holds
  \<open>ab\<close>, the read confirms \<open>ab\<close> and returns it, but the entry it renews is the \<open>xy\<close> that another
  thread loaded in the same tick of the clock and stored late: from then on the cache serves \<open>xy\<close>
  on the stamp alone, although the file never changes.
\<close>

lemma renewal_vouches_for_another:
  "written_stamp ''ab'' = racy_stamp \<and> written_stamp ''xy'' = racy_stamp \<and>
   (case verify_racy_resident depth_hashing ''/f'' contended_process :: (snapshot_error + snapshot option) \<times> process of
     (Inr (Some snap), w') \<Rightarrow> sn_text snap = ''ab'' \<and> content_at (w_fs w') ''/f'' = Some ''ab'' \<and>
       (\<exists>other. cache_get depth_hashing ''/f'' (Some small_stamp) (pr_cache w') = Some other \<and> sn_text other = ''xy'')
   | _ \<Rightarrow> False)"
proof -
  let ?p = "''/f''" and ?w = contended_process
  let ?snap = "\<lambda>bs. fresh_snapshot plain_externs bs (Some racy_stamp)"
  let ?ca = "cache_insert depth_hashing ?p (?snap ''ab'') (with_capacity 1000)"
  let ?ca' = "cache_insert depth_hashing ?p (?snap ''xy'') ?ca"
  have w: "w_fs ?w = ab_files" "w_script ?w = []" "w_now ?w = 9000000000" "w_device ?w = 1" "pr_cache ?w = ?ca"
    "pr_turns ?w = [\<lambda>_ _ ca. ca, late_insert]"
    by (simp_all add: contended_process_def small_process_def small_world_def world.defs)
  have len: "sn_byte_len (?snap ''ab'') = 2" "sn_byte_len (?snap ''xy'') = 2" "sn_stamp (?snap bs) = Some racy_stamp" "sn_text (?snap bs) = bs"
    for bs by (simp_all add: fresh_snapshot_def)
  have cap: "ca_capacity (with_capacity 1000) = 1000" by (simp add: with_capacity_def)
  have found: "racy_resident depth_hashing ?p ?ca = Some (?snap ''ab'', racy_stamp)"
    by (simp add: racy_resident_def cache_defs depth_index new_shards path_f Let_def len cap small_stamp_fields)
  have other: "cache_get depth_hashing ?p (Some small_stamp) (refresh_entry depth_hashing ?p racy_stamp small_stamp ?ca') = Some (?snap ''xy'')"
    by (simp add: refresh_entry_def cache_defs depth_index new_shards path_f Let_def len cap small_stamp_fields)
  let ?w1 = "?w\<lparr>pr_cache := ?ca, pr_turns := [late_insert]\<rparr>"
  obtain w2 where w2: "read_verified ?p racy_stamp ?w1 = (Inr (Some (''ab'', small_stamp)), w2)" "shared w2 = shared ?w1" "w_fs w2 = ab_files"
    using verified_read_runs [of ?w1] w by auto
  have first: "locked (\<lambda>ca. (racy_resident depth_hashing ?p ca, ca)) ?w = (Inr (Some (?snap ''ab'', racy_stamp)), ?w1)"
    by (simp add: locked_def others_turn_def w found)
  have second: "locked (\<lambda>ca. ((), refresh_entry depth_hashing ?p racy_stamp small_stamp ca)) w2 =
      (Inr (), w2\<lparr>pr_cache := refresh_entry depth_hashing ?p racy_stamp small_stamp ?ca', pr_turns := []\<rparr>)"
    using w2(2) by (simp add: locked_def others_turn_def late_insert_def)
  have "written_stamp ''ab'' = racy_stamp" "written_stamp ''xy'' = racy_stamp"
    by (simp_all add: written_stamp_def racy_stamp_def small_stamp_def small_fs_def stamp_defs Let_def)
  moreover have "content_at ab_files ?p = Some ''ab''" by (simp add: content_at_def ab_file del: One_nat_def)
  ultimately show ?thesis
    using w2(1,3) other
    by (simp add: verify_racy_resident_def bind_run first second handle_run small_stamp_fields len ret_def)
qed

end
