(* ===== verification/Server_Answers.thy ===== *)
theory Server_Answers
  imports Cache_Sound
begin

text \<open>
  Every call is answered: no tool panics, because the snapshots of the cache are well-formed and
  the searches stay in their bounds, and a panic on the blocking pool would be an error result.
\<close>

section \<open>No tool panics\<close>

lemma validate_cursor_safe:
  assumes wf: "wf_snapshot x s" and run: "validate_cursor_on_snapshot x path c s = (r, s')"
  shows "r \<noteq> Inl Panic" "same_snapshot x s s'" "r = Inr l \<Longrightarrow> l \<noteq> 0"
proof -
  have ok: "text_ok (sn_text s)" using wf by (simp add: wf_snapshot_def)
  obtain q s1 where q: "validate_boundary x (cur_next c) s = (q, s1)" by (metis surj_pair)
  have same: "same_snapshot x s s1"
    using q by (auto simp: validate_boundary_def snapshot_boundary_ordinal_def comp_simps snapshot_offsets_run [OF wf] same_snapshot_def
        split: sum.splits option.splits if_splits)
  have line: "pos_line (cur_next c) \<noteq> 0" if "q = Inr u" for u
    using q that by (auto simp: validate_boundary_def snapshot_boundary_ordinal_def comp_simps checked_sub_u64_def checked_add_u64_eq_Some
        split: sum.splits option.splits if_splits prod.splits)
  define ref where "ref = rbind (validate_reference_cursor path (sn_text s) (sn_id s) c) (\<lambda>p. Inr (pos_line p))"
  have ref: "ref \<noteq> Inl Panic" "ref = Inr l \<Longrightarrow> l \<noteq> 0" for l
    using validate_reference_position_eq_Inr [OF ok, of "cur_next c"]
    by (auto simp: ref_def cursor_cases rbind_def is_boundary_def boundary_at_def split: sum.splits if_splits)
  have "(r, s') = (if cur_snapshot c = sn_id s \<and> (\<exists>u. q = Inr u) then Inr (pos_line (cur_next c)) else ref,
      if cur_snapshot c = sn_id s then s1 else s)"
    using run q same_snapshotD [OF same]
    by (auto simp: validate_cursor_on_snapshot_def Let_def ref_def split: sum.splits if_splits)
  then show "r \<noteq> Inl Panic" "same_snapshot x s s'" "r = Inr l \<Longrightarrow> l \<noteq> 0"
    using same line ref by (auto split: if_splits)
qed

lemma render_page_safe:
  assumes x: "externs_ok x" and wf: "wf_snapshot x s" and start: "1 \<le> unat l" "\<not> sn_line_count s < l"
  shows "fst (render_page x join p input l s) \<noteq> Inl Panic"
proof (cases "offsets_fit x s")
  case True
  have "unat l \<le> seg_count (sn_text s)" using start(2) wf_line_count(1) [OF wf] by (simp add: word_less_nat_alt)
  from render_page_run [OF x wf True start(1) this] show ?thesis by simp
next
  case False
  from render_snapshot_page_unfit [OF wf False, of "rr_path input" l "rr_limit input"] show ?thesis
    by (auto simp: render_page_def Let_def spawn_blocking_def comp_simps snapshot_fault_def split: prod.splits)
qed

lemma read_page_safe:
  assumes x: "externs_ok x" and wf: "wf_snapshot x s" and valid: "read_request_validate input = Inr ()"
  shows "fst (read_page x join p input s) \<noteq> Inl Panic"
proof -
  obtain r s' where start: "read_start x input s = (r, s')" by (metis surj_pair)
  have safe: "r \<noteq> Inl Panic" "same_snapshot x s s'" "\<And>l. r = Inr l \<Longrightarrow> l \<noteq> 0"
    using start valid validate_cursor_safe [OF wf]
    by (auto simp: read_start_def read_request_validate_def ret_def split: option.splits if_splits)
  have wf': "wf_snapshot x s'" using same_snapshotD [OF safe(2)] wf by blast
  have "1 \<le> unat l" if "r = Inr l" for l using safe(3) [OF that] by (simp add: unat_gt_0 Suc_le_eq)
  from render_page_safe [OF x wf' this, of _ join p input] show ?thesis
    using start safe(1) by (auto simp: read_page_def bind_run header_alone_def rbind_def map_err_def split: sum.splits)
qed

lemma grep_visits_safe:
  assumes "\<And>p rel read target ctx. fst (search_file job p rel read target ctx) \<noteq> Inl Panic"
  shows "\<exists>answers. fst (grep_visits job root q sch w) = Inr answers"
proof (induction sch arbitrary: w)
  case (Cons visit rest)
  obtain worker entry where v: "visit = (worker, entry)" by (cases visit)
  have "\<exists>answer w'. grep_visit job root q worker entry w = (Inr answer, w')"
  proof (cases entry)
    case (Entry p is_file read)
    obtain r ctx where "search_file job p (case path_strip_prefix root p of None \<Rightarrow> p | Some r \<Rightarrow> r) read TreeEntry (gw_ctx w) = (r, ctx)"
      by (metis surj_pair)
    moreover have "r \<noteq> Inl Panic" using assms calculation by (metis fst_conv)
    ultimately show ?thesis
      using Entry by (auto simp: grep_visit_def Let_def split: sum.split option.split fault.split)
  qed (simp add: grep_visit_def)
  then obtain answer w' where "grep_visit job root q worker entry w = (Inr answer, w')" by blast
  then show ?case using Cons.IH [of w'] v by (auto simp: comp_simps split: prod.splits sum.splits)
qed (simp add: ret_def)

lemma grep_run_safe:
  assumes x: "externs_ok (ge_externs env)" and search: "\<And>p i search. ge_regex env p i = Inr search \<Longrightarrow> search_ok search"
  shows "grep_run env ws input \<noteq> Inl Panic"
proof
  assume "grep_run env ws input = Inl Panic"
  then obtain search where s: "ge_regex env (gr_pattern input) (gr_ignore_case input) = Inr search"
    by (auto simp: grep_run_def rbind_def map_err_def lift_err_def split: sum.splits)
  obtain before after where ctx: "effective_context input = (before, after)" by fastforce
  let ?job = "\<lparr>gj_externs = ge_externs env, gj_lossy = ge_lossy env, gj_search = search,
      gj_before = unat before, gj_after = unat after, gj_mode = gr_output_mode input\<rparr>"
  have "unat after < 2 ^ LENGTH(16)" by (rule unsigned_less)
  then have "gj_after ?job \<le> 65535" by simp
  then have safe: "fst (search_file ?job p rel read target c) \<noteq> Inl Panic" for p rel read target c
    using search_file_no_panic [of ?job] x search [OF s] by simp
  have one: "search_file ?job p rel read target c \<noteq> (Inl Panic, c')" for p rel read target c c'
    using safe by (metis fst_conv)
  have tree: "grep_tree ?job root m sch drops \<noteq> Inl Panic" for root m sch drops
    using grep_visits_safe [OF safe, of root "sat_mul_usize m 8" sch "\<lparr>gw_ctx = grep_ctx_new, gw_hits = \<lambda>_. []\<rparr>"]
    by (auto simp: grep_tree_def Let_def split: prod.splits sum.splits option.splits)
  show False
    using \<open>grep_run env ws input = Inl Panic\<close> s ctx one tree
    by (auto simp: grep_run_def rbind_def map_err_def lift_err_def Let_def split: sum.splits option.splits if_splits prod.splits)
qed

lemma glob_run_safe: "glob_run env ws input \<noteq> Inl Panic"
proof -
  have "unat m \<le> usize_max" for m :: u16
  proof -
    have "unat m < 2 ^ LENGTH(16)" by (rule unsigned_less)
    then show ?thesis by (simp add: usize_max_def)
  qed
  from glob_output_eq [OF this] show ?thesis
    by (auto simp: glob_run_def rbind_def map_err_def lift_err_def Let_def split: sum.splits)
qed

section \<open>The tools\<close>

text \<open>A valid \<open>read\<close> is a look at the size, a load through the cache, and the page of what was loaded.\<close>

lemma read_run_phases:
  assumes valid: "read_request_validate input = Inr ()" and p: "resolve_workspace_path view ws (rr_path input) = Inr p"
  obtains b w1 s w2 where "reads_blocking p w = (Inr b :: protocol_error fault + bool, w1)"
    "get_or_load hs p (snapshot_load x p) w1 = (s, w2)"
    "read_run hs x join view ws input w =
       (rbind (map_err (\<lambda>e. Err (snapshot_protocol_error ''read'' p e)) s) (\<lambda>snapshot. fst (read_page x join p input snapshot)), w2)"
proof -
  obtain b w1 where b: "reads_blocking p w = (Inr b :: protocol_error fault + bool, w1)"
    by (cases "sys_stat p w"; cases "fst (sys_stat p w)") (auto simp: reads_blocking_def comp_simps)
  obtain s w2 where s: "get_or_load hs p (snapshot_load x p) w1 = (s, w2)" by (metis surj_pair)
  have load: "load_shared hs x join p b w1 = (map_err (\<lambda>e. Err (snapshot_protocol_error ''read'' p e)) s, w2)"
    using s by (cases b; cases s) (simp_all add: load_shared_def spawn_blocking_def with_err_run Let_def)
  have "read_run hs x join view ws input w =
      (rbind (map_err (\<lambda>e. Err (snapshot_protocol_error ''read'' p e)) s) (\<lambda>snapshot. fst (read_page x join p input snapshot)), w2)"
    unfolding read_run_def valid p map_err_simps bind_lift_Inr
    by (cases s) (simp_all add: bind_run b load lift_def)
  with that b s show thesis by blast
qed

lemma keeps_reads_blocking: "keeps shared (reads_blocking p)"
  unfolding reads_blocking_def by (intro keeps_rules outside_shared)

lemma run_read_answers:
  assumes x: "externs_ok x" and w: "sound (wf_snapshot x) 0 w" and run: "run_read hs x join view encode ws input w = (r, w')"
  shows "sound (wf_snapshot x) 0 w' \<and> (\<exists>outcome. r = Inr outcome)"
proof -
  let ?P = "wf_snapshot x"
  obtain q w1 where q: "read_run hs x join view ws input w = (q, w1)" by (metis surj_pair)
  have "sound ?P 0 w1 \<and> q \<noteq> Inl Panic"
  proof (cases "read_request_validate input = Inr () \<and> (\<exists>p. resolve_workspace_path view ws (rr_path input) = Inr p)")
    case True
    then obtain p where valid: "read_request_validate input = Inr ()" and p: "resolve_workspace_path view ws (rr_path input) = Inr p" by blast
    obtain b w2 s w3 where ph: "reads_blocking p w = (Inr b :: protocol_error fault + bool, w2)"
      "get_or_load hs p (snapshot_load x p) w2 = (s, w3)"
      "read_run hs x join view ws input w =
         (rbind (map_err (\<lambda>e. Err (snapshot_protocol_error ''read'' p e)) s) (\<lambda>snapshot. fst (read_page x join p input snapshot)), w3)"
      by (rule read_run_phases [OF valid p])
    note w2 = givesD(1) [OF gives_outside [OF keeps_reads_blocking] w ph(1)]
    note loaded = givesD [OF gives_get_or_load [OF gives_load [OF x]] w2 ph(2)]
    show ?thesis
      using q ph(3) loaded read_page_safe [OF x _ valid, of _ join p] by (cases s) auto
  next
    case False
    then show ?thesis
      using q w by (cases "read_request_validate input"; cases "resolve_workspace_path view ws (rr_path input)")
        (auto simp: read_run_def raise_def)
  qed
  then show ?thesis
    using run q by (auto simp: run_read_def comp_simps split: sum.splits fault.splits)
qed

lemma run_edit_answers:
  assumes "externs_ok x" "\<forall>operation\<in>set (er_edits input). utf8_ok (op_content operation)" "sound (wf_snapshot x) 0 w"
    and "run_edit hs x join view encode encode_success ws input w = (r, w')"
  shows "sound (wf_snapshot x) 0 w' \<and> (\<exists>outcome. r = Inr outcome)"
proof -
  have kept: "keeps_sound x (run_edit hs x join view encode encode_success ws input :: ('z process_scheme, 'e, tool_outcome) comp)"
    unfolding run_edit_def edit_run_def spawn_blocking_def by (intro preserves_rules edit_sound assms(1,2))
  have "\<exists>outcome. r = Inr outcome"
    using assms(4) by (auto simp: run_edit_def comp_simps split: sum.splits prod.splits)
  moreover have "sound (wf_snapshot x) 0 w'" by (rule preservesD [OF kept assms(3,4)])
  ultimately show ?thesis by blast
qed

lemma run_write_answers:
  assumes "externs_ok x" "utf8_ok (wr_content input)" "sound (wf_snapshot x) 0 w"
    and "run_write hs x join view encode encode_success ws input w = (r, w')"
  shows "sound (wf_snapshot x) 0 w' \<and> (\<exists>outcome. r = Inr outcome)"
proof -
  have kept: "keeps_sound x (run_write hs x join view encode encode_success ws input :: ('z process_scheme, 'e, tool_outcome) comp)"
    unfolding run_write_def write_run_def spawn_blocking_def by (intro preserves_rules write_sound assms(1,2))
  have "\<exists>outcome. r = Inr outcome"
    using assms(4) by (auto simp: run_write_def comp_simps split: sum.splits prod.splits)
  moreover have "sound (wf_snapshot x) 0 w'" by (rule preservesD [OF kept assms(3,4)])
  ultimately show ?thesis by blast
qed

text \<open>
  What a call relies on: the crates behave as documented, and the strings the decoders produce are
  UTF-8, as every \<open>String\<close> is.
\<close>

definition backend_ok :: "'j backend \<Rightarrow> bool" where
  "backend_ok be \<longleftrightarrow> externs_ok (be_externs be) \<and> externs_ok (ge_externs (be_grep be)) \<and>
     (\<forall>p i search. ge_regex (be_grep be) p i = Inr search \<longrightarrow> search_ok search) \<and>
     (\<forall>j input. be_edit_args be j = Inr input \<longrightarrow> (\<forall>operation\<in>set (er_edits input). utf8_ok (op_content operation))) \<and>
     (\<forall>j input. be_write_args be j = Inr input \<longrightarrow> utf8_ok (wr_content input))"

lemma known_call_answers:
  assumes env': "backend_ok be" and w: "sound (wf_snapshot (be_externs be)) 0 w" and q: "call_outcome be sv name arguments w = (q, w')"
    and known: "name \<in> {''read'', ''edit'', ''write'', ''grep'', ''glob''}"
  shows "sound (wf_snapshot (be_externs be)) 0 w' \<and> (\<exists>outcome. q = Inr outcome)"
proof -
  note env = env' [unfolded backend_ok_def]
  have grep: "\<exists>outcome. blocking_task join name (run_grep encode (be_grep be) ws input) = Inr outcome" for join encode ws input
    using grep_run_safe [of "be_grep be" ws input] env
    by (auto simp: blocking_task_def run_grep_def split: sum.split fault.split)
  have glob: "\<exists>outcome. blocking_task join name (run_glob encode (be_glob be) ws input) = Inr outcome" for join encode ws input
    using glob_run_safe [of "be_glob be" ws input]
    by (auto simp: blocking_task_def run_glob_def split: sum.split fault.split)
  consider "name = ''read''" | "name = ''edit''" | "name = ''write''" | "name = ''grep''" | "name = ''glob''" using known by blast
  then show ?thesis
  proof cases
    case 1
    show ?thesis
    proof (cases "be_read_args be arguments")
      case (Inr input)
      obtain r1 where r1: "run_read (be_hashing be) (be_externs be) (be_join be) (be_view be) (be_error be) (server_workspace sv) input w = (r1, w')"
        "q = map_err (\<lambda>_. Panic) r1"
        using q 1 Inr by (auto simp: call_outcome_def with_err_run split: prod.splits)
      then show ?thesis using run_read_answers [OF _ w r1(1)] env by auto
    qed (use q 1 w in \<open>auto simp: call_outcome_def ret_def\<close>)
  next
    case 2
    show ?thesis
    proof (cases "be_edit_args be arguments")
      case (Inr input)
      have run: "run_edit (be_hashing be) (be_externs be) (be_join be) (be_view be) (be_error be) (be_edit_success be) (server_workspace sv) input w = (q, w')"
        using q 2 Inr by (simp add: call_outcome_def)
      show ?thesis using run_edit_answers [OF _ _ w run] env Inr by auto
    qed (use q 2 w in \<open>auto simp: call_outcome_def ret_def\<close>)
  next
    case 3
    show ?thesis
    proof (cases "be_write_args be arguments")
      case (Inr input)
      have run: "run_write (be_hashing be) (be_externs be) (be_join be) (be_view be) (be_error be) (be_write_success be) (server_workspace sv) input w = (q, w')"
        using q 3 Inr by (simp add: call_outcome_def)
      show ?thesis using run_write_answers [OF _ _ w run] env Inr by auto
    qed (use q 3 w in \<open>auto simp: call_outcome_def ret_def\<close>)
  next
    case 4
    then show ?thesis
      using q w grep by (cases "be_grep_args be arguments") (auto simp: call_outcome_def Let_def ret_def lift_def)
  next
    case 5
    then show ?thesis
      using q w glob by (cases "be_glob_args be arguments") (auto simp: call_outcome_def Let_def ret_def lift_def)
  qed
qed

section \<open>Properties\<close>

text \<open>
  Property C7.  Every call is answered.  Whatever the arguments are, whatever the files hold and other
  processes and threads do, a call of a listed tool ends with a tool result, never with a panic or
  a protocol error; a call of any other name is the protocol error that names it, and does nothing.
  After the call the cache is again as the next call needs it: all its snapshots are well-formed.
\<close>

theorem every_call_answered:
  assumes "backend_ok be" "sound (wf_snapshot (be_externs be)) 0 w" "dispatch be sv name arguments w = (r, w')"
  shows "(if name \<in> set (map tl_name (tool_listing schema)) then \<exists>result. r = Inr result
      else r = Inl (Err (InvalidParams (''Unknown tool: '' @ name))) \<and> w' = w) \<and>
    sound (wf_snapshot (be_externs be)) 0 w'"
proof -
  obtain q where q: "call_outcome be sv name arguments w = (q, w')" "r = map_sum id call_result_of q"
    using assms(3) by (auto simp: dispatch_def comp_simps split: prod.splits sum.splits)
  show ?thesis
  proof (cases "name \<in> {''read'', ''edit'', ''write'', ''grep'', ''glob''}")
    case True
    then show ?thesis using known_call_answers [OF assms(1,2) q(1) True] q(2) by (auto simp: tool_listing_names)
  next
    case False
    then have "q = Inl (Err (InvalidParams (''Unknown tool: '' @ name)))" "w' = w"
      using q(1) by (auto simp: call_outcome_def Let_def raise_def)
    then show ?thesis using False q(2) assms(2) by (auto simp: tool_listing_names)
  qed
qed

theorem every_call_answered_witness:
  "\<exists>result w'. dispatch plain_backend (server_new one_dir ''/a'') ''read'' () (small_process (with_capacity 2)) = (Inr result, w')"
proof -
  let ?sv = "server_new one_dir ''/a'' :: unit server" and ?w = "small_process (with_capacity 2)"
  obtain r w' where run: "dispatch plain_backend ?sv ''read'' () ?w = (r, w')" by (metis surj_pair)
  have ok: "backend_ok plain_backend" by (simp add: backend_ok_def plain_backend_def)
  have "sound (wf_snapshot (be_externs plain_backend)) 0 ?w" by (simp add: sound_def small_process_def world.defs)
  from every_call_answered [OF ok this run, of "\<lambda>_. ()"] show ?thesis
    using run by (auto simp: tool_listing_names)
qed

end
