(* ===== verification/Cross_Tools.thy ===== *)
theory Cross_Tools
  imports Read_Tool
begin

text \<open>
  The tools together: what a client does with the positions one tool shows it is what another tool
  then does to the text (rule R020 of \<open>docs/protocol.md\<close>).
\<close>

section \<open>One edit\<close>

lemma segments_upt:
  "a \<le> b \<Longrightarrow> b \<le> seg_count t \<Longrightarrow>
    concat (map (\<lambda>k. segments t ! k) [a..<b]) = concat (take (b - a) (drop a (segments t)))"
  by (intro arg_cong [of _ _ concat] nth_equalityI) (simp_all add: seg_count_def)

lemma piece_one: 
  "piece t [(a, b, c)] k =
    (if k = a then c else []) @ (if k < seg_count t \<and> \<not> (a \<le> k \<and> k < b) then segments t ! k else [])"
  by (simp add: piece_def inserted_at_def replaced_at_def covered_def)

lemma edit_spec_one:
  assumes "a \<le> b" "b \<le> seg_count t"
  shows "edit_spec t [(a, b, c)] = concat (take a (segments t)) @ c @ concat (drop b (segments t))"
proof -
  let ?n = "seg_count t" and ?p = "piece t [(a, b, c)]"
  have m: "map ?p [0..<a] = map (\<lambda>k. segments t ! k) [0..<a]"
    using assms by (intro map_cong) (auto simp: piece_one)
  have before: "concat (map ?p [0..<a]) = concat (take a (segments t))"
    unfolding m using assms segments_upt [of 0 a t] by simp
  have m: "map ?p [b..<?n] = (if b = a \<and> b < ?n then (c @ segments t ! b) # map (\<lambda>k. segments t ! k) [Suc b..<?n]
      else map (\<lambda>k. segments t ! k) [b..<?n])"
    using assms by (auto simp: piece_one upt_conv_Cons intro!: map_cong)
  have after: "concat (map ?p [b..<?n]) = (if b = a \<and> b < ?n then c else []) @ concat (drop b (segments t))"
    unfolding m using segments_upt [of b ?n t] assms by (auto simp: upt_conv_Cons seg_count_def)
  have mid: "concat (map ?p [a..<b]) = (if a < b then c else [])"
  proof (cases "a < b")
    case True
    have "map ?p [Suc a..<b] = map (\<lambda>_. []) [Suc a..<b]" using assms by (intro map_cong) (auto simp: piece_one)
    then show ?thesis using True by (simp add: upt_conv_Cons piece_one)
  qed simp
  have "[0..<Suc ?n] = [0..<a] @ [a..<b] @ [b..<?n] @ [?n]"
    using assms by (simp add: upt_split [of 0 a ?n] upt_split [of a b ?n])
  then show ?thesis
    using assms by (simp add: edit_spec_def before mid after) (auto simp: piece_one seg_count_def)
qed

section \<open>Properties\<close>

text \<open>The boundaries a page shows: its lines, and the line its cursor names.\<close>

definition shown :: "bytes \<Rightarrow> nat \<Rightarrow> nat \<Rightarrow> nat \<Rightarrow> bool" where
  "shown t lo limit k \<longleftrightarrow> lo \<le> k \<and> k < seg_count t \<and> k \<le> page_end (seg_count t) lo limit"

lemma page_shows:
  assumes "shown t lo limit k"
  shows "\<exists>pre post. page_text x path t lo limit = pre @ position_display (line_position t k) @ post"
proof (cases "k < page_end (seg_count t) lo limit")
  case True
  let ?n = "seg_count t" and ?tok = "position_display (line_position t k)"
  let ?hi = "page_end ?n lo limit" and ?h = "snapshot_header_render (x_json x) (text_header path (content_id x t) t)"
  let ?foot = "if ?hi < ?n then [LF] @ page_cursor_footer \<lparr>cur_snapshot = content_id x t, cur_next = line_position t ?hi\<rparr> else []"
  have lines: "[lo..<?hi] = [lo..<k] @ k # [Suc k..<?hi]"
    using True assms upt_split [of lo k ?hi] upt_conv_Cons [of k ?hi] by (simp add: shown_def)
  have "page_text x path t lo limit = (?h @ concat (map (page_line t) [lo..<k]) @ [LF]) @ ?tok @
      (''|'' @ text_line t k @ concat (map (page_line t) [Suc k..<?hi]) @ ?foot)"
    unfolding page_text_def Let_def lines by (simp add: page_line_def render_read_line_def)
  then show ?thesis by blast
next
  case False
  let ?h = "snapshot_header_render (x_json x) (text_header path (content_id x t) t)"
  have k: "page_end (seg_count t) lo limit = k" "k < seg_count t" using False assms by (auto simp: shown_def)
  have "page_text x path t lo limit = (?h @ concat (map (page_line t) [lo..<k]) @ [LF] @ ''[hashline next snapshot='' @
      snapshot_id_display (content_id x t) @ '' position='') @ position_display (line_position t k) @ '']''"
    unfolding page_text_def Let_def k(1) using k(2) by (simp add: page_cursor_footer_def)
  then show ?thesis by blast
qed

text \<open>
  Property C10.  From \<open>read\<close> to \<open>edit\<close>: take two positions that a page shows, in order, and send them back
  as text together with the identity in the header of the page.  They parse to what was meant,
  and the fast engine replaces exactly the lines between them by the content; the lines before
  and after stay byte for byte as they were.
\<close>

theorem page_positions_edit:
  assumes "externs_ok x" and "wf_snapshot x s" and "offsets_fit x s"
    and "1 \<le> unat start_line" and "unat start_line \<le> seg_count (sn_text s)"
    and "shown (sn_text s) (unat start_line - 1) (unat limit) a" and "shown (sn_text s) (unat start_line - 1) (unat limit) b"
    and "a \<le> b" and "NUL \<notin> set content"
    and "length (concat (take a (segments (sn_text s)))) + length content + length (concat (drop b (segments (sn_text s)))) \<le> max_file_len"
  shows "\<exists>page id_token from_token to_token start end id.
    fst (render_snapshot_page x path start_line limit s) = Inr page \<and>
    (\<exists>post. page = ''[hashline snapshot='' @ id_token @ post) \<and>
    (\<exists>pre post. page = pre @ from_token @ post) \<and> (\<exists>pre post. page = pre @ to_token @ post) \<and>
    snapshot_id_from_str id_token = Inr id \<and> position_from_str from_token = Inr start \<and> position_from_str to_token = Inr end \<and>
    fst (apply_edits_fast x \<lparr>er_path = path, er_snapshot = id, er_edits = [Replace start end content]\<rparr> s) =
      Inr (concat (take a (segments (sn_text s))) @ content @ concat (drop b (segments (sn_text s))))"
proof -
  let ?t = "sn_text s" and ?lo = "unat start_line - 1" and ?lim = "unat limit"
  let ?p = "line_position ?t a" and ?q = "line_position ?t b" and ?id = "sn_id s"
  let ?page = "page_text x path ?t ?lo ?lim"
  have ok: "text_ok ?t" and id: "?id = content_id x ?t" using assms(2) by (simp_all add: wf_snapshot_def)
  have ab: "a < seg_count ?t" "b < seg_count ?t" using assms(6,7) by (simp_all add: shown_def)
  have bounds: "is_boundary ?t ?p" "is_boundary ?t ?q" using line_position_boundary [OF assms(2)] ab by blast+
  have lines: "unat (pos_line ?p) = Suc a" "unat (pos_line ?q) = Suc b"
    using word_Suc_lt_count(2) [OF assms(2)] ab by (simp_all add: line_position_def del: of_nat_Suc)
  have parse: "position_from_str (position_display ?p) = Inr ?p" "position_from_str (position_display ?q) = Inr ?q"
    by (rule posn.parse_show; use lines in \<open>auto simp: valid_position_def\<close>)+
  have one: "map line_edit_of [Replace ?p ?q content] = [(a, b, content)]" using lines by (simp add: line_edit_of_def)
  note spec = edit_spec_one [OF assms(8) less_imp_le [OF ab(2)], of content]
  have "batch_ok ?t [Replace ?p ?q content]"
    unfolding batch_ok_def one spec using ok bounds lines assms(8-10) by (simp add: operation_ok_def word_le_nat_alt)
  then have edit: "apply_versioned_reference_edits ?t ?id \<lparr>er_path = path, er_snapshot = ?id, er_edits = [Replace ?p ?q content]\<rparr> =
      Inr (concat (take a (segments ?t)) @ content @ concat (drop b (segments ?t)))"
    unfolding versioned_edit_eq_Inr edit_request.simps one spec by simp
  have "fst (render_snapshot_page x path start_line limit s) = Inr ?page"
    using render_snapshot_page_run [OF assms(1-5)] by simp
  moreover have "\<exists>post. ?page = ''[hashline snapshot='' @ snapshot_id_display ?id @ post"
    by (simp add: page_text_def Let_def snapshot_header_render_def text_header_def id)
  moreover have "\<exists>pre post. ?page = pre @ position_display ?p @ post" "\<exists>pre post. ?page = pre @ position_display ?q @ post"
    using page_shows assms(6,7) by blast+
  moreover have "fst (apply_edits_fast x \<lparr>er_path = path, er_snapshot = ?id, er_edits = [Replace ?p ?q content]\<rparr> s) =
      Inr (concat (take a (segments ?t)) @ content @ concat (drop b (segments ?t)))"
    using apply_edits_fast_run [OF assms(1,2), of "\<lparr>er_path = path, er_snapshot = ?id, er_edits = [Replace ?p ?q content]\<rparr>"] edit by auto
  ultimately show ?thesis using parse sid.parse_show by blast
qed

theorem page_positions_edit_witness:
  "let s = fresh_snapshot plain_externs (''a'' @ [LF] @ ''b'') None in
   \<exists>from_token to_token start end. position_from_str from_token = Inr start \<and> position_from_str to_token = Inr end \<and>
     fst (apply_edits_fast plain_externs \<lparr>er_path = ''f'', er_snapshot = SnapshotId 3, er_edits = [Replace start end ''x'']\<rparr> s) =
       Inr ''xb''"
proof -
  let ?t = "''a'' @ [LF] @ ''b''" and ?s = "fresh_snapshot plain_externs (''a'' @ [LF] @ ''b'') None"
  have "text_ok ?t" by (simp add: text_ok_def max_file_len_def utf8_ok_ascii code_of_def)
  then have wf: "wf_snapshot plain_externs ?s" by simp
  have fit: "offsets_fit plain_externs ?s" by (simp add: offsets_fit_def plain_externs_def)
  have vis: "shown (sn_text ?s) (unat (1 :: u64) - 1) (unat (1 :: u16)) 0" "shown (sn_text ?s) (unat (1 :: u64) - 1) (unat (1 :: u16)) 1"
    by (simp_all add: shown_def page_end_def seg_count_def)
  from page_positions_edit [OF plain_externs_ok wf fit _ _ vis, of "''x''" "''f''"]
  obtain from_token to_token start finish id where t:
    "position_from_str from_token = Inr start" "position_from_str to_token = Inr finish"
    "fst (apply_edits_fast plain_externs \<lparr>er_path = ''f'', er_snapshot = id, er_edits = [Replace start finish ''x'']\<rparr> ?s) =
      Inr (concat (take 0 (segments ?t)) @ ''x'' @ concat (drop 1 (segments ?t)))"
    by (auto simp: seg_count_def max_file_len_def)
  have "id = SnapshotId 3"
    using t(3) apply_edits_fast_run [OF plain_externs_ok wf, of "\<lparr>er_path = ''f'', er_snapshot = id, er_edits = [Replace start finish ''x'']\<rparr>"]
    by (auto simp: versioned_edit_eq_Inr content_id_def plain_externs_def)
  then show ?thesis using t by auto
qed

end
