(* ===== verification/Quiet_Runs.thy ===== *)
theory Quiet_Runs
  imports Cross_Tools
begin

text \<open>
  Runs that nobody disturbs: no other process changes a file and no call fails, but calls may take
  time and reads and writes may be short.  Here the operations do not only keep their promises
  when they succeed, they succeed.
\<close>

section \<open>Rules\<close>

definition calm :: rely where
  "calm now t \<longleftrightarrow> tk_env t = id \<and> tk_fault t = None"

lemma allowed_calm: "allowed calm now t \<longleftrightarrow> tk_env t = id \<and> tk_fault t = None"
  by (auto simp: allowed_def calm_def quiet_tick_def)

text \<open>From a file system with \<open>A\<close> the program ends with an answer and a file system in \<open>B\<close>.\<close>

definition quiet :: "host \<Rightarrow> (fsys \<Rightarrow> bool) \<Rightarrow> ('z world_scheme, 'e, 'a) comp \<Rightarrow> ('e + 'a \<Rightarrow> fsys \<Rightarrow> bool) \<Rightarrow> bool" where
  "quiet h A m B \<longleftrightarrow> rg h calm (\<lambda>f now l. A f) m (\<lambda>r f now l. B r f)"

definition calm_world :: "'z world_scheme \<Rightarrow> bool" where
  "calm_world w \<longleftrightarrow> (\<forall>t\<in>set (w_script w). tk_env t = id \<and> tk_fault t = None)"

lemma script_ok_calm: "script_ok calm now ts \<longleftrightarrow> (\<forall>t\<in>set ts. tk_env t = id \<and> tk_fault t = None)"
  by (induction ts arbitrary: now) (auto simp: calm_def)

lemma calm_world_script: "calm_world w \<longleftrightarrow> script_ok calm (w_now w) (w_script w)"
  by (simp only: calm_world_def script_ok_calm)

lemma quietD:
  assumes "quiet h A m B" "host_of w = h" "calm_world w" "A (w_fs w)" "m w = (r, w')"
  shows "host_of w' = h" "calm_world w'" "B r (w_fs w')"
proof -
  have "holds (\<lambda>f now l. A f) w" using assms(4) by (simp only: holds_def)
  from rgD [OF assms(1) [unfolded quiet_def] assms(2) assms(3) [unfolded calm_world_script] this assms(5)]
  show "host_of w' = h" "calm_world w'" "B r (w_fs w')" by (simp_all only: calm_world_script holds_def)
qed

lemma quietI:
  fixes m :: "('z world_scheme, 'e, 'a) comp"
  assumes step: "\<And>w r w'. host_of w = h \<Longrightarrow> calm_world w \<Longrightarrow> A (w_fs w) \<Longrightarrow> m w = (r, w') \<Longrightarrow>
    host_of w' = h \<and> calm_world w' \<and> B r (w_fs w')"
  shows "quiet h A m B"
  unfolding quiet_def
proof (rule rgI)
  fix w :: "'z world_scheme" and r w'
  assume w: "host_of w = h" "script_ok calm (w_now w) (w_script w)" "holds (\<lambda>f now l. A f) w" "m w = (r, w')"
  have "calm_world w" "A (w_fs w)" using w(2,3) by (simp_all only: calm_world_script holds_def)
  from step [OF w(1) this w(4)]
  show "host_of w' = h \<and> script_ok calm (w_now w') (w_script w') \<and> holds (\<lambda>f now l. B r f) w'"
    by (simp only: calm_world_script holds_def)
qed

lemma quiet_conseq:
  "quiet h A' m B' \<Longrightarrow> (\<And>f. A f \<Longrightarrow> A' f) \<Longrightarrow> (\<And>r f. B' r f \<Longrightarrow> B r f) \<Longrightarrow> quiet h A m B"
  unfolding quiet_def by (rule rg_conseq)

lemma quiet_post: "quiet h A m B' \<Longrightarrow> (\<And>r f. B' r f \<Longrightarrow> B r f) \<Longrightarrow> quiet h A m B"
  by (rule quiet_conseq)

lemma quiet_ret: "(\<And>f. A f \<Longrightarrow> B (Inr v) f) \<Longrightarrow> quiet h A (ret v) B"
  unfolding quiet_def by (rule rg_ret)

lemma quiet_lift: "(\<And>f. A f \<Longrightarrow> B m f) \<Longrightarrow> quiet h A (lift m) B"
  unfolding quiet_def by (rule rg_lift)

lemma quiet_raise: "(\<And>f. A f \<Longrightarrow> B (Inl e) f) \<Longrightarrow> quiet h A (raise e) B"
  unfolding quiet_def by (rule rg_raise)

lemma quiet_bind:
  assumes "quiet h A m (case_sum (\<lambda>_ _. False) C)" "\<And>v. quiet h (C v) (k v) B"
  shows "quiet h A (bind m k) B"
  unfolding quiet_def
  by (rule rg_bind [OF rg_post [OF assms(1) [unfolded quiet_def]] assms(2) [unfolded quiet_def]]) (auto split: sum.splits)

text \<open>An error ends a sequence.\<close>

lemma quiet_stop:
  fixes m :: "('z world_scheme, 'e, 'a) comp"
  assumes "quiet h A m (case_sum (\<lambda>e. B (Inl e)) (\<lambda>_ _. False))"
  shows "quiet h A (bind m k) B"
proof (rule quietI)
  fix w :: "'z world_scheme" and r w'
  assume w: "host_of w = h" "calm_world w" "A (w_fs w)" "bind m k w = (r, w')"
  obtain q w1 where q: "m w = (q, w1)" by (metis surj_pair)
  note one = quietD [OF assms w(1-3) q]
  then show "host_of w' = h \<and> calm_world w' \<and> B r (w_fs w')" using w(4) q by (auto simp: bind_run split: sum.splits)
qed

lemma quiet_handle:
  assumes "quiet h A m (case_sum D C)" "\<And>e. quiet h (D e) (g e) B" "\<And>v. quiet h (C v) (k v) B"
  shows "quiet h A (handle m g k) B"
  unfolding quiet_def
  by (rule rg_handle [OF rg_post [OF assms(1) [unfolded quiet_def]] assms(2,3) [unfolded quiet_def]]) (auto split: sum.splits)

lemma quiet_with_err: "quiet h A m (\<lambda>r. B (map_err g r)) \<Longrightarrow> quiet h A (with_err g m) B"
  unfolding quiet_def by (rule rg_with_err)

lemma quiet_ignore: "quiet h A m (\<lambda>_. B (Inr ())) \<Longrightarrow> quiet h A (ignore m) B"
  unfolding quiet_def by (rule rg_ignore)

lemma quiet_dep: "(\<And>w. host_of w = h \<Longrightarrow> quiet h A (m w) B) \<Longrightarrow> quiet h A (\<lambda>w. m w w) B"
  unfolding quiet_def by (rule rg_dep)

lemma quiet_pure: "(P \<Longrightarrow> quiet h A m B) \<Longrightarrow> quiet h (\<lambda>f. P \<and> A f) m B"
  unfolding quiet_def rg_def holds_def by blast

lemma quiet_exists: "(\<And>a. quiet h (A a) m B) \<Longrightarrow> quiet h (\<lambda>f. \<exists>a. A a f) m B"
  unfolding quiet_def rg_def holds_def by blast

lemma quiet_never [simp]: "quiet h (\<lambda>_. False) m B"
  by (simp add: quiet_def rg_def holds_def)

lemma quiet_fix: "(\<And>F. A F \<Longrightarrow> quiet h (\<lambda>f. f = F) m B) \<Longrightarrow> quiet h A m B"
  unfolding quiet_def rg_def holds_def by blast

lemma quiet_syscall:
  assumes "\<And>f now chunk r f'. A f \<Longrightarrow> act (fst h now) chunk f = (r, f') \<Longrightarrow> B r f'"
  shows "quiet h A (syscall act) B"
  unfolding quiet_def by (rule rg_syscall) (use assms in \<open>auto simp: allowed_calm\<close>)

section \<open>Calls on a file system that stays as it is\<close>

lemma quiet_open: "quiet h (\<lambda>f. f = F) (sys_open p) (\<lambda>r f. r = ok_or not_found (lookup F p) \<and> f = F)"
  unfolding sys_open_def by (rule quiet_syscall) simp

lemma quiet_fstat: "quiet h (\<lambda>f. f = F) (sys_fstat i) (\<lambda>r f. r = Inr (inode_metadata (fst (snd h)) F i) \<and> f = F)"
  unfolding sys_fstat_def by (rule quiet_dep, rule quiet_syscall) (auto simp: host_of_def)

lemma quiet_stat:
  "quiet h (\<lambda>f. f = F) (sys_stat p) (\<lambda>r f. r = (case lookup F p of None \<Rightarrow> Inl not_found
     | Some i \<Rightarrow> Inr (inode_metadata (fst (snd h)) F i)) \<and> f = F)"
  unfolding sys_stat_def by (rule quiet_dep, rule quiet_syscall) (auto simp: host_of_def split: option.splits)

lemma quiet_sync: "quiet h (\<lambda>f. f = F) (sys_sync i) (\<lambda>r f. r = Inr () \<and> f = F)"
  unfolding sys_sync_def by (rule quiet_syscall) simp

lemma quiet_stamp: "quiet h (\<lambda>f. f = F) (stamp_of m) (\<lambda>r f. (\<exists>now. r = Inr (stamp_from_metadata now m)) \<and> f = F)"
  by (rule quietI) (auto simp: stamp_of_def)

lemma quiet_is_dir:
  "lookup F p = Some i \<Longrightarrow> in_dir (f_inodes F i) \<Longrightarrow> quiet h (\<lambda>f. f = F) (sys_is_dir p) (\<lambda>r f. r = Inr True \<and> f = F)"
  unfolding sys_is_dir_def
  by (rule quiet_handle [where D = "\<lambda>_ _. False" and C = "\<lambda>m f. \<not> md_is_file m \<and> f = F"], rule quiet_post [OF quiet_stat])
    (auto intro!: quiet_ret simp: inode_metadata_def Let_def)

text \<open>Reading a whole file, in whatever pieces.\<close>

lemma quiet_read_all:
  assumes "\<not> in_dir (f_inodes F i)" "in_bytes (f_inodes F i) = acc @ rest"
    and "case limit of None \<Rightarrow> length (acc @ rest) \<le> usize_max | Some n \<Rightarrow> length (acc @ rest) < n"
  shows "quiet h (\<lambda>f. f = F) (read_all i limit acc) (\<lambda>r f. r = Inr (acc @ rest) \<and> f = F)"
proof (rule quietI)
  fix w :: "'z world_scheme" and r w'
  assume w: "host_of w = h" "calm_world w" "w_fs w = F" "read_all i limit acc w = (r, w')"
  then show "host_of w' = h \<and> calm_world w' \<and> r = Inr (acc @ rest) \<and> w_fs w' = F"
    using assms
  proof (induction i limit acc w arbitrary: rest rule: read_all.induct)
    case (1 i limit acc w)
    define room where "room = (case limit of None \<Rightarrow> usize_max | Some n \<Rightarrow> n - length acc)"
    have pos: "room \<noteq> 0" using 1(9) by (auto simp: usize_max_def room_def split: option.splits)
    obtain q w1 where q: "sys_read i (length acc) room w = (q, w1)" by (metis surj_pair)
    have "quiet h (\<lambda>f. f = F) (sys_read i (length acc) room) (\<lambda>r f. (\<exists>k. r = Inr (take (min room (Suc k)) rest)) \<and> f = F)"
      unfolding sys_read_def using 1(7,8) by (intro quiet_syscall) auto
    note one = quietD [OF this 1(3-5) q]
    then obtain k where k: "q = Inr (take (min room (Suc k)) rest)" and f: "w_fs w1 = F" by blast
    define d where "d = take (min room (Suc k)) rest"
    define e where "e = drop (min room (Suc k)) rest"
    have rest: "rest = d @ e" by (simp add: d_def e_def)
    have run: "(if d = [] then (Inr acc, w1) else read_all i limit (acc @ d) w1) = (r, w')"
      using 1(6) pos q k unfolding read_all.simps [of i limit acc w] Let_def room_def [symmetric] d_def by simp
    show ?case
    proof (cases "d = []")
      case True
      then have "rest = []" using pos by (auto simp: d_def)
      then show ?thesis using run one f True by auto
    next
      case False
      have "read_all i limit (acc @ d) w1 = (r, w')" using run False by simp
      have all: "acc @ rest = (acc @ d) @ e" by (simp add: rest)
      show ?thesis unfolding all
        by (rule 1(2) [OF refl pos [unfolded room_def] q [symmetric, unfolded room_def] k [folded d_def] False one(1,2) f
              \<open>read_all i limit (acc @ d) w1 = (r, w')\<close>])
          (use 1(7) 1(8,9) [unfolded all] in simp_all)
    qed
  qed
qed

text \<open>File \<open>i\<close> of \<open>f\<close> has the bytes; for the rest \<open>f\<close> is \<open>F\<close>.\<close>

definition filled :: "nat \<Rightarrow> bytes \<Rightarrow> fsys \<Rightarrow> fsys \<Rightarrow> bool" where
  "filled i bytes F f \<longleftrightarrow> f_names f = f_names F \<and> f_next f = f_next F \<and>
     (\<forall>j. j \<noteq> i \<longrightarrow> f_inodes f j = f_inodes F j) \<and> \<not> in_dir (f_inodes f i) \<and> in_bytes (f_inodes f i) = bytes"

lemma filled_refl: "\<not> in_dir (f_inodes F i) \<Longrightarrow> filled i (in_bytes (f_inodes F i)) F F"
  by (simp add: filled_def)

lemma filled_trans: "filled i a F f \<Longrightarrow> filled i b f g \<Longrightarrow> filled i b F g"
  by (auto simp: filled_def)

lemma filledD: "filled i bytes F f \<Longrightarrow> \<not> in_dir (f_inodes f i) \<and> in_bytes (f_inodes f i) = bytes"
  by (auto simp: filled_def)

lemma quiet_write_all:
  assumes "filled i pre F0 F" "length data \<le> usize_max"
  shows "quiet h (\<lambda>f. f = F) (write_all i (length pre) data) (\<lambda>r f. r = Inr () \<and> filled i (pre @ data) F0 f)"
proof (rule quietI)
  fix w :: "'z world_scheme" and r w'
  assume w: "host_of w = h" "calm_world w" "w_fs w = F" "write_all i (length pre) data w = (r, w')"
  then show "host_of w' = h \<and> calm_world w' \<and> r = Inr () \<and> filled i (pre @ data) F0 (w_fs w')"
    using assms
  proof (induction i "length pre" data w arbitrary: pre F rule: write_all.induct)
    case (1 i data w)
    show ?case
    proof (cases "data = []")
      case True
      then show ?thesis using 1(3-7) by (simp add: write_all.simps)
    next
      case False
      obtain q w1 where q: "sys_write i (length pre) data w = (q, w1)" by (metis surj_pair)
      have "quiet h (\<lambda>f. f = F) (sys_write i (length pre) data)
          (\<lambda>r f. \<exists>k. r = Inr (length (take (Suc k) data)) \<and> filled i (pre @ take (Suc k) data) F f)"
        unfolding sys_write_def
      proof (rule quiet_syscall)
        fix f now chunk r f'
        assume "f = F" and act: "(let part = take (Suc chunk) data; n = f_inodes f i in
          (Inr (length part), f\<lparr>f_inodes := (f_inodes f)
            (i := n\<lparr>in_bytes := write_at (length pre) part (in_bytes n), in_mtime := fst h now, in_ctime := fst h now\<rparr>)\<rparr>)) =
          (r, f')"
        then show "\<exists>k. r = Inr (length (take (Suc k) data)) \<and> filled i (pre @ take (Suc k) data) F f'"
          using filledD [OF 1(7)] by (auto simp: filled_def write_at_def Let_def intro!: exI [of _ chunk])
      qed
      note one = quietD [OF this 1(3-5) q]
      then obtain k where k: "q = Inr (length (take (Suc k) data))" and f: "filled i (pre @ take (Suc k) data) F (w_fs w1)"
        by blast
      define d where "d = take (Suc k) data"
      define e where "e = drop (Suc k) data"
      have data: "data = d @ e" "d \<noteq> []" using False by (simp_all add: d_def e_def)
      have n: "q = Inr (length d)" "length d \<noteq> 0" using k data(2) by (simp_all add: d_def)
      have run: "write_all i (length pre + length d) (drop (length d) data) w1 = (r, w')"
        using 1(6) False n unfolding write_all.simps [of i "length pre" data w] q by simp
      have all: "pre @ data = (pre @ d) @ drop (length d) data" by (simp add: data)
      show ?thesis unfolding all
        by (rule 1(2) [OF False q [symmetric] n _ one(1,2) refl])
          (use run f [folded d_def] filled_trans [OF 1(7)] 1(8) data in \<open>auto simp: d_def [symmetric]\<close>)
    qed
  qed
qed

section \<open>Loading\<close>

lemma quiet_read_loop:
  assumes i: "\<not> in_dir (f_inodes F i)" "in_bytes (f_inodes F i) = acc @ rest" and len: "length (acc @ rest) \<le> max_file_len"
    and room: "\<forall>n. x_reserve x n"
  shows "quiet h (\<lambda>f. f = F) (read_loop x p i acc capacity) (\<lambda>r f. r = Inr (acc @ rest) \<and> f = F)"
proof (rule quietI)
  fix w :: "'z world_scheme" and r w'
  assume w: "host_of w = h" "calm_world w" "w_fs w = F" "read_loop x p i acc capacity w = (r, w')"
  then show "host_of w' = h \<and> calm_world w' \<and> r = Inr (acc @ rest) \<and> w_fs w' = F"
    using assms
  proof (induction x p i acc capacity w arbitrary: rest rule: read_loop.induct)
    case (1 x p i acc capacity w)
    obtain q w1 where q: "sys_read i (length acc) READ_BUFFER_BYTES w = (q, w1)" by (metis surj_pair)
    have "quiet h (\<lambda>f. f = F) (sys_read i (length acc) READ_BUFFER_BYTES)
        (\<lambda>r f. (\<exists>k>0. r = Inr (take k rest)) \<and> f = F)"
      unfolding sys_read_def using 1(7,8) by (intro quiet_syscall) (auto simp: READ_BUFFER_BYTES_def intro: exI [of _ "min 65536 (Suc c)" for c])
    note one = quietD [OF this 1(3-5) q]
    then obtain k where k: "k > 0" "q = Inr (take k rest)" and f: "w_fs w1 = F" by blast
    define d where "d = take k rest"
    define e where "e = drop k rest"
    have rest: "rest = d @ e" by (simp add: d_def e_def)
    show ?case
    proof (cases "d = []")
      case True
      then have "rest = []" using k(1) by (auto simp: d_def)
      moreover have "(r, w') = (Inr acc, w1)"
        using 1(6) q k True unfolding read_loop.simps [of x p i acc capacity w] d_def [symmetric] by simp
      ultimately show ?thesis using one f by simp
    next
      case False
      let ?n = "length acc + length d"
      have n: "?n \<le> max_file_len" "?n \<le> usize_max" using 1(9) rest max_file_len_le [of "length (acc @ rest)"] by auto
      then have steps: "checked_add_usize (length acc) (length d) = Some ?n" "u64_of_usize ?n = Some (of_nat ?n)"
          "validate_file_size (of_nat ?n) = Inr ()"
        by (simp_all only: checked_add_usize_def u64_of_usize_def validate_file_size_eq_Inr unat_of_nat_u64 if_True)
      have go: "\<not> (?n > capacity \<and> \<not> x_reserve x (?n - length acc))" using 1(10) by simp
      have run: "read_loop x p i (acc @ d) (max capacity ?n) w1 = (r, w')"
        using 1(6) q k False go unfolding read_loop.simps [of x p i acc capacity w] d_def [symmetric]
        by (simp add: steps 1(10) del: of_nat_add)
      have all: "acc @ rest = (acc @ d) @ e" by (simp add: rest)
      show ?thesis unfolding all
        by (rule 1(2) [OF q [symmetric] k(2) [folded d_def] False steps go one(1,2) f run])
          (use 1(7) 1(8,9) [unfolded all] 1(10) in simp_all)
    qed
  qed
qed

text \<open>The stamp of a file, at a time that is left open.\<close>

definition stamp_now :: "u64 \<Rightarrow> fsys \<Rightarrow> nat \<Rightarrow> file_stamp \<Rightarrow> bool" where
  "stamp_now device F i s \<longleftrightarrow> (\<exists>now. s = stamp_from_metadata now (inode_metadata device F i))"

lemma stamp_now_eq: "stamp_now d F i s \<Longrightarrow> stamp_now d F i s' \<Longrightarrow> stamp_eq s s'"
  by (auto simp: stamp_now_def stamp_from_metadata_def stamp_eq_def)

lemma stamp_now_len: "stamp_now d F i s \<Longrightarrow> fs_len s = of_nat (length (in_bytes (f_inodes F i)))"
  by (auto simp: stamp_now_def stamp_from_metadata_def inode_metadata_def Let_def)

lemma quiet_stamp_now:
  "quiet h (\<lambda>f. f = F) (stamp_of (inode_metadata d F i)) (\<lambda>r f. (\<exists>s. r = Inr s \<and> stamp_now d F i s) \<and> f = F)"
  by (rule quiet_post [OF quiet_stamp]) (auto simp: stamp_now_def)

lemma quiet_fs_read:
  assumes "lookup F p = Some i" "\<not> in_dir (f_inodes F i)" "length (in_bytes (f_inodes F i)) \<le> usize_max"
  shows "quiet h (\<lambda>f. f = F) (fs_read p) (\<lambda>r f. r = Inr (in_bytes (f_inodes F i)) \<and> f = F)"
  unfolding fs_read_def
  by (rule quiet_bind [where C = "\<lambda>j f. j = i \<and> f = F"], rule quiet_post [OF quiet_open], use assms in simp,
      rule quiet_pure, use quiet_read_all [of F i "[]" "in_bytes (f_inodes F i)" None h] assms in simp)

text \<open>A regular file that holds the text, under the path.\<close>

definition held_at :: "fsys \<Rightarrow> path \<Rightarrow> nat \<Rightarrow> bytes \<Rightarrow> bool" where
  "held_at F p i t \<longleftrightarrow> lookup F p = Some i \<and> \<not> in_dir (f_inodes F i) \<and> in_bytes (f_inodes F i) = t"

lemma quiet_path_stamp:
  "lookup F p = Some i \<Longrightarrow>
    quiet h (\<lambda>f. f = F) (path_stamp p) (\<lambda>r f. (\<exists>s. r = Inr (Some s) \<and> stamp_now (fst (snd h)) F i s) \<and> f = F)"
  unfolding path_stamp_def
  by (rule quiet_handle [where D = "\<lambda>_ _. False" and C = "\<lambda>m f. m = inode_metadata (fst (snd h)) F i \<and> f = F"],
      rule quiet_post [OF quiet_stat])
    (auto intro!: quiet_raise quiet_pure quiet_ret quiet_bind [where C = "\<lambda>s f. stamp_now (fst (snd h)) F i s \<and> f = F"]
      intro: quiet_post [OF quiet_stamp_now])

text \<open>The candidate of an untouched text: its stamps agree and it settles.\<close>

definition loaded :: "u64 \<Rightarrow> fsys \<Rightarrow> nat \<Rightarrow> bytes \<Rightarrow> 'e + (bytes \<times> file_stamp) option \<Rightarrow> fsys \<Rightarrow> bool" where
  "loaded device F i t r f \<longleftrightarrow> (\<exists>s. r = Inr (Some (t, s)) \<and> stamp_now device F i s) \<and> f = F"

lemma quiet_settle:
  assumes x: "externs_ok x" and held: "held_at F p i t" and ok: "text_ok t" and after: "stamp_now (fst (snd h)) F i after"
  shows "quiet h (\<lambda>f. f = F) (settle_candidate x p t after) (loaded (fst (snd h)) F i t)"
proof -
  have i: "lookup F p = Some i" "\<not> in_dir (f_inodes F i)" "in_bytes (f_inodes F i) = t" using held by (simp_all add: held_at_def)
  have len: "length t \<le> usize_max" using text_ok_parts [OF ok] by simp
  have valid: "validated_text x t = Inr t" using x ok by (simp add: validated_text_eq validate_text_eq_Inr)
  have accept: "quiet h (\<lambda>f. f = F) (accept_text x t after) (loaded (fst (snd h)) F i t)"
    unfolding accept_text_def valid map_err_simps bind_lift_Inr by (rule quiet_ret) (use after in \<open>simp add: loaded_def\<close>)
  show ?thesis
  proof (cases "fs_racy after")
    case True
    then show ?thesis unfolding settle_candidate_def
      by (simp, intro quiet_handle [where D = "\<lambda>_ _. False" and C = "\<lambda>bytes f. bytes = t \<and> f = F"])
        (use i len accept in \<open>auto intro!: quiet_raise quiet_ret quiet_pure intro: quiet_post [OF quiet_fs_read [OF i(1)]]\<close>)
  qed (use accept in \<open>simp add: settle_candidate_def\<close>)
qed

lemma quiet_stat_stamp:
  assumes "\<And>s. stamp_now (fst (snd h)) F i s \<Longrightarrow> quiet h (\<lambda>f. f = F) (k s) B"
  shows "quiet h (\<lambda>f. f = F)
    (bind (with_err (SnIo what p) (sys_fstat i)) (\<lambda>m. bind (stamp_of m) k) :: ('z world_scheme, snapshot_error, 'a) comp) B"
proof (rule quiet_bind [where C = "\<lambda>m f. m = inode_metadata (fst (snd h)) F i \<and> f = F"], goal_cases)
  case 1
  show ?case by (rule quiet_with_err, rule quiet_post [OF quiet_fstat]) simp
next
  case (2 m)
  show ?case
  proof (rule quiet_pure, rule quiet_bind [where C = "\<lambda>s f. stamp_now (fst (snd h)) F i s \<and> f = F"], goal_cases)
    case 1
    then show ?case by (simp, intro quiet_post [OF quiet_stamp_now]) auto
  next
    case (2 s)
    show ?case by (rule quiet_pure, rule assms)
  qed
qed

lemma quiet_confirm:
  assumes x: "externs_ok x" and held: "held_at F p i t" and ok: "text_ok t"
    and before: "stamp_now (fst (snd h)) F i before" and after: "stamp_now (fst (snd h)) F i after"
  shows "quiet h (\<lambda>f. f = F) (bind (path_stamp p) (\<lambda>current.
     bind (lift (ok_or (SnAddressSpace (- 1)) (u64_of_usize (length t)))) (\<lambda>actual_len.
     if \<not> stamp_eq before after \<or> \<not> stamp_opt_eq current (Some after) \<or> actual_len \<noteq> fs_len after
     then ret None else settle_candidate x p t after))) (loaded (fst (snd h)) F i t)"
proof (rule quiet_bind [where C = "\<lambda>c f. (\<exists>s. c = Some s \<and> stamp_now (fst (snd h)) F i s) \<and> f = F"], goal_cases)
  case 1
  have "lookup F p = Some i" using held by (simp add: held_at_def)
  from quiet_path_stamp [OF this] show ?case by (rule quiet_post) auto
next
  case (2 current)
  have len: "length t \<le> usize_max" "length t \<le> max_file_len" "in_bytes (f_inodes F i) = t"
    using text_ok_parts [OF ok] held by (simp_all add: held_at_def)
  show ?case
  proof (rule quiet_pure, elim exE conjE, goal_cases)
    case (1 s)
    show ?case
      using stamp_now_eq [OF before after] stamp_now_eq [OF 1(2) after] len stamp_now_len [OF after]
        quiet_settle [OF x held ok after] 1(1)
      by (simp add: u64_of_usize_def ok_or_def stamp_opt_eq_def)
  qed
qed

lemma quiet_read_candidate:
  assumes x: "externs_ok x" "\<forall>n. x_reserve x n" and held: "held_at F p i t" and ok: "text_ok t"
  shows "quiet h (\<lambda>f. f = F) (read_candidate x p) (loaded (fst (snd h)) F i t)"
  unfolding read_candidate_def
proof (rule quiet_bind [where C = "\<lambda>j f. j = i \<and> f = F"], goal_cases)
  case 1
  show ?case by (rule quiet_with_err, rule quiet_post [OF quiet_open]) (use held in \<open>simp add: held_at_def\<close>)
next
  case (2 j)
  have i: "\<not> in_dir (f_inodes F i)" "in_bytes (f_inodes F i) = t" and len: "length t \<le> max_file_len" "length t \<le> usize_max"
    using held text_ok_parts [OF ok] by (simp_all add: held_at_def)
  show ?case
  proof (rule quiet_pure, simp only:, rule quiet_stat_stamp, goal_cases)
    case (1 before)
    have steps: "validate_file_size (fs_len before) = Inr ()" "usize_of_u64 (fs_len before) = Some (length t)"
      using stamp_now_len [OF 1(2)] i(2) len by (simp_all add: usize_of_u64_def)
    have loop: "quiet h (\<lambda>f. f = F) (read_loop x p i [] (length t)) (\<lambda>r f. r = Inr t \<and> f = F)"
      using quiet_read_loop [of F i "[]" t x h p "length t"] i len(1) x(2) by simp
    show ?case
      unfolding steps map_err_simps ok_or_def option.case bind_lift_Inr
    proof (simp only: x(2) if_True bind_lift_Inr, rule quiet_bind [where C = "\<lambda>bytes f. bytes = t \<and> f = F"], goal_cases)
      case 1
      show ?case by (rule quiet_post [OF loop]) simp
    next
      case (2 bytes)
      show ?case
        by (rule quiet_pure, simp only:, rule quiet_stat_stamp)
          (rule quiet_confirm [OF x(1) held ok 1(2), unfolded ok_or_def])
    qed
  qed
qed

text \<open>A load finds the content of the file, stamped.\<close>

lemma quiet_load:
  assumes x: "externs_ok x" "\<forall>n. x_reserve x n" and held: "held_at F p i t" and ok: "text_ok t"
  shows "quiet h (\<lambda>f. f = F) (snapshot_load x p)
    (\<lambda>r f. (\<exists>s. r = Inr (fresh_snapshot x t (Some s)) \<and> stamp_now (fst (snd h)) F i s) \<and> f = F)"
  unfolding snapshot_load_twice load_attempts.simps(2) [of x p "Suc 0"]
proof (rule quiet_bind [where C = "\<lambda>c f. (\<exists>s. c = Some (t, s) \<and> stamp_now (fst (snd h)) F i s) \<and> f = F"], goal_cases)
  case 1
  show ?case by (rule quiet_post [OF quiet_read_candidate [OF assms]]) (auto simp: loaded_def)
next
  case (2 c)
  show ?case
    by (rule quiet_pure) (auto intro!: quiet_lift simp: from_validated_with_stamp_ok [OF x(1) ok])
qed

text \<open>A load of a path that names nothing says so.\<close>

lemma quiet_load_missing:
  assumes "lookup F p = None"
  shows "quiet h (\<lambda>f. f = F) (snapshot_load x p) (\<lambda>r f. (\<exists>e. r = Inl e \<and> is_missing e) \<and> f = F)"
  unfolding snapshot_load_twice load_attempts.simps(2) [of x p "Suc 0"] read_candidate_def
  by (intro quiet_stop quiet_with_err, rule quiet_post [OF quiet_open])
    (use assms in \<open>auto simp: ok_or_def is_missing_def not_found_def\<close>)

end
