(* ===== verification/Quiet_Persist.thy ===== *)
theory Quiet_Persist
  imports Quiet_Runs
begin

text \<open>
  The atomic operations when nobody disturbs them: they succeed, the destination has the new
  content under a new inode, and nothing else of the file system is different.
\<close>

section \<open>The destination and its directory\<close>

text \<open>\<open>f\<close> is \<open>F\<close> with one more file, under the key.\<close>

definition with_file :: "component list \<Rightarrow> bytes \<Rightarrow> fsys \<Rightarrow> fsys \<Rightarrow> bool" where
  "with_file k bytes F f \<longleftrightarrow> f_names f = (f_names F)(k \<mapsto> f_next F) \<and> f_next f = Suc (f_next F) \<and>
     (\<forall>i. i \<noteq> f_next F \<longrightarrow> f_inodes f i = f_inodes F i) \<and>
     \<not> in_dir (f_inodes f (f_next F)) \<and> in_bytes (f_inodes f (f_next F)) = bytes"

lemma with_fileD:
  assumes "with_file k bytes F f"
  shows "f_names f = (f_names F)(k \<mapsto> f_next F)" "\<not> in_dir (f_inodes f (f_next F))" "in_bytes (f_inodes f (f_next F)) = bytes"
    "i \<noteq> f_next F \<Longrightarrow> f_inodes f i = f_inodes F i" "f_next f = Suc (f_next F)"
  using assms by (auto simp: with_file_def)

lemma with_file_filled: "with_file k a F f \<Longrightarrow> filled (f_next F) b f g \<Longrightarrow> with_file k b F g"
  by (auto simp: with_file_def filled_def)

lemma with_file_content:
  assumes "with_file (path_components p) bytes F f"
  shows "content_at f p = Some bytes"
    "fs_ok F \<Longrightarrow> path_components q \<noteq> path_components p \<Longrightarrow> content_at f q = content_at F q"
proof -
  note f = with_fileD [OF assms]
  show "content_at f p = Some bytes" by (simp add: content_at_def lookup_def f)
  assume ok: "fs_ok F" and other: "path_components q \<noteq> path_components p"
  have "f_names F (path_components q) \<noteq> Some (f_next F)" by (rule fs_ok_fresh [OF ok])
  then show "content_at f q = content_at F q"
    using other f(4) by (cases "f_names F (path_components q)") (auto simp: content_at_def lookup_def f(1))
qed

lemma with_file_held: "with_file (path_components p) bytes F f \<Longrightarrow> held_at f p (f_next F) bytes"
  by (simp add: held_at_def lookup_def with_fileD)

text \<open>
  A destination that can be written to: its directory exists, it is no directory, and no temporary
  file of this process is left over beside it.
\<close>

definition writable :: "host \<Rightarrow> fsys \<Rightarrow> path \<Rightarrow> bool" where
  "writable h F p \<longleftrightarrow> fs_ok F \<and> path_parent p \<noteq> None \<and> parent_exists F p \<and> ordinary p \<and>
     (\<forall>i. lookup F p = Some i \<longrightarrow> \<not> in_dir (f_inodes F i)) \<and>
     (\<forall>c now. lookup F (temp_path p (snd (snd h)) c now) = None)"

lemma quiet_directory:
  assumes "writable h F p" "path_parent p = Some d"
  shows "quiet h (\<lambda>f. f = F) (create_dir_all d) (\<lambda>r f. r = Inr () \<and> f = F)"
proof (cases "path_components d = []")
  case True
  then show ?thesis by (simp add: create_dir_all.simps quiet_ret)
next
  case False
  have "path_components d = butlast (path_components p)" using path_parent_components [OF assms(2)] by simp
  then obtain i where i: "lookup F d = Some i" "in_dir (f_inodes F i)"
    using assms(1) False by (auto simp: writable_def parent_exists_def lookup_def Let_def split: option.splits)
  have "quiet h (\<lambda>f. f = F) (sys_mkdir d) (\<lambda>r f. r = Inl already_exists \<and> f = F)"
    unfolding sys_mkdir_def using i by (intro quiet_syscall) auto
  then show ?thesis
    unfolding create_dir_all.simps [of d] if_not_P [OF False]
  proof (rule quiet_handle [where D = "\<lambda>e f. e = already_exists \<and> f = F" and C = "\<lambda>_ _. False", OF quiet_post], goal_cases)
    case (2 e)
    show ?case
      by (rule quiet_pure) (auto simp: already_exists_def
          intro!: quiet_bind [where C = "\<lambda>d f. d \<and> f = F"] quiet_pure quiet_ret quiet_post [OF quiet_is_dir [OF i]])
  qed (auto intro: quiet_ret)
qed

lemma quiet_create_parent:
  assumes "writable h F p"
  shows "quiet h (\<lambda>f. f = F) (create_parent p) (\<lambda>r f. r = Inr () \<and> f = F)"
  unfolding create_parent_def
  by (cases "path_parent p") (use quiet_directory [OF assms] in \<open>auto intro!: quiet_ret quiet_with_err intro: quiet_post\<close>)

section \<open>The temporary file\<close>

lemma quiet_write_temp:
  assumes fs: "lookup F t = None" "parent_exists F t" and len: "length bytes \<le> usize_max"
  shows "quiet h (\<lambda>f. f = F) (write_temp t p bytes durability)
    (\<lambda>r f. \<exists>s. r = Inr s \<and> stamp_now (fst (snd h)) f (f_next F) s \<and> with_file (path_components t) bytes F f)"
proof -
  let ?k = "path_components t" and ?n = "f_next F"
  have "quiet h (\<lambda>f. f = F) (sys_create_new t) (\<lambda>r f. r = Inr ?n \<and> with_file ?k [] F f)"
    unfolding sys_create_new_def by (rule quiet_syscall) (use fs in \<open>auto simp: with_file_def\<close>)
  then have create: "quiet h (\<lambda>f. f = F) (with_err (io_err ''create temp for'' p) (sys_create_new t))
      (case_sum (\<lambda>_ _. False) (\<lambda>i f. i = ?n \<and> with_file ?k [] F f))"
    by (intro quiet_with_err, rule quiet_post) simp
  have filling: "quiet h (with_file ?k [] F) (write_all ?n 0 bytes) (\<lambda>r f. r = Inr () \<and> with_file ?k bytes F f)"
  proof (rule quietI)
    fix w :: "'z world_scheme" and r w'
    assume w: "host_of w = h" "calm_world w" "with_file ?k [] F (w_fs w)" "write_all ?n 0 bytes w = (r, w')"
    have "filled ?n [] (w_fs w) (w_fs w)" using filled_refl [of "w_fs w" ?n] with_fileD(2,3) [OF w(3)] by simp
    from quietD [OF quiet_write_all [OF this len, of h] w(1,2) refl] w(4)
    have "host_of w' = h" "calm_world w'" "r = Inr ()" "filled ?n bytes (w_fs w) (w_fs w')" by simp_all
    then show "host_of w' = h \<and> calm_world w' \<and> r = Inr () \<and> with_file ?k bytes F (w_fs w')"
      using with_file_filled [OF w(3)] by blast
  qed
  have sync: "quiet h (with_file ?k bytes F) (sync_temp p durability ?n) (\<lambda>r f. r = Inr () \<and> with_file ?k bytes F f)"
    by (cases durability) (auto simp: sync_temp_def sys_sync_def intro!: quiet_ret quiet_with_err quiet_syscall)
  have stat: "quiet h (with_file ?k bytes F) (sys_fstat ?n)
      (\<lambda>r f. r = Inr (inode_metadata (fst (snd h)) f ?n) \<and> with_file ?k bytes F f)"
    unfolding sys_fstat_def by (rule quiet_dep, rule quiet_syscall) (auto simp: host_of_def)
  show ?thesis
    unfolding write_temp_def
  proof (rule quiet_bind [OF create], goal_cases)
    case (1 i)
    show ?case
    proof (rule quiet_pure, simp only:, rule quiet_bind [where C = "\<lambda>_. with_file ?k bytes F"], goal_cases)
      case 1
      show ?case by (rule quiet_with_err, rule quiet_post [OF filling]) simp
    next
      case (2 u)
      show ?case
      proof (rule quiet_bind [where C = "\<lambda>_. with_file ?k bytes F"], goal_cases)
        case 1
        show ?case by (rule quiet_post [OF sync]) simp
      next
        case (2 u')
        show ?case
        proof (rule quiet_bind [where C = "\<lambda>m f. m = inode_metadata (fst (snd h)) f ?n \<and> with_file ?k bytes F f"], goal_cases)
          case 1
          show ?case by (rule quiet_with_err, rule quiet_post [OF stat]) simp
        next
          case (2 m)
          show ?case by (rule quietI) (auto simp: stamp_of_def stamp_now_def)
        qed
      qed
    qed
  qed
qed

definition temp_of :: "host \<Rightarrow> path \<Rightarrow> path \<Rightarrow> bool" where
  "temp_of h p t \<longleftrightarrow> (\<exists>c now. t = temp_path p (snd (snd h)) c now)"

lemma temp_of_facts:
  assumes "writable h F p" "temp_of h p t"
  shows "lookup F t = None" "parent_exists F t" "path_components t \<noteq> path_components p"
    "butlast (path_components p) \<noteq> path_components t"
proof -
  obtain c now where t: "t = temp_path p (snd (snd h)) c now" using assms(2) unfolding temp_of_def by blast
  obtain d where d: "path_parent p = Some d" using assms(1) by (auto simp: writable_def)
  have k: "path_components t = butlast (path_components p) @ [Normal (temp_name (snd (snd h)) c now)]"
    using path_parent_components [OF d] d by (simp add: t temp_path_components temp_parent_def)
  show "lookup F t = None" "path_components t \<noteq> path_components p"
    using assms(1) temp_path_differs by (auto simp: writable_def t)
  show "parent_exists F t" using assms(1) by (simp add: writable_def parent_exists_def k)
  show "butlast (path_components p) \<noteq> path_components t" by (simp add: k)
qed

lemma quiet_unique_temp:
  assumes dest: "writable h F p" and len: "length bytes \<le> usize_max"
  shows "quiet h (\<lambda>f. f = F) (write_unique_temp (temp_parent p) p bytes durability)
    (\<lambda>r f. \<exists>t s. r = Inr (t, s) \<and> temp_of h p t \<and> stamp_now (fst (snd h)) f (f_next F) s \<and>
       with_file (path_components t) bytes F f)"
  unfolding write_unique_temp_def Let_def
proof (rule quiet_bind [where C = "\<lambda>name f. (\<exists>c now. name = temp_name (snd (snd h)) c now) \<and> f = F"], goal_cases)
  case 1
  show ?case by (rule quietI) (clarsimp simp: unique_temp_name_def host_of_def calm_world_def, blast)
next
  case (2 name)
  show ?case
  proof (rule quiet_pure)
    assume "\<exists>c now. name = temp_name (snd (snd h)) c now"
    then have t: "temp_of h p (path_join (temp_parent p) name)" unfolding temp_of_def temp_path_def by blast
    note temp = temp_of_facts [OF dest t]
    show "quiet h (\<lambda>f. f = F) (handle (write_temp (path_join (temp_parent p) name) p bytes durability)
        (\<lambda>error. bind (ignore (sys_remove_file (path_join (temp_parent p) name))) (\<lambda>_. raise error))
        (\<lambda>stamp. ret (path_join (temp_parent p) name, stamp)))
      (\<lambda>r f. \<exists>t s. r = Inr (t, s) \<and> temp_of h p t \<and> stamp_now (fst (snd h)) f (f_next F) s \<and>
         with_file (path_components t) bytes F f)"
      by (rule quiet_handle [where D = "\<lambda>_ _. False" and C = "\<lambda>s f. stamp_now (fst (snd h)) f (f_next F) s \<and>
            with_file (path_components (path_join (temp_parent p) name)) bytes F f"],
          rule quiet_post [OF quiet_write_temp [OF temp(1,2) len]])
        (use t in \<open>auto intro!: quiet_ret\<close>)
  qed
qed

section \<open>The guard\<close>

text \<open>What the caller saw of the destination: nothing, or a stamp and the identity of its content.\<close>

definition seen :: "host \<Rightarrow> externs \<Rightarrow> fsys \<Rightarrow> path \<Rightarrow> expected_destination option \<Rightarrow> bool" where
  "seen h x F p expected \<longleftrightarrow> (\<forall>e. expected = Some e \<longrightarrow> (\<exists>i t. held_at F p i t \<and> length t \<le> max_file_len \<and>
     stamp_now (fst (snd h)) F i (ed_stamp e) \<and> ed_content_id e = content_id x t))"

lemma with_temp_keeps:
  assumes "with_file k bytes F G" "fs_ok F" "k \<noteq> path_components p"
  shows "lookup G p = lookup F p" "lookup F p = Some i \<Longrightarrow> f_inodes G i = f_inodes F i"
    "held_at F p i t \<Longrightarrow> held_at G p i t" "stamp_now d F i s \<Longrightarrow> lookup F p = Some i \<Longrightarrow> stamp_now d G i s"
proof -
  show names: "lookup G p = lookup F p" using assms(3) by (simp add: lookup_def with_fileD(1) [OF assms(1)])
  have fresh: "i \<noteq> f_next F" if "lookup F p = Some i" for i
    using fs_ok_fresh [OF assms(2)] that by (auto simp: lookup_def)
  show inode: "f_inodes G i = f_inodes F i" if "lookup F p = Some i" for i
    using with_fileD(4) [OF assms(1) fresh [OF that]] .
  show "held_at F p i t \<Longrightarrow> held_at G p i t" using names inode by (simp add: held_at_def)
  show "stamp_now d F i s \<Longrightarrow> lookup F p = Some i \<Longrightarrow> stamp_now d G i s"
    using inode by (simp add: stamp_now_def inode_metadata_def)
qed

lemma quiet_guard:
  assumes seen: "seen h x F p expected" and ok: "fs_ok F" and temp: "with_file k bytes F G" "k \<noteq> path_components p"
  shows "quiet h (\<lambda>f. f = G) (guard_destination x p t expected) (\<lambda>r f. r = Inr () \<and> f = G)"
proof (cases expected)
  case None
  then show ?thesis by (simp add: guard_destination_def quiet_ret)
next
  case (Some e)
  let ?d = "fst (snd h)"
  obtain i old where e: "held_at F p i old" "length old \<le> max_file_len" "stamp_now ?d F i (ed_stamp e)" "ed_content_id e = content_id x old"
    using seen Some unfolding seen_def by blast
  have look: "lookup F p = Some i" using e(1) by (simp add: held_at_def)
  note G = with_temp_keeps [OF temp(1) ok temp(2)]
  have held: "held_at G p i old" "stamp_now ?d G i (ed_stamp e)" using G(3) [OF e(1)] G(4) [OF e(3) look] by simp_all
  then have i: "lookup G p = Some i" "\<not> in_dir (f_inodes G i)" "in_bytes (f_inodes G i) = old" by (simp_all add: held_at_def)
  have limit: "unat (sat_add_u64 (fs_len (ed_stamp e)) 1) = Suc (length old)"
    using stamp_now_len [OF held(2)] i(3) e(2) max_file_len_le [OF e(2)]
    by (simp add: sat_add_u64_def max_file_len_def usize_max_def unat_word_ariths)
  have whole: "quiet h (\<lambda>f. f = G) (read_all i (Some (Suc (length old))) []) (\<lambda>r f. r = Inr old \<and> f = G)"
    using quiet_read_all [of G i "[]" old "Some (Suc (length old))" h] i by simp
  have unchanged: "quiet h (\<lambda>f. f = G) (destination_unchanged x p t e) (\<lambda>r f. r = Inr True \<and> f = G)"
    unfolding destination_unchanged_def limit
  proof (rule quiet_handle [where D = "\<lambda>_ _. False" and C = "\<lambda>j f. j = i \<and> f = G"], goal_cases)
    case 1
    show ?case by (rule quiet_post [OF quiet_open]) (simp add: i ok_or_def)
  next
    case (3 j)
    show ?case
      by (rule quiet_pure, simp only:, rule quiet_handle [where D = "\<lambda>_ _. False" and C = "\<lambda>b f. b = old \<and> f = G"],
          rule quiet_post [OF whole]) (auto intro!: quiet_pure quiet_ret simp: e(4))
  qed simp
  show ?thesis
    unfolding Some guard_destination_def option.case
  proof (rule quiet_handle [where D = "\<lambda>_ _. False" and C = "\<lambda>m f. m = inode_metadata ?d G i \<and> f = G"], goal_cases)
    case 1
    show ?case by (rule quiet_post [OF quiet_stat]) (simp add: i)
  next
    case (3 m)
    show ?case
    proof (rule quiet_pure, simp only:, rule quiet_bind [where C = "\<lambda>s f. stamp_now ?d G i s \<and> f = G"], goal_cases)
      case 1
      show ?case by (rule quiet_post [OF quiet_stamp_now]) auto
    next
      case (2 s)
      show ?case
        by (rule quiet_pure) (auto simp: stamp_now_eq [OF _ held(2)] intro!: quiet_ret quiet_pure
          quiet_bind [where C = "\<lambda>u f. u \<and> f = G"] quiet_post [OF unchanged])
    qed
  qed simp
qed

section \<open>The commit\<close>

text \<open>After the temporary file is there, the rename or the link gives the destination the new file.\<close>

lemma committed_file:
  assumes temp: "with_file (path_components t) bytes F G" and "lookup F t = None"
  shows "with_file (path_components p) bytes F (touch now (f_next F)
      (G\<lparr>f_names := (f_names G)(path_components t := None, path_components p := Some (f_next F))\<rparr>))"
proof -
  have "(f_names F)(path_components t := None) = f_names F" using assms(2) by (simp add: lookup_def fun_upd_idem)
  then have "(f_names F)(path_components t \<mapsto> f_next F, path_components t := None, path_components p := Some (f_next F)) =
      (f_names F)(path_components p \<mapsto> f_next F)" by simp
  then show ?thesis using temp by (auto simp: with_file_def touch_def)
qed

lemma temp_parent_kept:
  assumes dest: "writable h F p" "temp_of h p t" and temp: "with_file (path_components t) bytes F G"
  shows "parent_exists G p"
proof -
  note t = temp_of_facts [OF dest]
  have old: "i \<noteq> f_next F" if "f_names F k = Some i" for k i
    using fs_ok_fresh [of F k] dest(1) that by (auto simp: writable_def)
  show ?thesis
    using dest(1) t(4) with_fileD(1,4) [OF temp] old
    by (auto simp: writable_def parent_exists_def Let_def split: option.splits)
qed

text \<open>The stamp of the new file before and after the commit: only the change time may differ.\<close>

definition same_file :: "file_stamp \<Rightarrow> u64 \<Rightarrow> fsys \<Rightarrow> nat \<Rightarrow> bool" where
  "same_file s d f i \<longleftrightarrow> fs_identity s = \<lparr>fi_device = d, fi_inode = of_nat i\<rparr> \<and>
     fs_len s = of_nat (length (in_bytes (f_inodes f i))) \<and> fs_modified s = in_mtime (f_inodes f i)"

lemma stamp_same_file: "stamp_now d f i s \<Longrightarrow> same_file s d f i"
  by (auto simp: stamp_now_def same_file_def stamp_from_metadata_def inode_metadata_def Let_def)

lemma same_file_touch: "same_file s d f i \<Longrightarrow> same_file s d (touch now j (f\<lparr>f_names := names\<rparr>)) i"
  by (auto simp: same_file_def touch_def)

lemma same_file_confirmed: "same_file s d f i \<Longrightarrow> stamp_now d f i current \<Longrightarrow> confirmed_after_rename s current = Some current"
  using stamp_same_file [of d f i current] by (simp add: same_file_def confirmed_after_rename_def)

lemma quiet_finish:
  assumes p: "lookup f1 p = Some i" and s: "same_file s (fst (snd h)) f1 i"
  shows "quiet h (\<lambda>f. f = f1) (finish_persist p durability s)
    (\<lambda>r f. (\<exists>current. r = Inr (Some current) \<and> stamp_now (fst (snd h)) f i current) \<and> f = f1)"
proof -
  have sync: "quiet h (\<lambda>f. f = f1) (ignore (sys_sync j)) (case_sum (\<lambda>_ _. False) (\<lambda>_ f. f = f1))" for j
    by (rule quiet_ignore, rule quiet_post [OF quiet_sync]) simp
  have dir: "quiet h (\<lambda>f. f = f1) (if durability = DurFull then fsync_parent (temp_parent p) else ret ())
      (case_sum (\<lambda>_ _. False) (\<lambda>_ f. f = f1))"
    unfolding fsync_parent_def
    by (auto intro!: quiet_ret sync quiet_handle [where D = "\<lambda>_ f. f = f1" and C = "\<lambda>_ f. f = f1"]
        intro: quiet_post [OF quiet_open] split: sum.split)
  show ?thesis
    unfolding finish_persist_def confirm_stamp_def
  proof (rule quiet_bind [OF dir], rule quiet_handle [where D = "\<lambda>_ _. False"
        and C = "\<lambda>m f. m = inode_metadata (fst (snd h)) f1 i \<and> f = f1"], goal_cases)
    case (1 u)
    show ?case by (rule quiet_post [OF quiet_stat]) (simp add: p)
  next
    case (3 u m)
    show ?case
    proof (rule quiet_pure, simp only:, rule quiet_bind [where C = "\<lambda>s f. stamp_now (fst (snd h)) f1 i s \<and> f = f1"], goal_cases)
      case 1
      show ?case by (rule quiet_post [OF quiet_stamp_now]) auto
    next
      case (2 current)
      show ?case by (rule quiet_pure) (auto intro!: quiet_ret simp: same_file_confirmed [OF s])
    qed
  qed simp
qed

text \<open>What a commit leaves: the new file in place, and its stamp for the answer.\<close>

definition persisted_file :: "u64 \<Rightarrow> path \<Rightarrow> bytes \<Rightarrow> fsys \<Rightarrow> 'e + file_stamp option \<Rightarrow> fsys \<Rightarrow> bool" where
  "persisted_file d p bytes F r f \<longleftrightarrow>
     (\<exists>current. r = Inr (Some current) \<and> stamp_now d f (f_next F) current) \<and> with_file (path_components p) bytes F f"

lemma quiet_commit:
  assumes commit: "\<And>G. with_file (path_components t) bytes F G \<Longrightarrow>
      quiet h (\<lambda>f. f = G) m (\<lambda>r f. r = Inr () \<and> with_file (path_components p) bytes F f \<and>
        (\<forall>s d. same_file s d G (f_next F) \<longrightarrow> same_file s d f (f_next F)))"
  shows "quiet h (\<lambda>f. stamp_now (fst (snd h)) f (f_next F) s \<and> with_file (path_components t) bytes F f)
    (bind m (\<lambda>_. finish_persist p durability s)) (persisted_file (fst (snd h)) p bytes F)"
proof (rule quiet_fix, elim conjE)
  fix G assume G: "stamp_now (fst (snd h)) G (f_next F) s" "with_file (path_components t) bytes F G"
  show "quiet h (\<lambda>f. f = G) (bind m (\<lambda>_. finish_persist p durability s)) (persisted_file (fst (snd h)) p bytes F)"
  proof (rule quiet_bind [where C = "\<lambda>_ f. with_file (path_components p) bytes F f \<and> same_file s (fst (snd h)) f (f_next F)"], goal_cases)
    case 1
    show ?case
      by (rule quiet_post [OF commit [OF G(2)]]) (use stamp_same_file [OF G(1)] in auto)
  next
    case (2 u)
    show ?case
    proof (rule quiet_fix, elim conjE)
      fix f1 assume f1: "with_file (path_components p) bytes F f1" "same_file s (fst (snd h)) f1 (f_next F)"
      have "lookup f1 p = Some (f_next F)" by (simp add: lookup_def with_fileD(1) [OF f1(1)])
      from quiet_finish [OF this f1(2), where durability = durability] f1(1)
      show "quiet h (\<lambda>f. f = f1) (finish_persist p durability s) (persisted_file (fst (snd h)) p bytes F)"
        by (auto simp: persisted_file_def intro: quiet_post)
    qed
  qed
qed

lemma quiet_rename:
  assumes dest: "writable h F p" "temp_of h p t" and temp: "with_file (path_components t) bytes F G"
  shows "quiet h (\<lambda>f. f = G) (rename_into t p) (\<lambda>r f. r = Inr () \<and> with_file (path_components p) bytes F f \<and>
    (\<forall>s d. same_file s d G (f_next F) \<longrightarrow> same_file s d f (f_next F)))"
proof -
  note t = temp_of_facts [OF dest]
  let ?G = "\<lambda>now. touch now (f_next F) (G\<lparr>f_names := (f_names G)(path_components t := None, path_components p := Some (f_next F))\<rparr>)"
  have look: "lookup G t = Some (f_next F)" by (simp add: lookup_def with_fileD(1) [OF temp])
  have parent: "parent_exists G p" by (rule temp_parent_kept [OF assms])
  have ok: "fs_ok F" using dest(1) by (simp add: writable_def)
  have at: "j \<noteq> f_next F \<and> \<not> in_dir (f_inodes G j)" if "lookup G p = Some j" for j
  proof -
    have "lookup F p = Some j" using with_temp_keeps(1) [OF temp ok t(3)] that by simp
    then show ?thesis
      using with_temp_keeps(2) [OF temp ok t(3), of j] dest(1) fs_ok_fresh [OF ok, of "path_components p"]
      by (auto simp: writable_def lookup_def)
  qed
  have "quiet h (\<lambda>f. f = G) (sys_rename t p) (\<lambda>r f. r = Inr () \<and> (\<exists>now. f = ?G now))"
    unfolding sys_rename_def
    by (rule quiet_syscall) (use look parent at in \<open>auto split: option.splits if_splits\<close>)
  then show ?thesis
    unfolding rename_into_def
    by (rule quiet_handle [where D = "\<lambda>_ _. False" and C = "\<lambda>_ f. \<exists>now. f = ?G now", OF quiet_post])
      (auto intro!: quiet_ret committed_file [OF temp t(1)] same_file_touch)
qed

lemma quiet_link:
  assumes dest: "writable h F p" "temp_of h p t" and temp: "with_file (path_components t) bytes F G" and free: "lookup F p = None"
  shows "quiet h (\<lambda>f. f = G) (link_into t p) (\<lambda>r f. r = Inr () \<and> with_file (path_components p) bytes F f \<and>
    (\<forall>s d. same_file s d G (f_next F) \<longrightarrow> same_file s d f (f_next F)))"
proof -
  note t = temp_of_facts [OF dest]
  let ?n = "f_next F"
  let ?L = "\<lambda>now. touch now ?n (G\<lparr>f_names := (f_names G)(path_components p := Some ?n)\<rparr>)"
  let ?B = "\<lambda>f. with_file (path_components p) bytes F f \<and> (\<forall>s d. same_file s d G ?n \<longrightarrow> same_file s d f ?n)"
  have ok: "fs_ok F" using dest(1) by (simp add: writable_def)
  have look: "lookup G t = Some ?n" "lookup G p = None"
    using with_temp_keeps(1) [OF temp ok t(3)] free by (simp_all add: lookup_def with_fileD(1) [OF temp])
  have linked: "quiet h (\<lambda>f. f = G) (sys_hard_link t p) (\<lambda>r f. r = Inr () \<and> (\<exists>now. f = ?L now))"
    unfolding sys_hard_link_def
    by (rule quiet_syscall) (use look temp_parent_kept [OF assms(1-3)] in \<open>auto split: option.splits if_splits\<close>)
  have removed: "quiet h (\<lambda>f. f = ?L now) (ignore (sys_remove_file t)) (\<lambda>r f. r = Inr () \<and> ?B f)" for now
  proof (rule quiet_ignore, unfold sys_remove_file_def, rule quiet_syscall)
    fix f now' chunk r f'
    assume f: "f = ?L now" and act: "(case lookup f t of None \<Rightarrow> (Inl not_found, f)
      | Some i \<Rightarrow> if in_dir (f_inodes f i) then (Inl is_a_directory, f)
          else (Inr (), touch (fst h now') i (f\<lparr>f_names := (f_names f)(path_components t := None)\<rparr>))) = (r, f')"
    have "lookup f t = Some ?n" "\<not> in_dir (f_inodes f ?n)"
      using f look(1) t(3) with_fileD(2) [OF temp] by (simp_all add: lookup_def touch_def)
    then have f': "f' = touch (fst h now') ?n (f\<lparr>f_names := (f_names f)(path_components t := None)\<rparr>)" using act by simp
    have "(f_names F)(path_components t := None) = f_names F" using t(1) by (simp add: lookup_def fun_upd_idem)
    then have "with_file (path_components p) bytes F f'"
      using temp t(3) by (auto simp: with_file_def f' f touch_def fun_upd_twist)
    moreover have "same_file s d f' ?n" if "same_file s d G ?n" for s d
      using that by (simp add: f' f same_file_touch)
    ultimately show "Inr () = Inr () \<and> ?B f'" by blast
  qed
  show ?thesis
    unfolding link_into_def
    by (rule quiet_handle [where D = "\<lambda>_ _. False" and C = "\<lambda>_ f. \<exists>now. f = ?L now", OF quiet_post [OF linked]])
      (auto intro!: quiet_exists intro: quiet_post [OF removed])
qed

section \<open>The operations\<close>

lemma quiet_prepare:
  assumes dest: "writable h F p" and len: "length bytes \<le> usize_max"
    and rest: "\<And>t s. temp_of h p t \<Longrightarrow>
      quiet h (\<lambda>f. stamp_now (fst (snd h)) f (f_next F) s \<and> with_file (path_components t) bytes F f) (k t s) B"
  shows "quiet h (\<lambda>f. f = F) (bind (create_parent p) (\<lambda>_.
    bind (write_unique_temp (temp_parent p) p bytes durability) (\<lambda>(t, s). k t s))) B"
proof (rule quiet_bind [where C = "\<lambda>_ f. f = F"], goal_cases)
  case 1
  show ?case by (rule quiet_post [OF quiet_create_parent [OF dest]]) simp
next
  case (2 u)
  let ?C = "\<lambda>(t, s) f. temp_of h p t \<and> stamp_now (fst (snd h)) f (f_next F) s \<and> with_file (path_components t) bytes F f"
  show ?case
  proof (rule quiet_bind [where C = ?C], goal_cases)
    case 1
    show ?case by (rule quiet_post [OF quiet_unique_temp [OF dest len]]) auto
  next
    case (2 ts)
    then show ?case by (cases ts) (auto intro!: quiet_pure rest)
  qed
qed

lemma quiet_atomic_write:
  assumes dest: "writable h F p" and len: "length bytes \<le> usize_max" and seen: "seen h x F p expected"
  shows "quiet h (\<lambda>f. f = F) (atomic_write x p bytes expected durability) (persisted_file (fst (snd h)) p bytes F)"
  unfolding atomic_write_def
proof (rule quiet_prepare [OF dest len])
  fix t s assume t: "temp_of h p t"
  have ok: "fs_ok F" using dest by (simp add: writable_def)
  let ?T = "\<lambda>f. stamp_now (fst (snd h)) f (f_next F) s \<and> with_file (path_components t) bytes F f"
  have guard: "quiet h ?T (guard_destination x p t expected) (case_sum (\<lambda>_ _. False) (\<lambda>_. ?T))"
    by (rule quiet_fix, elim conjE, rule quiet_post [OF quiet_guard [OF seen ok _ temp_of_facts(3) [OF dest t]]]) auto
  show "quiet h ?T (bind (guard_destination x p t expected) (\<lambda>_. bind (rename_into t p) (\<lambda>_. finish_persist p durability s)))
      (persisted_file (fst (snd h)) p bytes F)"
    by (rule quiet_bind [OF guard], rule quiet_commit, rule quiet_rename [OF dest t])
qed

lemma quiet_atomic_create:
  assumes dest: "writable h F p" and len: "length bytes \<le> usize_max" and free: "lookup F p = None"
  shows "quiet h (\<lambda>f. f = F) (atomic_create p bytes durability) (persisted_file (fst (snd h)) p bytes F)"
  unfolding atomic_create_def
  by (rule quiet_prepare [OF dest len], rule quiet_commit, rule quiet_link [OF dest _ _ free])

end
