(* ===== verification/Quiet_Tools.thy ===== *)
theory Quiet_Tools
  imports Quiet_Persist
begin

text \<open>
  The tools when nobody disturbs them: a request that the current content allows is carried out,
  and the next read shows the result.
\<close>

section \<open>Rules with the cache\<close>

text \<open>Assertions over the files and the cache; the other threads do not touch the cache.\<close>

definition alone :: "host \<Rightarrow> (fsys \<Rightarrow> cache \<Rightarrow> bool) \<Rightarrow> ('z process_scheme, 'e, 'a) comp \<Rightarrow> ('e + 'a \<Rightarrow> fsys \<Rightarrow> cache \<Rightarrow> bool) \<Rightarrow> bool" where
  "alone h A m B \<longleftrightarrow> (\<forall>w r w'. host_of w = h \<longrightarrow> calm_world w \<longrightarrow> pr_turns w = [] \<longrightarrow> A (w_fs w) (pr_cache w) \<longrightarrow> m w = (r, w') \<longrightarrow>
     host_of w' = h \<and> calm_world w' \<and> pr_turns w' = [] \<and> B r (w_fs w') (pr_cache w'))"

lemma aloneD:
  assumes "alone h A m B" "host_of w = h" "calm_world w" "pr_turns w = []" "A (w_fs w) (pr_cache w)" "m w = (r, w')"
  shows "host_of w' = h" "calm_world w'" "pr_turns w' = []" "B r (w_fs w') (pr_cache w')"
  using assms unfolding alone_def by blast+

lemma alone_conseq:
  "alone h A' m B' \<Longrightarrow> (\<And>f c. A f c \<Longrightarrow> A' f c) \<Longrightarrow> (\<And>r f c. B' r f c \<Longrightarrow> B r f c) \<Longrightarrow> alone h A m B"
  unfolding alone_def by blast

lemma alone_post: "alone h A m B' \<Longrightarrow> (\<And>r f c. B' r f c \<Longrightarrow> B r f c) \<Longrightarrow> alone h A m B"
  by (rule alone_conseq)

lemma alone_basic:
  "(\<And>f c. A f c \<Longrightarrow> B (Inr v) f c) \<Longrightarrow> alone h A (ret v) B"
  "(\<And>f c. A f c \<Longrightarrow> B (Inl e) f c) \<Longrightarrow> alone h A (raise e) B"
  "(\<And>f c. A f c \<Longrightarrow> B r f c) \<Longrightarrow> alone h A (lift r) B"
  by (auto simp: alone_def comp_simps)

lemma alone_bind:
  assumes "alone h A m (case_sum (\<lambda>_ _ _. False) C)" "\<And>v. alone h (C v) (k v) B"
  shows "alone h A (bind m k) B"
  unfolding alone_def
proof (intro allI impI)
  fix w r w' assume w: "host_of w = h" "calm_world w" "pr_turns w = []" "A (w_fs w) (pr_cache w)" "bind m k w = (r, w')"
  obtain q w1 where q: "m w = (q, w1)" by (metis surj_pair)
  note one = aloneD [OF assms(1) w(1-4) q]
  then obtain v where v: "q = Inr v" "C v (w_fs w1) (pr_cache w1)" by (auto split: sum.splits)
  have "k v w1 = (r, w')" using w(5) q v(1) by (simp add: bind_run)
  from aloneD [OF assms(2) one(1-3) v(2) this]
  show "host_of w' = h \<and> calm_world w' \<and> pr_turns w' = [] \<and> B r (w_fs w') (pr_cache w')" by blast
qed

lemma alone_handle:
  assumes "alone h A m (case_sum D C)" "\<And>e. alone h (D e) (g e) B" "\<And>v. alone h (C v) (k v) B"
  shows "alone h A (handle m g k) B"
  unfolding alone_def
proof (intro allI impI)
  fix w r w' assume w: "host_of w = h" "calm_world w" "pr_turns w = []" "A (w_fs w) (pr_cache w)" "handle m g k w = (r, w')"
  obtain q w1 where q: "m w = (q, w1)" by (metis surj_pair)
  note one = aloneD [OF assms(1) w(1-4) q]
  show "host_of w' = h \<and> calm_world w' \<and> pr_turns w' = [] \<and> B r (w_fs w') (pr_cache w')"
  proof (cases q)
    case (Inl e)
    then have "g e w1 = (r, w')" "D e (w_fs w1) (pr_cache w1)" using w(5) q one(4) by (simp_all add: handle_run)
    from aloneD [OF assms(2) one(1-3) this(2,1)] show ?thesis by blast
  next
    case (Inr v)
    then have "k v w1 = (r, w')" "C v (w_fs w1) (pr_cache w1)" using w(5) q one(4) by (simp_all add: handle_run)
    from aloneD [OF assms(3) one(1-3) this(2,1)] show ?thesis by blast
  qed
qed

lemma alone_with_err:
  fixes m :: "('z process_scheme, 'e, 'a) comp"
  assumes "alone h A m (\<lambda>r. B (map_err g r))"
  shows "alone h A (with_err g m) B"
  unfolding alone_def
proof (intro allI impI)
  fix w :: "'z process_scheme" and r w'
  assume w: "host_of w = h" "calm_world w" "pr_turns w = []" "A (w_fs w) (pr_cache w)" "with_err g m w = (r, w')"
  have "m w = (fst (m w), w')" "r = map_err g (fst (m w))" using w(5) by (auto simp: with_err_def split: prod.splits)
  with aloneD [OF assms w(1-4) this(1)]
  show "host_of w' = h \<and> calm_world w' \<and> pr_turns w' = [] \<and> B r (w_fs w') (pr_cache w')" by simp
qed

lemma alone_pure: "(P \<Longrightarrow> alone h A m B) \<Longrightarrow> alone h (\<lambda>f c. P \<and> A f c) m B"
  unfolding alone_def by blast

lemma alone_fix: "(\<And>F C. A F C \<Longrightarrow> alone h (\<lambda>f c. f = F \<and> c = C) m B) \<Longrightarrow> alone h A m B"
  unfolding alone_def by blast

lemma alone_never [simp]: "alone h (\<lambda>_ _. False) m B"
  by (simp add: alone_def)

text \<open>A program over the files leaves the cache alone.\<close>

lemma alone_files:
  fixes m :: "('z process_scheme, 'e, 'a) comp"
  assumes "quiet h A m B" "\<And>c. preserves (\<lambda>w. shared w = c) m"
  shows "alone h (\<lambda>f c. A f \<and> c = C) m (\<lambda>r f c. B r f \<and> c = C)"
  unfolding alone_def
proof (intro allI impI)
  fix w :: "'z process_scheme" and r w'
  assume w: "host_of w = h" "calm_world w" "pr_turns w = []" "A (w_fs w) \<and> pr_cache w = C" "m w = (r, w')"
  have "shared w' = shared w" by (rule preservesD [OF assms(2) refl w(5)])
  then show "host_of w' = h \<and> calm_world w' \<and> pr_turns w' = [] \<and> B r (w_fs w') \<and> pr_cache w' = C"
    using quietD [OF assms(1) w(1,2) _ w(5)] w(3,4) by simp
qed

lemma alone_locked:
  assumes "\<And>f c. A f c \<Longrightarrow> B (Inr (fst (act c))) f (snd (act c))"
  shows "alone h A (locked act :: ('z process_scheme, 'e, 'a) comp) B"
  unfolding alone_def
proof (intro allI impI)
  fix w :: "'z process_scheme" and r :: "'e + 'a" and w' assume w: "host_of w = h" "calm_world w" "pr_turns w = []" "A (w_fs w) (pr_cache w)" "locked act w = (r, w')"
  then show "host_of w' = h \<and> calm_world w' \<and> pr_turns w' = [] \<and> B r (w_fs w') (pr_cache w')"
    using assms [OF w(4)] by (auto simp: locked_def others_turn_def host_of_def calm_world_def split: prod.splits)
qed

section \<open>Reading what was published\<close>

text \<open>The entry of the path is a snapshot of the file, under a stamp the file still has.\<close>

definition cached :: "hashing \<Rightarrow> u64 \<Rightarrow> path \<Rightarrow> nat \<Rightarrow> snapshot \<Rightarrow> fsys \<Rightarrow> cache \<Rightarrow> bool" where
  "cached hs d p i snap f ca \<longleftrightarrow> held_at f p i (sn_text snap) \<and> length (ca_shards ca) = SHARD_COUNT \<and>
     (\<exists>e s. resident hs p ca = Some e \<and> en_snapshot e = snap \<and> en_stamp e = Some s \<and> stamp_now d f i s)"

lemma alone_current_stamp:
  assumes "lookup F p = Some i"
  shows "alone h (\<lambda>f c. f = F \<and> c = C) (current_stamp p)
    (\<lambda>r f c. (\<exists>s. r = Inr (Some s) \<and> stamp_now (fst (snd h)) F i s) \<and> f = F \<and> c = C)"
proof -
  have "quiet h (\<lambda>f. f = F) (current_stamp p) (\<lambda>r f. (\<exists>s. r = Inr (Some s) \<and> stamp_now (fst (snd h)) F i s) \<and> f = F)"
    unfolding current_stamp_def
    by (rule quiet_handle [where D = "\<lambda>_ _. False" and C = "\<lambda>m f. m = inode_metadata (fst (snd h)) F i \<and> f = F"],
        rule quiet_post [OF quiet_stat])
      (auto intro!: quiet_pure quiet_ret quiet_bind [where C = "\<lambda>s f. stamp_now (fst (snd h)) F i s \<and> f = F"]
        simp: assms intro: quiet_post [OF quiet_stamp_now])
  moreover have "preserves (\<lambda>w. shared w = c) (current_stamp p)" for c
    unfolding current_stamp_def by (intro preserves_rules survives_outside outside_shared)
  ultimately show ?thesis by (rule alone_post [OF alone_files]) auto
qed

lemma quiet_read_verified:
  assumes held: "held_at F p i t" "length t \<le> max_file_len" and s: "stamp_now (fst (snd h)) F i s"
  shows "quiet h (\<lambda>f. f = F) (read_verified p s)
    (\<lambda>r f. (\<exists>after. r = Inr (Some (t, after)) \<and> stamp_now (fst (snd h)) F i after) \<and> f = F)"
proof -
  let ?d = "fst (snd h)"
  have i: "lookup F p = Some i" "\<not> in_dir (f_inodes F i)" "in_bytes (f_inodes F i) = t" using held(1) by (simp_all add: held_at_def)
  have limit: "unat (sat_add_u64 (fs_len s) 1) = Suc (length t)"
    using stamp_now_len [OF s] i(3) held(2) max_file_len_le [OF held(2)]
    by (simp add: unat_sat_add_u64 max_file_len_def usize_max_def)
  have whole: "quiet h (\<lambda>f. f = F) (read_all i (Some (Suc (length t))) []) (\<lambda>r f. r = Inr t \<and> f = F)"
    using quiet_read_all [of F i "[]" t "Some (Suc (length t))" h] i by simp
  have stat: "quiet h (\<lambda>f. f = F) (sys_fstat i) (case_sum (\<lambda>_ _. False) (\<lambda>m f. m = inode_metadata ?d F i \<and> f = F))"
    by (rule quiet_post [OF quiet_fstat]) simp
  have stamp: "quiet h (\<lambda>f. m = inode_metadata ?d F i \<and> f = F) (stamp_of m :: ('z world_scheme, io_error, file_stamp) comp)
      (case_sum (\<lambda>_ _. False) (\<lambda>s f. stamp_now ?d F i s \<and> f = F))" for m
    by (rule quiet_pure, simp, rule quiet_post [OF quiet_stamp_now]) auto
  show ?thesis
    unfolding read_verified_def limit
  proof (rule quiet_bind [where C = "\<lambda>j f. j = i \<and> f = F"], goal_cases)
    case 1
    show ?case by (rule quiet_post [OF quiet_open]) (simp add: i ok_or_def)
  next
    case (2 j)
    show ?case
    proof (rule quiet_pure, simp only:, rule quiet_bind [OF stat], rule quiet_bind [OF stamp], rule quiet_pure, goal_cases)
      case (1 m before)
      have same: "\<not> \<not> stamp_eq before s" using stamp_now_eq [OF \<open>stamp_now ?d F i before\<close> s] by simp
      show ?case
        unfolding if_not_P [OF same]
      proof (rule quiet_bind [where C = "\<lambda>b f. b = t \<and> f = F"], goal_cases)
        case 1
        show ?case by (rule quiet_post [OF whole]) simp
      next
        case (2 b)
        show ?case
          by (rule quiet_pure, simp only:, rule quiet_bind [OF stat], rule quiet_bind [OF stamp]) (auto intro!: quiet_pure quiet_ret)
      qed
    qed
  qed
qed

text \<open>The read is answered from the cache, or by a verified entry, with the content of the file.\<close>

lemma alone_served:
  assumes C: "cached hs (fst (snd h)) p i snap F C" and len: "length (sn_text snap) \<le> max_file_len"
  shows "alone h (\<lambda>f c. f = F \<and> c = C) (get_or_load hs p loader) (\<lambda>r f c. r = Inr snap \<and> f = F)"
proof -
  let ?d = "fst (snd h)"
  obtain e s where e: "resident hs p C = Some e" "en_snapshot e = snap" "en_stamp e = Some s" "stamp_now ?d F i s"
    and held: "held_at F p i (sn_text snap)" using C unfolding cached_def by blast
  have look: "lookup F p = Some i" using held by (simp add: held_at_def)
  have hit: "alone h (\<lambda>f c. f = F \<and> c = C) (stamped_hit hs p :: ('z process_scheme, snapshot_error, snapshot option) comp)
      (case_sum (\<lambda>_ _ _. False) (\<lambda>hit f c. hit = (if fs_racy s then None else Some snap) \<and> f = F \<and> c = C))"
    unfolding stamped_hit_def
  proof (rule alone_bind [where C = "\<lambda>now f c. (\<exists>s. now = Some s \<and> stamp_now ?d F i s) \<and> f = F \<and> c = C"], goal_cases)
    case 1
    show ?case by (rule alone_post [OF alone_current_stamp [OF look]]) auto
  next
    case (2 now)
    show ?case
      by (rule alone_pure) (auto intro!: alone_locked
          simp: cache_get_def e stamp_opt_eq_def stamp_now_eq [OF e(4)] stamp_racy_opt_def)
  qed
  have verified: "alone h (\<lambda>f c. f = F \<and> c = C) (verify_racy_resident hs p :: ('z process_scheme, snapshot_error, snapshot option) comp)
      (case_sum (\<lambda>_ _ _. False) (\<lambda>hit f c. hit = Some snap \<and> f = F))" if racy: "fs_racy s"
    unfolding verify_racy_resident_def
  proof (rule alone_bind [where C = "\<lambda>found f c. found = Some (snap, s) \<and> f = F \<and> c = C"], goal_cases)
    case 1
    show ?case by (rule alone_locked) (simp add: racy_resident_def e racy)
  next
    case (2 found)
    have pres: "preserves (\<lambda>w. shared w = c) (read_verified p s)" for c
      unfolding read_verified_def by (intro preserves_rules survives_outside outside_shared) (auto intro!: preserves_rules survives_outside)
    show ?case
    proof (rule alone_pure, simp only: option.case prod.case, rule alone_handle [where D = "\<lambda>_ _ _. False"
          and C = "\<lambda>v f c. (\<exists>after. v = Some (sn_text snap, after) \<and> stamp_now ?d F i after) \<and> f = F \<and> c = C"], goal_cases)
      case 1
      show ?case by (rule alone_post [OF alone_files [OF quiet_read_verified [OF held len e(4)] pres]]) auto
    next
      case (3 v)
      show ?case
        by (rule alone_pure) (auto simp: stamp_now_eq [OF _ e(4)] intro!: alone_basic
            alone_bind [where C = "\<lambda>_ f c. f = F"] alone_locked)
    qed simp
  qed
  show ?thesis
    unfolding get_or_load_def
  proof (rule alone_bind [OF hit], goal_cases)
    case (1 hit)
    show ?case
      by (rule alone_pure, cases "fs_racy s")
        (auto intro!: alone_bind [OF verified] alone_pure alone_basic)
  qed
qed

section \<open>The tools\<close>

text \<open>The bytes are in place, and in the cache as a fresh snapshot with the stamp of the file.\<close>

definition stored :: "hashing \<Rightarrow> externs \<Rightarrow> u64 \<Rightarrow> path \<Rightarrow> bytes \<Rightarrow> fsys \<Rightarrow> fsys \<Rightarrow> cache \<Rightarrow> bool" where
  "stored hs x d p bytes F f c \<longleftrightarrow> with_file (path_components p) bytes F f \<and>
     (\<exists>s. cached hs d p (f_next F) (fresh_snapshot x bytes (Some s)) f c)"

lemma fresh_with_stamp: "with_stamp s (fresh_snapshot x bytes None) = fresh_snapshot x bytes (Some s)"
  by (simp add: with_stamp_def fresh_snapshot_def)

definition roomy :: "cache \<Rightarrow> bytes \<Rightarrow> bool" where
  "roomy c bytes \<longleftrightarrow> length (ca_shards c) = SHARD_COUNT \<and> length bytes \<le> unat (ca_capacity c)"

lemma alone_publish_snapshot:
  assumes f: "with_file (path_components p) bytes F G" "stamp_now d G (f_next F) s" and room: "roomy C bytes" and len: "length bytes \<le> usize_max"
  shows "alone h (\<lambda>f c. f = G \<and> c = C) (publish_snapshot hs p (Some s) (fresh_snapshot x bytes None))
    (\<lambda>r f c. r = Inr () \<and> stored hs x d p bytes F f c)"
  unfolding publish_snapshot_def option.case fresh_with_stamp
proof (rule alone_locked)
  fix f c assume fc: "f = G \<and> c = C"
  let ?snap = "fresh_snapshot x bytes (Some s)"
  have small: "sn_byte_len ?snap \<le> ca_capacity C"
    using room len by (simp add: roomy_def fresh_snapshot_def word_le_nat_alt)
  have shards: "length (ca_shards C) = SHARD_COUNT" using room by (simp add: roomy_def)
  have "resident hs p (cache_insert hs p ?snap C) = Some \<lparr>en_snapshot = ?snap, en_bytes = sn_byte_len ?snap, en_stamp = Some s\<rparr>"
    using resident_insert [OF shards small, of hs p p] by simp
  moreover have "length (ca_shards (cache_insert hs p ?snap C)) = SHARD_COUNT"
    using shards by (simp add: cache_insert_def set_shard_def)
  ultimately show "Inr (fst ((), cache_insert hs p ?snap c)) = Inr () \<and> stored hs x d p bytes F f (snd ((), cache_insert hs p ?snap c))"
    using fc f with_file_held [OF f(1)] by (auto simp: stored_def cached_def)
qed

lemma shared_survives: "survives (\<lambda>w. shared w = c)" "uncounted (\<lambda>w. shared w = c)"
  by (rule survives_outside [OF outside_shared], simp add: uncounted_def)

lemma shared_persist:
  "preserves (\<lambda>w. shared w = c) (atomic_write x p bytes expected d)"
  "preserves (\<lambda>w. shared w = c) (atomic_create p bytes d)"
  "preserves (\<lambda>w. shared w = c) (snapshot_load x p)"
  by (rule survives_persist [OF shared_survives], rule survives_persist [OF shared_survives], rule survives_load [OF shared_survives(1)])

text \<open>What the persist step hands to the publication.\<close>

lemma alone_persisted:
  assumes "quiet h (\<lambda>f. f = F) m (persisted_file (fst (snd h)) p bytes F)" "\<And>c. preserves (\<lambda>w. shared w = c) m"
    and "\<And>s G. with_file (path_components p) bytes F G \<Longrightarrow> stamp_now (fst (snd h)) G (f_next F) s \<Longrightarrow>
      alone h (\<lambda>f c. f = G \<and> c = C) (k (Some s)) B"
  shows "alone h (\<lambda>f c. f = F \<and> c = C) (handle m g k) B"
proof (rule alone_handle [where D = "\<lambda>_ _ _. False" and C = "\<lambda>v f c. (\<exists>s. v = Some s \<and> stamp_now (fst (snd h)) f (f_next F) s) \<and>
      with_file (path_components p) bytes F f \<and> c = C"], goal_cases)
  case 1
  show ?case by (rule alone_post [OF alone_files [OF assms(1,2)]]) (auto simp: persisted_file_def)
next
  case (3 v)
  show ?case by (rule alone_fix) (auto intro: assms(3))
qed simp

lemma bind_with_err_handle: "bind (with_err g m) k = handle m (\<lambda>e. raise (g e)) k"
  by (simp add: fun_eq_iff bind_def with_err_def handle_def raise_def split: prod.splits sum.splits)

lemma alone_publish:
  assumes x: "externs_ok x" and ok: "text_ok applied" and dest: "writable h F p" and room: "roomy C applied"
    and seen: "\<forall>s. expected = Some s \<longrightarrow> (\<exists>i t. held_at F p i t \<and> length t \<le> max_file_len \<and> stamp_now (fst (snd h)) F i s \<and> previous = content_id x t)"
  shows "alone h (\<lambda>f c. f = F \<and> c = C) (publish hs x p input previous applied expected durability)
    (\<lambda>r f c. (\<exists>success. r = Inr success \<and> es_snapshot success = content_id x applied) \<and> stored hs x (fst (snd h)) p applied F f c)"
proof -
  have len: "length applied \<le> usize_max" using text_ok_parts [OF ok] by simp
  have seen': "seen h x F p (map_option (\<lambda>stamp. \<lparr>ed_stamp = stamp, ed_content_id = previous\<rparr>) expected)"
    using seen by (fastforce simp: seen_def)
  show ?thesis
    unfolding publish_def Let_def from_validated_bytes_ok [OF x ok] map_err_simps bind_lift_Inr bind_with_err_handle
  proof (rule alone_persisted [OF quiet_atomic_write [OF dest len seen'] shared_persist(1)], goal_cases)
    case (1 s G)
    show ?case
      by (rule alone_bind [where C = "\<lambda>_. stored hs x (fst (snd h)) p applied F", OF alone_post [OF alone_publish_snapshot [OF 1 room len]]])
        (auto intro!: alone_basic simp: edit_success_new_def)
  qed
qed

lemma alone_edit:
  assumes x: "externs_ok x" "\<forall>n. x_reserve x n" and dest: "writable h F p" and held: "held_at F p i t"
    and request: "er_snapshot input = content_id x t" "batch_ok t (er_edits input)" "\<forall>operation\<in>set (er_edits input). utf8_ok (op_content operation)"
    and room: "roomy C (edit_spec t (map line_edit_of (er_edits input)))"
  shows "alone h (\<lambda>f c. f = F \<and> c = C) (edit_run_blocking hs x p input durability)
    (\<lambda>r f c. (\<exists>success. r = Inr success \<and> es_snapshot success = content_id x (edit_spec t (map line_edit_of (er_edits input)))) \<and>
       stored hs x (fst (snd h)) p (edit_spec t (map line_edit_of (er_edits input))) F f c)"
proof -
  let ?out = "edit_spec t (map line_edit_of (er_edits input))"
  have run: "apply_versioned_reference_edits t (content_id x t) input = Inr ?out"
    using request by (simp add: versioned_edit_eq_Inr)
  have ok: "text_ok t" using request(2) by (simp add: batch_ok_def)
  have out: "text_ok ?out"
    by (rule edited_text_ok [of t "er_edits input"]) (use run request(3) in \<open>simp_all add: versioned_edit_eq_Inr apply_reference_edits_eq_Inr\<close>)
  show ?thesis
    unfolding edit_run_blocking_def
  proof (rule alone_handle [where D = "\<lambda>_ _ _. False" and C = "\<lambda>snap f c. (\<exists>s. snap = fresh_snapshot x t (Some s) \<and>
        stamp_now (fst (snd h)) F i s) \<and> f = F \<and> c = C"], goal_cases)
    case 1
    show ?case by (rule alone_post [OF alone_files [OF quiet_load [OF x held ok] shared_persist(3)]]) auto
  next
    case (3 snap)
    show ?case
    proof (rule alone_pure, elim exE conjE)
      fix s assume s: "snap = fresh_snapshot x t (Some s)" "stamp_now (fst (snd h)) F i s"
      have "wf_snapshot x snap" using ok by (simp add: s(1))
      then have engine: "fst (apply_edits_fast x input snap) = Inr ?out"
        using apply_edits_fast_run [OF x(1), of snap input] run s(1) by auto
      show "alone h (\<lambda>f c. f = F \<and> c = C) (bind (lift (fst (apply_edits_fast x input snap))) (\<lambda>applied.
          publish hs x p input (sn_id snap) applied (sn_stamp snap) durability))
        (\<lambda>r f c. (\<exists>success. r = Inr success \<and> es_snapshot success = content_id x ?out) \<and> stored hs x (fst (snd h)) p ?out F f c)"
        unfolding engine bind_lift_Inr
        by (rule alone_publish [OF x(1) out dest room]) (use s held text_ok_parts [OF ok] in auto)
    qed
  qed simp
qed

text \<open>What a finished write shows.\<close>

definition wrote :: "hashing \<Rightarrow> externs \<Rightarrow> u64 \<Rightarrow> path \<Rightarrow> write_request \<Rightarrow> bool \<Rightarrow> fsys \<Rightarrow> 'e + write_success \<Rightarrow> fsys \<Rightarrow> cache \<Rightarrow> bool" where
  "wrote hs x device p input creates F r f c \<longleftrightarrow>
     (\<exists>success. r = Inr success \<and> wsu_snapshot success = content_id x (wr_content input) \<and> wsu_created success = creates) \<and>
     stored hs x device p (wr_content input) F f c"

lemma alone_finish_write:
  assumes x: "externs_ok x" and out: "text_ok (wr_content input)" and room: "roomy C (wr_content input)"
    and persist: "quiet h (\<lambda>f. f = F) (persist_write x p (wr_content input) current creates durability
        :: ('z process_scheme, persist_error, file_stamp option) comp) (persisted_file (fst (snd h)) p (wr_content input) F)"
  shows "alone h (\<lambda>f c. f = F \<and> c = C)
    (finish_write hs x p input current creates durability :: ('z process_scheme, protocol_error fault, write_success) comp)
    (wrote hs x (fst (snd h)) p input creates F)"
proof -
  have len: "length (wr_content input) \<le> usize_max" using text_ok_parts [OF out] by simp
  have pres: "preserves (\<lambda>w. shared w = c) (persist_write x p (wr_content input) current creates durability
      :: ('z process_scheme, persist_error, file_stamp option) comp)" for c
    unfolding persist_write_def Let_def by (simp add: shared_persist)
  show ?thesis
    unfolding finish_write_def Let_def from_validated_bytes_ok [OF x out] map_err_simps bind_lift_Inr
  proof (rule alone_persisted [OF persist pres], goal_cases)
    case (1 s G)
    show ?case
      by (rule alone_bind [where C = "\<lambda>_. stored hs x (fst (snd h)) p (wr_content input) F",
            OF alone_post [OF alone_publish_snapshot [OF 1 room len]]])
        (auto intro!: alone_basic simp: wrote_def write_success_new_def)
  qed
qed

text \<open>The current content, when the path is free and when it names a text.\<close>

lemma alone_load_absent:
  assumes "lookup F p = None"
  shows "alone h (\<lambda>f c. f = F \<and> c = C) (load_current x p :: ('z process_scheme, protocol_error fault, snapshot option) comp)
    (case_sum (\<lambda>_ _ _. False) (\<lambda>v f c. v = None \<and> f = F \<and> c = C))"
  unfolding load_current_def
  by (rule alone_handle [where D = "\<lambda>e f c. is_missing e \<and> f = F \<and> c = C" and C = "\<lambda>_ _ _. False"],
      rule alone_post [OF alone_files [OF quiet_load_missing [OF assms] shared_persist(3)]])
    (auto intro!: alone_pure alone_basic)

lemma alone_load_held:
  assumes x: "externs_ok x" "\<forall>n. x_reserve x n" and t: "held_at F p i t" "text_ok t"
  shows "alone h (\<lambda>f c. f = F \<and> c = C) (load_current x p :: ('z process_scheme, protocol_error fault, snapshot option) comp)
    (case_sum (\<lambda>_ _ _. False) (\<lambda>v f c. (\<exists>s. v = Some (fresh_snapshot x t (Some s)) \<and> stamp_now (fst (snd h)) F i s) \<and> f = F \<and> c = C))"
  unfolding load_current_def
  by (rule alone_handle [where D = "\<lambda>_ _ _. False" and C = "\<lambda>snap f c. (\<exists>s. snap = fresh_snapshot x t (Some s) \<and>
      stamp_now (fst (snd h)) F i s) \<and> f = F \<and> c = C"],
      rule alone_post [OF alone_files [OF quiet_load [OF x t] shared_persist(3)]])
    (auto intro!: alone_basic)

lemma alone_write:
  assumes x: "externs_ok x" "\<forall>n. x_reserve x n" and dest: "writable h F p"
    and held: "\<forall>i. lookup F p = Some i \<longrightarrow> (\<exists>t. held_at F p i t \<and> text_ok t)"
    and request: "validate_reference_write (map_option (\<lambda>t. (t, content_id x t)) (content_at F p)) input = Inr creates" "utf8_ok (wr_content input)"
    and room: "roomy C (wr_content input)"
  shows "alone h (\<lambda>f c. f = F \<and> c = C) (write_run_blocking hs x p input durability :: ('z process_scheme, protocol_error fault, write_success) comp)
    (wrote hs x (fst (snd h)) p input creates F)"
proof -
  have out: "text_ok (wr_content input)" using request by (auto simp: write_eq_Inr text_ok_def)
  then have len: "length (wr_content input) \<le> usize_max" using text_ok_parts by simp
  note finish = alone_finish_write [OF x(1) out room]
  show ?thesis
  proof (cases "lookup F p")
    case None
    then have absent: "validate_reference_write None input = Inr creates" using request(1) by (simp add: content_at_def)
    then have "creates" by (auto simp: write_eq_Inr split: write_expect.splits)
    then have "alone h (\<lambda>f c. f = F \<and> c = C) (finish_write hs x p input None creates durability
        :: ('z process_scheme, protocol_error fault, write_success) comp) (wrote hs x (fst (snd h)) p input creates F)"
      using quiet_atomic_create [OF dest len None] by (intro finish) (simp add: persist_write_def)
    then show ?thesis
      unfolding write_run_blocking_def
      by (intro alone_bind [OF alone_load_absent [OF None]] alone_pure) (simp add: absent)
  next
    case (Some i)
    obtain t where t: "held_at F p i t" "text_ok t" using held Some by blast
    then have "content_at F p = Some t" by (auto simp: held_at_def content_at_def)
    then have found: "validate_reference_write (Some (t, content_id x t)) input = Inr creates" using request(1) by simp
    then have creates: "\<not> creates" by (auto simp: write_eq_Inr split: write_expect.splits)
    show ?thesis
      unfolding write_run_blocking_def
    proof (rule alone_bind [OF alone_load_held [OF x t]], rule alone_pure, elim exE conjE, goal_cases)
      case (1 v s)
      have "seen h x F p (Some \<lparr>ed_stamp = s, ed_content_id = content_id x t\<rparr>)"
        using t 1(2) text_ok_parts [OF t(2)] by (auto simp: seen_def)
      from quiet_atomic_write [OF dest len this, where durability = durability] show ?case
        using creates finish [of h F p v creates durability hs] by (simp add: 1(1) found persist_write_def)
    qed
  qed
qed

text \<open>A read of what was stored is its page.\<close>

lemma alone_read:
  assumes x: "externs_ok x" "\<forall>n. x_reserve x n" and ok: "text_ok t"
    and request: "read_request_validate input = Inr ()" "resolve_workspace_path view ws (rr_path input) = Inr p"
      "rr_cursor input = None" "rr_start_line input = None"
  shows "alone h (stored hs x (fst (snd h)) p t F) (read_run hs x join view ws input)
    (\<lambda>r f c. r = Inr (page_text x (rr_path input) t 0 (unat (rr_limit input))) \<and> with_file (path_components p) t F f)"
proof (rule alone_fix)
  fix G C assume st: "stored hs x (fst (snd h)) p t F G C"
  then obtain s where C: "cached hs (fst (snd h)) p (f_next F) (fresh_snapshot x t (Some s)) G C" and G: "with_file (path_components p) t F G"
    by (auto simp: stored_def)
  let ?snap = "fresh_snapshot x t (Some s)"
  have look: "lookup G p = Some (f_next F)" by (simp add: lookup_def with_fileD(1) [OF G])
  have route: "alone h (\<lambda>f c. f = G \<and> c = C) (reads_blocking p :: ('z process_scheme, protocol_error fault, bool) comp) (case_sum (\<lambda>_ _ _. False) (\<lambda>_ f c. f = G \<and> c = C))"
  proof -
    have "quiet h (\<lambda>f. f = G) (reads_blocking p :: ('z process_scheme, protocol_error fault, bool) comp) (\<lambda>r f. (\<exists>b. r = Inr b) \<and> f = G)"
      unfolding reads_blocking_def
      by (rule quiet_handle [where D = "\<lambda>_ _. False" and C = "\<lambda>_ f. f = G"], rule quiet_post [OF quiet_stat])
        (auto simp: look intro!: quiet_ret)
    moreover have "preserves (\<lambda>w. shared w = c) (reads_blocking p :: ('z process_scheme, protocol_error fault, bool) comp)" for c
      unfolding reads_blocking_def by (intro preserves_rules survives_outside outside_shared)
    ultimately show ?thesis by (rule alone_post [OF alone_files]) auto
  qed
  have page: "fst (read_page x join p input ?snap) = Inr (page_text x (rr_path input) t 0 (unat (rr_limit input)))"
  proof -
    have "wf_snapshot x ?snap" "offsets_fit x ?snap" using ok x(2) by (simp_all add: offsets_fit_def)
    then show ?thesis
      using render_page_run [OF x(1), of ?snap 1 join p input] request(3,4) wf_line_count(1) [of x ?snap] seg_count_pos [of t]
      by (simp add: read_page_def read_start_def comp_simps word_less_nat_alt del: seg_count_pos)
  qed
  have loading: "alone h (\<lambda>f c. f = G \<and> c = C) (load_shared hs x join p blocking)
      (case_sum (\<lambda>_ _ _. False) (\<lambda>snap f c. snap = ?snap \<and> f = G))" for blocking
    using alone_served [OF C, of "snapshot_load x p"] text_ok_parts [OF ok]
    by (auto simp: load_shared_def spawn_blocking_def Let_def intro!: alone_with_err intro: alone_post)
  show "alone h (\<lambda>f c. f = G \<and> c = C) (read_run hs x join view ws input)
    (\<lambda>r f c. r = Inr (page_text x (rr_path input) t 0 (unat (rr_limit input))) \<and> with_file (path_components p) t F f)"
    unfolding read_run_def request(1,2) map_err_simps bind_lift_Inr
    by (rule alone_bind [OF route], rule alone_bind [OF loading], rule alone_pure) (auto intro!: alone_basic simp: page G)
qed

section \<open>Properties\<close>

text \<open>
  The setting of the two properties: calls do not fail, nobody else changes files or the cache, the
  allocator grants what is asked for, and the destination is a file name in an existing directory.
\<close>

definition undisturbed_process :: "externs \<Rightarrow> path \<Rightarrow> 'z process_scheme \<Rightarrow> bool" where
  "undisturbed_process x p w \<longleftrightarrow> externs_ok x \<and> (\<forall>n. x_reserve x n) \<and> calm_world w \<and> pr_turns w = [] \<and>
     writable (host_of w) (w_fs w) p \<and> length (ca_shards (pr_cache w)) = SHARD_COUNT"

lemma content_held: "content_at F p = Some t \<Longrightarrow> writable h F p \<Longrightarrow> \<exists>i. held_at F p i t"
  by (auto simp: content_at_def held_at_def writable_def)

lemma then_read:
  fixes w :: "'z process_scheme"
  assumes run: "undisturbed_process x p w" and ok: "text_ok out"
    and tool: "alone (host_of w) (\<lambda>f c. f = w_fs w \<and> c = pr_cache w) m
      (\<lambda>r f c. (\<exists>success. r = Inr success \<and> P success) \<and> stored hs x (fst (snd (host_of w))) p out (w_fs w) f c)"
    and read: "read_request_validate page_request = Inr ()" "resolve_workspace_path view ws (rr_path page_request) = Inr p"
      "rr_cursor page_request = None" "rr_start_line page_request = None"
  shows "\<exists>success w1 w2. m w = (Inr success, w1) \<and> P success \<and>
    content_at (w_fs w1) p = Some out \<and>
    (\<forall>q. path_components q \<noteq> path_components p \<longrightarrow> content_at (w_fs w1) q = content_at (w_fs w) q) \<and>
    read_run hs x join view ws page_request w1 =
      (Inr (page_text x (rr_path page_request) out 0 (unat (rr_limit page_request))), w2)"
proof -
  have w: "externs_ok x" "\<forall>n. x_reserve x n" "calm_world w" "pr_turns w = []" "fs_ok (w_fs w)"
    using run by (simp_all add: undisturbed_process_def writable_def)
  obtain r w1 where one: "m w = (r, w1)" by (cases "m w")
  note mid = aloneD [OF tool refl w(3,4) _ one, OF conjI [OF refl refl]]
  then obtain success where success: "r = Inr success" "P success" by blast
  have st: "stored hs x (fst (snd (host_of w))) p out (w_fs w) (w_fs w1) (pr_cache w1)" using mid(4) by blast
  then have placed: "with_file (path_components p) out (w_fs w) (w_fs w1)" by (simp add: stored_def)
  obtain r2 w2 where two: "read_run hs x join view ws page_request w1 = (r2, w2)" by (metis surj_pair)
  from aloneD(4) [OF alone_read [OF w(1,2) ok read] mid(1-3) st two]
  have "r2 = Inr (page_text x (rr_path page_request) out 0 (unat (rr_limit page_request)))" by blast
  then show ?thesis
    using one success two with_file_content [OF placed] w(5) by blast
qed

text \<open>
  Property C6.  An edit that should succeed does.  In a run that nobody disturbs, however long its
  calls take and however short its reads and writes are, an edit that names the identity of what
  the file holds, with a valid batch, succeeds with the identity of the edited text; the file then
  holds exactly the text of the specification, every other file is as it was, and the next read
  through the cache shows the first page of the new text.
\<close>

theorem edit_succeeds_and_shows:
  assumes "undisturbed_process x p w" and "content_at (w_fs w) p = Some t"
    and "er_snapshot input = content_id x t" and "batch_ok t (er_edits input)"
    and "\<forall>operation\<in>set (er_edits input). utf8_ok (op_content operation)"
    and "length (edit_spec t (map line_edit_of (er_edits input))) \<le> unat (ca_capacity (pr_cache w))"
    and "read_request_validate page_request = Inr ()" and "resolve_workspace_path view ws (rr_path page_request) = Inr p"
    and "rr_cursor page_request = None" and "rr_start_line page_request = None"
  shows "\<exists>success w1 w2. edit_run_blocking hs x p input durability w = (Inr success, w1) \<and>
    es_snapshot success = content_id x (edit_spec t (map line_edit_of (er_edits input))) \<and>
    content_at (w_fs w1) p = Some (edit_spec t (map line_edit_of (er_edits input))) \<and>
    (\<forall>q. path_components q \<noteq> path_components p \<longrightarrow> content_at (w_fs w1) q = content_at (w_fs w) q) \<and>
    read_run hs x join view ws page_request w1 =
      (Inr (page_text x (rr_path page_request) (edit_spec t (map line_edit_of (er_edits input))) 0 (unat (rr_limit page_request))), w2)"
proof (rule then_read [OF assms(1) _ _ assms(7-10)])
  let ?out = "edit_spec t (map line_edit_of (er_edits input))"
  show "text_ok ?out"
    by (rule edited_text_ok [of t "er_edits input"]) (use assms(3-5) in \<open>simp_all add: apply_reference_edits_eq_Inr\<close>)
  have w: "externs_ok x" "\<forall>n. x_reserve x n" "writable (host_of w) (w_fs w) p" "roomy (pr_cache w) ?out"
    using assms(1,6) by (simp_all add: undisturbed_process_def roomy_def)
  obtain i where "held_at (w_fs w) p i t" using content_held [OF assms(2) w(3)] by blast
  from alone_edit [OF w(1-3) this assms(3-5) w(4)]
  show "alone (host_of w) (\<lambda>f c. f = w_fs w \<and> c = pr_cache w) (edit_run_blocking hs x p input durability)
    (\<lambda>r f c. (\<exists>success. r = Inr success \<and> es_snapshot success = content_id x ?out) \<and>
      stored hs x (fst (snd (host_of w))) p ?out (w_fs w) f c)" .
qed

text \<open>
  Property C9.  A write that should succeed does.  In a run that nobody disturbs, a write whose
  expectation fits what is there (nothing, or the named identity) succeeds and reports whether it
  created the file; the file then holds exactly the content, every other file is as it was, and
  the next read shows its first page.
\<close>

theorem write_succeeds_and_shows:
  assumes "undisturbed_process x p w" and "\<forall>t. content_at (w_fs w) p = Some t \<longrightarrow> text_ok t"
    and "validate_reference_write (map_option (\<lambda>t. (t, content_id x t)) (content_at (w_fs w) p)) input = Inr creates"
    and "utf8_ok (wr_content input)" and "length (wr_content input) \<le> unat (ca_capacity (pr_cache w))"
    and "read_request_validate page_request = Inr ()" and "resolve_workspace_path view ws (rr_path page_request) = Inr p"
    and "rr_cursor page_request = None" and "rr_start_line page_request = None"
  shows "\<exists>success w1 w2. write_run_blocking hs x p input durability w = (Inr success, w1) \<and>
    (wsu_snapshot success = content_id x (wr_content input) \<and> wsu_created success = creates) \<and>
    content_at (w_fs w1) p = Some (wr_content input) \<and>
    (\<forall>q. path_components q \<noteq> path_components p \<longrightarrow> content_at (w_fs w1) q = content_at (w_fs w) q) \<and>
    read_run hs x join view ws page_request w1 =
      (Inr (page_text x (rr_path page_request) (wr_content input) 0 (unat (rr_limit page_request))), w2)"
proof (rule then_read [OF assms(1) _ _ assms(6-9)])
  show "text_ok (wr_content input)" using assms(3,4) by (auto simp: write_eq_Inr text_ok_def)
  have w: "externs_ok x" "\<forall>n. x_reserve x n" "writable (host_of w) (w_fs w) p" "roomy (pr_cache w) (wr_content input)"
    using assms(1,5) by (simp_all add: undisturbed_process_def roomy_def)
  have "\<forall>i. lookup (w_fs w) p = Some i \<longrightarrow> (\<exists>t. held_at (w_fs w) p i t \<and> text_ok t)"
    using assms(2) w(3) by (auto simp: content_at_def held_at_def writable_def)
  from alone_write [OF w(1-3) this assms(3,4) w(4), of hs durability]
  show "alone (host_of w) (\<lambda>f c. f = w_fs w \<and> c = pr_cache w) (write_run_blocking hs x p input durability)
    (\<lambda>r f c. (\<exists>success. r = Inr success \<and> (wsu_snapshot success = content_id x (wr_content input) \<and> wsu_created success = creates)) \<and>
      stored hs x (fst (snd (host_of w))) p (wr_content input) (w_fs w) f c)"
    by (rule alone_post) (simp add: wrote_def)
qed

section \<open>A concrete process\<close>

lemma temp_path_f: "path_components (temp_path ''/f'' pid c now) = [RootDir, Normal (temp_name pid c now)]"
proof -
  have "path_parent ''/f'' = Some ''/''" "path_components ''/'' = [RootDir]" by code_simp+
  then show ?thesis by (simp add: temp_path_components temp_parent_def)
qed

lemma small_process_undisturbed: "undisturbed_process plain_externs ''/f'' (small_process (with_capacity 1000))"
proof -
  let ?w = "small_process (with_capacity 1000)"
  have w: "w_fs ?w = small_fs ''ab'' (coarse_clock 4000000 1000000000)" "w_script ?w = []" "pr_turns ?w = []"
    "pr_cache ?w = with_capacity 1000"
    by (simp_all add: small_process_def world.defs small_world_def)
  have p: "path_parent ''/f'' = Some ''/''" "path_file_name ''/f'' = Some ''f''" by code_simp+
  have "temp_name pid c now \<noteq> ''f''" for pid c now using temp_name_prefix [of pid c now] by (auto simp: TEMP_PREFIX_def)
  then have "writable (host_of ?w) (w_fs ?w) ''/f''"
    by (auto simp: writable_def fs_ok_def p w(1) small_fs_def parent_exists_def lookup_def path_f temp_path_f ordinary_def TEMP_PREFIX_def
        split: if_splits)
  moreover have "length (ca_shards (with_capacity 1000)) = SHARD_COUNT" by (simp add: with_capacity_def)
  ultimately show ?thesis by (simp add: undisturbed_process_def calm_world_def w)
qed

lemma small_process_content: "content_at (w_fs (small_process ca)) ''/f'' = Some ''ab''"
  by (simp add: small_process_def world.defs small_world_def small_fs_def content_at_def lookup_def path_f)

abbreviation any_view :: os_view where
  "any_view \<equiv> \<lparr>v_exists = \<lambda>p. True, v_canonicalize = \<lambda>p. Inr p\<rparr>"

abbreviation first_page :: read_request where
  "first_page \<equiv> \<lparr>rr_path = ''/f'', rr_limit = 1, rr_cursor = None, rr_start_line = None\<rparr>"

lemma first_page_ok: "read_request_validate first_page = Inr ()"
  "resolve_workspace_path any_view (workspace_new ''/'' False) (rr_path first_page) = Inr ''/f''"
  "rr_cursor first_page = None" "rr_start_line first_page = None"
proof -
  show "resolve_workspace_path any_view (workspace_new ''/'' False) (rr_path first_page) = Inr ''/f''" by code_simp
qed (simp_all add: read_request_validate_def MAX_PAGE_LINES_def)

lemma small_process_room: "length bytes \<le> 1000 \<Longrightarrow> length bytes \<le> unat (ca_capacity (pr_cache (small_process (with_capacity 1000))))"
proof -
  have "pr_cache (small_process c) = c" for c by (simp add: small_process_def world.defs)
  then show "length bytes \<le> 1000 \<Longrightarrow> ?thesis" by (simp add: with_capacity_def)
qed

theorem edit_succeeds_and_shows_witness:
  "\<exists>success w1 w2. edit_run_blocking depth_hashing plain_externs ''/f''
      \<lparr>er_path = ''/f'', er_snapshot = SnapshotId 2, er_edits = [Replace (Position 1 0) (Position 2 2) ''xyz'']\<rparr> DurFull
      (small_process (with_capacity 1000)) = (Inr success, w1) \<and>
    content_at (w_fs w1) ''/f'' = Some ''xyz'' \<and>
    read_run depth_hashing plain_externs ''panic'' any_view (workspace_new ''/'' False) first_page w1 =
      (Inr (page_text plain_externs ''/f'' ''xyz'' 0 1), w2)"
proof -
  let ?edits = "[Replace (Position 1 0) (Position 2 2) ''xyz'']"
  let ?input = "\<lparr>er_path = ''/f'', er_snapshot = SnapshotId 2, er_edits = ?edits\<rparr>"
  have spec: "edit_spec ''ab'' (map line_edit_of ?edits) = ''xyz''" by code_simp
  have "length (edit_spec ''ab'' (map line_edit_of ?edits)) \<le> max_file_len" unfolding spec by (simp add: max_file_len_def)
  then have "batch_ok ''ab'' ?edits"
    by (auto simp: batch_ok_def two_letters_ok operation_ok_def is_boundary_def boundary_at_def seg_off_def seg_count_def)
  then have batch: "batch_ok ''ab'' (er_edits ?input)" by simp
  have id: "er_snapshot ?input = content_id plain_externs ''ab''" by (simp add: content_id_def plain_externs_def)
  have utf8: "\<forall>operation\<in>set (er_edits ?input). utf8_ok (op_content operation)" by (simp add: utf8_ok_ascii code_of_def)
  have out: "edit_spec ''ab'' (map line_edit_of (er_edits ?input)) = ''xyz''" using spec by simp
  have room: "length (edit_spec ''ab'' (map line_edit_of (er_edits ?input))) \<le>
      unat (ca_capacity (pr_cache (small_process (with_capacity 1000))))"
    unfolding out by (rule small_process_room) simp
  from edit_succeeds_and_shows [OF small_process_undisturbed small_process_content id batch utf8 room first_page_ok,
      of depth_hashing DurFull "''panic''"]
  obtain success w1 w2 where
    "edit_run_blocking depth_hashing plain_externs ''/f'' ?input DurFull (small_process (with_capacity 1000)) = (Inr success, w1)"
    "content_at (w_fs w1) ''/f'' = Some ''xyz''"
    "read_run depth_hashing plain_externs ''panic'' any_view (workspace_new ''/'' False) first_page w1 =
      (Inr (page_text plain_externs (rr_path first_page) ''xyz'' 0 (unat (rr_limit first_page))), w2)"
    unfolding out by blast
  then show ?thesis by (intro exI conjI) (assumption, assumption, simp)
qed

theorem write_succeeds_and_shows_witness:
  "\<exists>success w1 w2. write_run_blocking depth_hashing plain_externs ''/f''
      \<lparr>wr_path = ''/f'', wr_content = ''xyz'', wr_expect = ExpectSnapshot (SnapshotId 2)\<rparr> DurNone
      (small_process (with_capacity 1000)) = (Inr success, w1) \<and> \<not> wsu_created success \<and>
    content_at (w_fs w1) ''/f'' = Some ''xyz'' \<and>
    read_run depth_hashing plain_externs ''panic'' any_view (workspace_new ''/'' False) first_page w1 =
      (Inr (page_text plain_externs ''/f'' ''xyz'' 0 1), w2)"
proof -
  let ?input = "\<lparr>wr_path = ''/f'', wr_content = ''xyz'', wr_expect = ExpectSnapshot (SnapshotId 2)\<rparr>"
  let ?w = "small_process (with_capacity 1000)"
  have decided: "validate_reference_write (map_option (\<lambda>t. (t, content_id plain_externs t)) (content_at (w_fs ?w) ''/f'')) ?input = Inr False"
    by (simp add: write_eq_Inr small_process_content max_file_len_def content_id_def plain_externs_def)
  have valid: "\<forall>t. content_at (w_fs ?w) ''/f'' = Some t \<longrightarrow> text_ok t" by (simp add: small_process_content two_letters_ok)
  have utf8: "utf8_ok (wr_content ?input)" by (simp add: utf8_ok_ascii code_of_def)
  have room: "length (wr_content ?input) \<le> unat (ca_capacity (pr_cache ?w))" by (rule small_process_room) simp
  from write_succeeds_and_shows [OF small_process_undisturbed valid decided utf8 room first_page_ok, of depth_hashing DurNone "''panic''"]
  obtain success w1 w2 where
    "write_run_blocking depth_hashing plain_externs ''/f'' ?input DurNone ?w = (Inr success, w1)" "\<not> wsu_created success"
    "content_at (w_fs w1) ''/f'' = Some (wr_content ?input)"
    "read_run depth_hashing plain_externs ''panic'' any_view (workspace_new ''/'' False) first_page w1 =
      (Inr (page_text plain_externs (rr_path first_page) (wr_content ?input) 0 (unat (rr_limit first_page))), w2)"
    by blast
  then show ?thesis by (intro exI conjI) (assumption, assumption, simp, simp)
qed

end
