(* ===== verification/Read_Current.thy ===== *)
theory Read_Current
  imports Cache_Coherent Server_Answers Quiet_Tools
begin

text \<open>
  The whole \<open>read\<close> call in a process that shares its cache and its files with others: what it shows
  is a page of a text the file held while the call ran.
\<close>

section \<open>The phases\<close>

lemma steady_reads_blocking: "steady (reads_blocking p)"
  unfolding reads_blocking_def by (auto intro!: steady_rules)

lemma crg_reads_blocking:
  assumes "clock_lag (fst h) gran"
  shows "crg h (settled_rely (fst h)) T (viewed (fst (snd h)) gran t0 (begun t0 l0) K) (reads_blocking p)
    (\<lambda>_. viewed (fst (snd h)) gran t0 (begun t0 l0) K)"
  by (rule crg_files [OF assms steadyD [OF steady_reads_blocking stable_begun] steady_reads_blocking keeps_reads_blocking])

text \<open>The setting of the call: what the other threads and processes do, and a coherent cache.\<close>

definition shared_setting :: "int \<Rightarrow> hashing \<Rightarrow> externs \<Rightarrow> path \<Rightarrow> 'z process_scheme \<Rightarrow> bool" where
  "shared_setting gran hs x p w \<longleftrightarrow> clock_lag (w_clock w) gran \<and> fs_small (w_fs w) \<and>
     script_ok (settled_rely (w_clock w)) (w_now w) (w_script w) \<and>
     (\<forall>t \<in> set (pr_turns w). considerate (w_device w) gran hs p t) \<and>
     coherent (w_device w) gran (w_fs w) (w_now w) (pr_cache w) \<and> flight hs p (pr_cache w) = None \<and>
     sound (wf_snapshot x) 0 w"

lemma shared_setting_start:
  assumes "shared_setting gran hs x p w"
  shows "at_process (host_of w) (settled_rely (w_clock w)) (considerate (w_device w) gran hs p)
      (viewed (w_device w) gran (w_now w) (begun (w_now w) (w_log w)) (idle hs p)) w"
  using assms by (simp add: shared_setting_def at_process_def viewed_def begun_def)

section \<open>Properties\<close>

text \<open>
  Property C8.  What \<open>read\<close> shows is current, under four assumptions. The cache is
  coherent at the start: every entry has a stamp, and the file that a stamp that is not racy names
  holds the text of the entry as long as its change time is that of the stamp. Other processes read,
  write and rename as they like before and during the call, but the clock that stamps changes lags
  behind the time by at most its granularity, every change of a file by others sets its change time
  to that clock, and time does not go back. Other threads of the process may evict the entry of the
  path and do as they like with coherent entries of other paths, but neither load the path nor store
  an entry for it (lemma \<open>renewal_vouches_for_another\<close> shows why), and no load of it is
  in flight when the call starts. And the call takes no longer than the racy window less the
  granularity of the clock (lemma \<open>slow_load_can_tear\<close> shows why); of a slower call
  nothing is claimed, not even that the cache stays coherent. Then a valid request, whose path
  resolves and with the memory it asks for granted, either reports that the file could not be
  loaded, or is answered as its cursor or start line asks from a single text that the path held at a
  moment during the call, with the snapshot identity of that very text; the exception is a file with
  change or modification times within the racy window before the call, or later. Whatever the answer
  is, the cache is coherent again after the call.
\<close>

theorem read_shows_current_file:
  assumes "externs_ok x" "\<forall>n. x_reserve x n" and "shared_setting gran hs x p w"
    and "read_request_validate input = Inr ()" "\<forall>c. rr_cursor input = Some c \<longrightarrow> pos_line (cur_next c) \<noteq> 0"
    and "resolve_workspace_path view ws (rr_path input) = Inr p"
    and "read_run hs x join view ws input w = (r, w')" "quick gran (w_now w) (w_now w')"
  shows "coherent (w_device w) gran (w_fs w') (w_now w') (pr_cache w') \<and>
     ((\<exists>e. r = Inl (Err (snapshot_protocol_error ''read'' p e))) \<or>
      (\<exists>new t. w_log w' = new @ w_log w \<and> r = read_answer x input t \<and>
        ((\<exists>moment\<in>set new. content_at (fst moment) p = Some t) \<or> lately (w_now w) p new)))"
proof -
  let ?h = "host_of w"
  have h: "fst ?h = w_clock w" "fst (snd ?h) = w_device w" by (simp_all add: host_of_def)
  have lag: "clock_lag (fst ?h) gran" using assms(3) by (simp add: h shared_setting_def)
  obtain b w1 s w2 where ph: "reads_blocking p w = (Inr b :: protocol_error fault + bool, w1)"
    "get_or_load hs p (snapshot_load x p) w1 = (s, w2)"
    "read_run hs x join view ws input w =
       (rbind (map_err (\<lambda>e. Err (snapshot_protocol_error ''read'' p e)) s) (\<lambda>snapshot. fst (read_page x join p input snapshot)), w2)"
    by (rule read_run_phases [OF assms(4,6)])
  have w': "w' = w2" using assms(7) ph(3) by simp
  from crgD [OF snapshot_loader.crg_get_or_load [OF lag] crgD [OF crg_reads_blocking [OF lag] shared_setting_start [OF assms(3), folded h] ph(1)] ph(2)]
  have now: "coherent (w_device w) gran (w_fs w2) (w_now w2) (pr_cache w2)"
    "\<And>snap. s = Inr snap \<Longrightarrow> served (w_now w) (w_log w) p (sn_text snap) (w_log w2)"
    using assms(8) by (simp_all add: w' h at_process_def load_served_def viewed_def)
  have "sound (wf_snapshot x) 0 w" using assms(3) by (simp add: shared_setting_def)
  note loaded = givesD [OF gives_get_or_load [OF gives_load [OF assms(1)]] givesD(1) [OF gives_outside [OF keeps_reads_blocking] this ph(1)] ph(2)]
  show ?thesis
  proof (cases s)
    case (Inl e)
    then show ?thesis using assms(7) ph(3) now(1) w' by auto
  next
    case (Inr snap)
    have "fst (read_page x join p input snap) = read_answer x input (sn_text snap)"
      using assms(2) by (intro read_page_answer assms(1,4,5) loaded(2) [OF Inr]) (simp add: offsets_fit_def)
    then have "r = read_answer x input (sn_text snap)" using assms(7) ph(3) Inr by simp
    with now(1) now(2) [OF Inr] w' show ?thesis unfolding served_def by metis
  qed
qed

text \<open>The cached file of the small world: the call runs, and what it shows is its page.\<close>

lemma stocked_setting: "shared_setting 4000000 depth_hashing plain_externs ''/f'' stocked_process"
proof -
  have "wf_snapshot plain_externs (fresh_snapshot plain_externs ''ab'' (Some small_stamp))" using two_letters_ok by simp
  then have "cache_good (wf_snapshot plain_externs) (pr_cache stocked_process)"
    using section_step [OF section_insert [of "\<lambda>e. wf_snapshot plain_externs (en_snapshot e)"] with_capacity_all]
    by (simp add: stocked_process_def small_process_def world.defs)
  then show ?thesis
    using stocked_process_coherent stocked_idle ab_files_small coarse_clock_lag by (simp add: shared_setting_def stocked_fields sound_def)
qed

lemma stocked_read:
  obtains snap w' where "read_run depth_hashing plain_externs ''panic'' any_view (workspace_new ''/'' False) first_page stocked_process =
     (fst (read_page plain_externs ''panic'' ''/f'' first_page snap), w')" "sn_text snap = ''ab''" "w_now w' = 9000000000"
proof -
  obtain b w1 s w2 where ph: "reads_blocking ''/f'' stocked_process = (Inr b :: protocol_error fault + bool, w1)"
    "get_or_load depth_hashing ''/f'' (snapshot_load plain_externs ''/f'') w1 = (s, w2)"
    "read_run depth_hashing plain_externs ''panic'' any_view (workspace_new ''/'' False) first_page stocked_process =
       (rbind (map_err (\<lambda>e. Err (snapshot_protocol_error ''read'' ''/f'' e)) s)
         (\<lambda>snapshot. fst (read_page plain_externs ''panic'' ''/f'' first_page snapshot)), w2)"
    by (rule read_run_phases [OF first_page_ok(1,2)])
  have "w1 = stocked_process\<lparr>w_log := (ab_files, ab_files) # w_log stocked_process\<rparr>"
    using ph(1) ab_file(1)
    by (auto simp: reads_blocking_def sys_stat_def syscall_def next_tick_def quiet_tick_def comp_simps stocked_fields Let_def)
  then have "\<exists>snap w'. get_or_load depth_hashing ''/f'' (snapshot_load plain_externs ''/f'') w1 = (Inr snap, w') \<and>
      sn_text snap = ''ab'' \<and> w_now w' = 9000000000"
    by (intro stocked_load) (simp_all add: stocked_fields)
  then show thesis using ph(2,3) that by auto
qed

theorem read_shows_current_file_witness:
  "\<exists>r w'. read_run depth_hashing plain_externs ''panic'' any_view (workspace_new ''/'' False) first_page stocked_process = (r, w') \<and>
     ((\<exists>e. r = Inl (Err (snapshot_protocol_error ''read'' ''/f'' e))) \<or>
      (\<exists>t. r = read_answer plain_externs first_page t \<and>
        ((\<exists>moment\<in>set (w_log w'). content_at (fst moment) ''/f'' = Some t) \<or> lately 9000000000 ''/f'' (w_log w'))))"
proof -
  obtain snap w' where run: "read_run depth_hashing plain_externs ''panic'' any_view (workspace_new ''/'' False) first_page stocked_process =
     (fst (read_page plain_externs ''panic'' ''/f'' first_page snap), w')" "w_now w' = 9000000000"
    by (rule stocked_read)
  have "quick 4000000 (w_now stocked_process) (w_now w')" by (simp add: run(2) stocked_fields quick_def RACY_WINDOW_def)
  moreover have "externs_ok plain_externs" by simp
  ultimately show ?thesis
    using read_shows_current_file [OF _ _ stocked_setting first_page_ok(1) _ first_page_ok(2) run(1)] run(1) stocked_fields(4,6)
    by auto
qed

end
