(* ===== verification/Wire_Schemas.thy ===== *)
theory Wire_Schemas
  imports Requests
begin

text \<open>
  The hand-written serde and JSON Schema implementations of the tokens (\<open>src/protocol.rs\<close>), and
  the limits the request schemas announce.  A JSON value is what a decoder sees of it.  A schema
  pattern is a regular expression, matched by derivatives; \<open>pattern_text\<close> prints it as it stands
  in the source, anchored at both ends.  Minimal and maximal lengths count characters, which the
  patterns make ASCII.
\<close>

section \<open>Patterns\<close>

datatype regex = Void | Eps | Class "(char \<times> char) list" | Lit char | Seq regex regex | Alt regex regex |
  Many regex | Times regex nat

fun regex_text :: "regex \<Rightarrow> string" where
  "regex_text Void = ''[]''"
| "regex_text Eps = ''''"
| "regex_text (Class ranges) = ''['' @ concat (map (\<lambda>(a, b). [a, CHR ''-'', b]) ranges) @ '']''"
| "regex_text (Lit c) = [c]"
| "regex_text (Seq a b) = regex_text a @ regex_text b"
| "regex_text (Alt a b) = ''('' @ regex_text a @ ''|'' @ regex_text b @ '')''"
| "regex_text (Many a) = regex_text a @ ''*''"
| "regex_text (Times a n) = regex_text a @ ''{'' @ dec_string n @ ''}''"

definition pattern_text :: "regex \<Rightarrow> string" where
  "pattern_text r = ''^'' @ regex_text r @ ''$''"

definition in_ranges :: "char \<Rightarrow> (char \<times> char) list \<Rightarrow> bool" where
  "in_ranges c ranges \<longleftrightarrow> list_ex (\<lambda>(a, b). code_of a \<le> code_of c \<and> code_of c \<le> code_of b) ranges"

fun accepts_empty :: "regex \<Rightarrow> bool" where
  "accepts_empty Void \<longleftrightarrow> False"
| "accepts_empty Eps \<longleftrightarrow> True"
| "accepts_empty (Class ranges) \<longleftrightarrow> False"
| "accepts_empty (Lit c) \<longleftrightarrow> False"
| "accepts_empty (Seq a b) \<longleftrightarrow> accepts_empty a \<and> accepts_empty b"
| "accepts_empty (Alt a b) \<longleftrightarrow> accepts_empty a \<or> accepts_empty b"
| "accepts_empty (Many a) \<longleftrightarrow> True"
| "accepts_empty (Times a n) \<longleftrightarrow> n = 0 \<or> accepts_empty a"

text \<open>What is left to match after a character.\<close>

fun after_char :: "char \<Rightarrow> regex \<Rightarrow> regex" where
  "after_char c Void = Void"
| "after_char c Eps = Void"
| "after_char c (Class ranges) = (if in_ranges c ranges then Eps else Void)"
| "after_char c (Lit d) = (if c = d then Eps else Void)"
| "after_char c (Seq a b) =
     (if accepts_empty a then Alt (Seq (after_char c a) b) (after_char c b) else Seq (after_char c a) b)"
| "after_char c (Alt a b) = Alt (after_char c a) (after_char c b)"
| "after_char c (Many a) = Seq (after_char c a) (Many a)"
| "after_char c (Times a n) = (case n of 0 \<Rightarrow> Void | Suc m \<Rightarrow> Seq (after_char c a) (Times a m))"

fun pattern_matches :: "regex \<Rightarrow> string \<Rightarrow> bool" where
  "pattern_matches r [] = accepts_empty r"
| "pattern_matches r (c # s) = pattern_matches (after_char c r) s"

named_theorems pattern_rules

lemma matches_Void [pattern_rules]: "\<not> pattern_matches Void s"
  by (induction s) simp_all

lemma matches_Eps [pattern_rules]: "pattern_matches Eps s \<longleftrightarrow> s = []"
  by (cases s) (simp_all add: matches_Void)

lemma matches_Alt [pattern_rules]: "pattern_matches (Alt a b) s \<longleftrightarrow> pattern_matches a s \<or> pattern_matches b s"
  by (induction s arbitrary: a b) simp_all

lemma matches_Seq: "pattern_matches (Seq a b) s \<longleftrightarrow> (\<exists>u v. s = u @ v \<and> pattern_matches a u \<and> pattern_matches b v)"
proof (induction s arbitrary: a b)
  case Nil
  then show ?case by simp
next
  case (Cons c s)
  have "(\<exists>u v. c # s = u @ v \<and> pattern_matches a u \<and> pattern_matches b v) \<longleftrightarrow>
      accepts_empty a \<and> pattern_matches (after_char c b) s \<or>
      (\<exists>u v. s = u @ v \<and> pattern_matches (after_char c a) u \<and> pattern_matches b v)"
  proof
    assume "\<exists>u v. c # s = u @ v \<and> pattern_matches a u \<and> pattern_matches b v"
    then obtain u v where "c # s = u @ v" "pattern_matches a u" "pattern_matches b v" by blast
    then show "accepts_empty a \<and> pattern_matches (after_char c b) s \<or>
      (\<exists>u v. s = u @ v \<and> pattern_matches (after_char c a) u \<and> pattern_matches b v)"
      by (cases u) auto
  next
    assume "accepts_empty a \<and> pattern_matches (after_char c b) s \<or>
      (\<exists>u v. s = u @ v \<and> pattern_matches (after_char c a) u \<and> pattern_matches b v)"
    then show "\<exists>u v. c # s = u @ v \<and> pattern_matches a u \<and> pattern_matches b v"
      by (metis append_Cons append_Nil pattern_matches.simps)
  qed
  then show ?case by (simp add: matches_Alt Cons.IH) blast
qed

lemma matches_Class [pattern_rules]: "pattern_matches (Class ranges) s \<longleftrightarrow> (\<exists>c. s = [c] \<and> in_ranges c ranges)"
  by (cases s) (auto simp: pattern_rules)

lemma matches_Lit [pattern_rules]: "pattern_matches (Lit c) s \<longleftrightarrow> s = [c]"
  by (cases s) (auto simp: pattern_rules)

lemma matches_skip: "pattern_matches (Seq Eps r) s \<longleftrightarrow> pattern_matches r s" "\<not> pattern_matches (Seq Void r) s"
  by (auto simp: matches_Seq matches_Eps matches_Void)

lemma matches_Lit_Seq [pattern_rules]: "pattern_matches (Seq (Lit c) r) s \<longleftrightarrow> (\<exists>t. s = c # t \<and> pattern_matches r t)"
  by (cases s) (auto simp: matches_skip)

lemma matches_Class_Seq [pattern_rules]:
  "pattern_matches (Seq (Class ranges) r) s \<longleftrightarrow> (\<exists>c t. s = c # t \<and> in_ranges c ranges \<and> pattern_matches r t)"
  by (cases s) (auto simp: matches_skip)

lemma matches_Many_Class [pattern_rules]: "pattern_matches (Many (Class ranges)) s \<longleftrightarrow> list_all (\<lambda>c. in_ranges c ranges) s"
  by (induction s) (auto simp: matches_skip)

lemma matches_Times_Class [pattern_rules]:
  "pattern_matches (Times (Class ranges) n) s \<longleftrightarrow> length s = n \<and> list_all (\<lambda>c. in_ranges c ranges) s"
  by (induction s arbitrary: n) (auto simp: matches_skip matches_Void split: nat.split)

section \<open>JSON values and token decoders\<close>

datatype json = JNull | JBool bool | JNumber int | JText string | JList "json list" | JObject "(string \<times> json) list"

datatype 'e decode_error = NotAString | Custom 'e

text \<open>\<open>serializer.collect_str(self)\<close>, and \<open>String::deserialize(d)?.parse().map_err(custom)\<close>.\<close>

definition serialize_token :: "('a \<Rightarrow> string) \<Rightarrow> 'a \<Rightarrow> json" where
  "serialize_token display x = JText (display x)"

definition deserialize_token :: "(string \<Rightarrow> 'e + 'a) \<Rightarrow> json \<Rightarrow> 'e decode_error + 'a" where
  "deserialize_token from_str v = (case v of JText s \<Rightarrow> map_err Custom (from_str s) | _ \<Rightarrow> Inl NotAString)"

definition snapshot_id_serialize :: "snapshot_id \<Rightarrow> json" where
  "snapshot_id_serialize = serialize_token snapshot_id_display"

definition snapshot_id_deserialize :: "json \<Rightarrow> snapshot_id_parse_error decode_error + snapshot_id" where
  "snapshot_id_deserialize = deserialize_token snapshot_id_from_str"

definition position_serialize :: "position \<Rightarrow> json" where
  "position_serialize = serialize_token position_display"

definition position_deserialize :: "json \<Rightarrow> position_parse_error decode_error + position" where
  "position_deserialize = deserialize_token position_from_str"

definition write_expect_serialize :: "write_expect \<Rightarrow> json" where
  "write_expect_serialize = serialize_token write_expect_display"

definition write_expect_deserialize :: "json \<Rightarrow> write_expect_parse_error decode_error + write_expect" where
  "write_expect_deserialize = deserialize_token write_expect_from_str"

lemma deserialize_token_eq_Inr:
  "deserialize_token from_str v = Inr x \<longleftrightarrow> (\<exists>s. v = JText s \<and> from_str s = Inr x)"
  by (cases v) (auto simp: deserialize_token_def map_err_eq_Inr)

text \<open>A token that reads back its text reads back its JSON.\<close>

context wire_token
begin

lemma json_iff: "deserialize_token parse_tok v = Inr x \<longleftrightarrow> valid_tok x \<and> v = serialize_token show_tok x"
  by (auto simp: deserialize_token_eq_Inr serialize_token_def parse_iff)

end

lemma token_json_roundtrip:
  "snapshot_id_deserialize v = Inr i \<longleftrightarrow> v = snapshot_id_serialize i"
  "position_deserialize v = Inr p \<longleftrightarrow> valid_position p \<and> v = position_serialize p"
  "write_expect_deserialize v = Inr e \<longleftrightarrow> v = write_expect_serialize e"
  by (simp_all add: snapshot_id_deserialize_def snapshot_id_serialize_def sid.json_iff position_deserialize_def
      position_serialize_def posn.json_iff write_expect_deserialize_def write_expect_serialize_def wexp.json_iff)

section \<open>Token schemas\<close>

definition SNAPSHOT_ID_PATTERN :: string where
  "SNAPSHOT_ID_PATTERN = ''^[0-9a-f]{32}$''"

definition POSITION_PATTERN :: string where
  "POSITION_PATTERN = ''^[1-9][0-9]*@(0|[1-9][0-9]*)$''"

definition WRITE_EXPECT_PATTERN :: string where
  "WRITE_EXPECT_PATTERN = ''^(absent|[0-9a-f]{32})$''"

definition lower_hex :: regex where
  "lower_hex = Class [(CHR ''0'', CHR ''9''), (CHR ''a'', CHR ''f'')]"

definition decimal_digit :: regex where
  "decimal_digit = Class [(CHR ''0'', CHR ''9'')]"

definition positive_decimal :: regex where
  "positive_decimal = Seq (Class [(CHR ''1'', CHR ''9'')]) (Many decimal_digit)"

fun literal :: "string \<Rightarrow> regex" where
  "literal [] = Eps"
| "literal (c # s) = Seq (Lit c) (literal s)"

text \<open>A string schema: its pattern and the bounds of its length.\<close>

record string_schema =
  ss_pattern :: regex
  ss_min_length :: nat
  ss_max_length :: nat

definition snapshot_id_json_schema :: string_schema where
  "snapshot_id_json_schema =
     \<lparr>ss_pattern = Times lower_hex 32, ss_min_length = SNAPSHOT_ID_HEX_LEN, ss_max_length = SNAPSHOT_ID_HEX_LEN\<rparr>"

definition position_json_schema :: string_schema where
  "position_json_schema =
     \<lparr>ss_pattern = Seq positive_decimal (Seq (Lit CHR ''@'') (Alt (Lit CHR ''0'') positive_decimal)),
      ss_min_length = 3, ss_max_length = 41\<rparr>"

definition write_expect_json_schema :: string_schema where
  "write_expect_json_schema =
     \<lparr>ss_pattern = Alt (literal ''absent'') (Times lower_hex 32), ss_min_length = 6, ss_max_length = SNAPSHOT_ID_HEX_LEN\<rparr>"

definition schema_admits :: "string_schema \<Rightarrow> json \<Rightarrow> bool" where
  "schema_admits schema v \<longleftrightarrow>
     (case v of
        JText s \<Rightarrow> pattern_matches (ss_pattern schema) s \<and> ss_min_length schema \<le> length s \<and> length s \<le> ss_max_length schema
      | _ \<Rightarrow> False)"

text \<open>The two numbers of a position fit into 64 bits.\<close>

definition numbers_fit :: "json \<Rightarrow> bool" where
  "numbers_fit v \<longleftrightarrow>
     (case v of
        JText s \<Rightarrow>
          (case split_once CHR ''@'' s of
             None \<Rightarrow> False
           | Some (line, byte) \<Rightarrow> value_of_string 10 line \<le> usize_max \<and> value_of_string 10 byte \<le> usize_max)
      | _ \<Rightarrow> False)"

lemma ranges_meaning [simp]:
  "in_ranges c [(CHR ''0'', CHR ''9''), (CHR ''a'', CHR ''f'')] \<longleftrightarrow> is_lower_hex c"
  "in_ranges c [(CHR ''0'', CHR ''9'')] \<longleftrightarrow> is_ascii_digit c"
  "in_ranges c [(CHR ''1'', CHR ''9'')] \<longleftrightarrow> is_ascii_digit c \<and> c \<noteq> CHR ''0''"
proof -
  have "code_of CHR ''0'' = 48" by (simp add: code_of_def)
  then have "code_of c = 48 \<longleftrightarrow> c = CHR ''0''" using code_of_inj by metis
  then show "in_ranges c [(CHR ''1'', CHR ''9'')] \<longleftrightarrow> is_ascii_digit c \<and> c \<noteq> CHR ''0''"
    by (auto simp: in_ranges_def is_ascii_digit_def) (auto simp: code_of_def)
qed (auto simp: in_ranges_def is_ascii_digit_def is_lower_hex_def code_of_def)

lemma matches_hex: "pattern_matches (Times lower_hex n) s \<longleftrightarrow> length s = n \<and> list_all is_lower_hex s"
  by (simp add: lower_hex_def matches_Times_Class)

lemma matches_literal: "pattern_matches (literal t) s \<longleftrightarrow> s = t"
  by (induction t arbitrary: s) (auto simp: pattern_rules)

lemma matches_positive: "pattern_matches positive_decimal s \<longleftrightarrow> canonical_decimal s \<and> s \<noteq> ''0''"
proof -
  have zero: "is_ascii_digit CHR ''0''" by (simp add: is_ascii_digit_def code_of_def)
  have "pattern_matches positive_decimal s \<longleftrightarrow>
      (\<exists>c t. s = c # t \<and> (is_ascii_digit c \<and> c \<noteq> CHR ''0'') \<and> list_all is_ascii_digit t)"
    by (simp only: positive_decimal_def decimal_digit_def matches_Class_Seq matches_Many_Class ranges_meaning)
  also have "\<dots> \<longleftrightarrow> canonical_decimal s \<and> s \<noteq> ''0''"
    by (cases s) (auto simp: canonical_decimal_def list_all_iff)
  finally show ?thesis .
qed

lemma matches_decimal: "pattern_matches (Alt (Lit CHR ''0'') positive_decimal) s \<longleftrightarrow> canonical_decimal s"
  by (auto simp: matches_Alt matches_Lit matches_positive) (simp add: canonical_decimal_def is_ascii_digit_def code_of_def)

lemma matches_position: "pattern_matches (ss_pattern position_json_schema) s \<longleftrightarrow>
    (\<exists>l b. s = l @ ''@'' @ b \<and> canonical_decimal l \<and> l \<noteq> ''0'' \<and> canonical_decimal b)"
  by (auto simp: position_json_schema_def matches_Seq [of positive_decimal] matches_Lit_Seq matches_positive matches_decimal)

lemma canonical_zero: "canonical_decimal s \<Longrightarrow> value_of_string 10 s = 0 \<longleftrightarrow> s = ''0''"
proof -
  have zero: "dec_string 0 = ''0''" by code_simp
  assume "canonical_decimal s"
  from dec_string_value [OF this] show ?thesis using zero value_dec_string [of 0] by metis
qed

lemma canonical_length:
  assumes "canonical_decimal s" "value_of_string 10 s \<le> usize_max"
  shows "1 \<le> length s" "length s \<le> 20"
proof -
  have "length (base_digits 10 (value_of_string 10 s)) \<le> 20"
    using assms(2) by (intro base_digits_length) (simp_all add: usize_max_def)
  moreover have "length s = length (dec_string (value_of_string 10 s))" by (simp only: dec_string_value [OF assms(1)])
  ultimately show "length s \<le> 20" by (simp add: dec_string_def)
  show "1 \<le> length s" using assms(1) by (cases s) (simp_all add: canonical_decimal_def)
qed

lemma parses_decimal: "(\<exists>w. parse_canonical_decimal s part = Inr w) \<longleftrightarrow>
    canonical_decimal s \<and> value_of_string 10 s \<le> usize_max \<and> \<not> (part = LineComponent \<and> s = ''0'')"
proof -
  have "(\<exists>w :: u64. unat w = n \<and> \<not> (part = LineComponent \<and> w = 0)) \<longleftrightarrow>
      n \<le> usize_max \<and> \<not> (part = LineComponent \<and> n = 0)" for n
  proof
    assume "\<exists>w :: u64. unat w = n \<and> \<not> (part = LineComponent \<and> w = 0)"
    then obtain w :: u64 where "n = unat w" "\<not> (part = LineComponent \<and> w = 0)" by blast
    then show "n \<le> usize_max \<and> \<not> (part = LineComponent \<and> n = 0)" by (auto simp: unat_le_usize_max unat_gt_0)
  next
    assume n: "n \<le> usize_max \<and> \<not> (part = LineComponent \<and> n = 0)"
    then have "unat (of_nat n :: u64) = n" by (simp add: unat_of_nat_u64)
    moreover from this have "(of_nat n :: u64) = 0 \<Longrightarrow> n = 0" by simp
    ultimately show "\<exists>w :: u64. unat w = n \<and> \<not> (part = LineComponent \<and> w = 0)" using n by blast
  qed
  note number = this [of "value_of_string 10 s"]
  show ?thesis
  proof (cases "canonical_decimal s")
    case True
    then show ?thesis using number canonical_zero [OF True] by (simp add: parse_canonical_decimal_eq_Inr)
  qed (simp add: parse_canonical_decimal_eq_Inr)
qed

lemma parses_position: "(\<exists>p. position_from_str s = Inr p) \<longleftrightarrow>
    (\<exists>l b. s = l @ ''@'' @ b \<and> (\<exists>w. parse_canonical_decimal l LineComponent = Inr w) \<and>
      (\<exists>w. parse_canonical_decimal b ByteComponent = Inr w))"
  (is "?L \<longleftrightarrow> ?R")
proof
  assume ?L
  then show ?R unfolding position_from_str_eq_Inr by blast
next
  assume ?R
  then obtain l b v w where "s = l @ ''@'' @ b" "parse_canonical_decimal l LineComponent = Inr v"
    "parse_canonical_decimal b ByteComponent = Inr w" by blast
  then have "position_from_str s = Inr (Position v w)" unfolding position_from_str_eq_Inr by auto
  then show ?L by blast
qed

lemma accepts_snapshot_id: "(\<exists>i. snapshot_id_from_str s = Inr i) \<longleftrightarrow> length s = 32 \<and> list_all is_lower_hex s"
  using snapshot_id_from_str_eq by (auto simp: snapshot_id_from_str_def SNAPSHOT_ID_HEX_LEN_def split: if_splits)

lemma accepts_write_expect:
  "(\<exists>e. write_expect_from_str s = Inr e) \<longleftrightarrow> s = ''absent'' \<or> length s = 32 \<and> list_all is_lower_hex s"
  unfolding accepts_snapshot_id [symmetric] by (auto simp: write_expect_from_str_def result_iffs)

lemma position_text_admitted: "(\<exists>p. position_from_str s = Inr p) \<longleftrightarrow>
    (pattern_matches (ss_pattern position_json_schema) s \<and> ss_min_length position_json_schema \<le> length s \<and>
     length s \<le> ss_max_length position_json_schema) \<and>
    (case split_once CHR ''@'' s of None \<Rightarrow> False
     | Some (line, byte) \<Rightarrow> value_of_string 10 line \<le> usize_max \<and> value_of_string 10 byte \<le> usize_max)"
  (is "?L \<longleftrightarrow> ?R")
proof -
  have at: "CHR ''@'' \<notin> set t" if "canonical_decimal t" for t
    using that by (auto simp: canonical_decimal_def is_ascii_digit_def code_of_def)
  show ?thesis
  proof
    assume ?L
    then obtain l b where lb: "s = l @ ''@'' @ b" "canonical_decimal l" "l \<noteq> ''0''" "canonical_decimal b"
      "value_of_string 10 l \<le> usize_max" "value_of_string 10 b \<le> usize_max"
      by (auto simp: parses_position parses_decimal)
    have "split_once CHR ''@'' s = Some (l, b)" using split_once_append [OF at [OF lb(2)]] lb(1) by simp
    moreover have "pattern_matches (ss_pattern position_json_schema) s" using lb(1-4) unfolding matches_position by blast
    moreover have "3 \<le> length s" "length s \<le> 41"
      using canonical_length [OF lb(2,5)] canonical_length [OF lb(4,6)] lb(1) by auto
    ultimately show ?R using lb(5,6) by (simp add: position_json_schema_def)
  next
    assume R: ?R
    then obtain l b where lb: "s = l @ ''@'' @ b" "canonical_decimal l" "l \<noteq> ''0''" "canonical_decimal b"
      unfolding matches_position by blast
    have "split_once CHR ''@'' s = Some (l, b)" using split_once_append [OF at [OF lb(2)]] lb(1) by simp
    then show ?L using R lb unfolding parses_position parses_decimal by auto
  qed
qed

section \<open>Announced limits of the requests\<close>

text \<open>\<open>#[schemars(range(min = a, max = b))]\<close> and \<open>length(...)\<close> on the fields of the requests.\<close>

definition read_request_announced :: "read_request \<Rightarrow> bool" where
  "read_request_announced r \<longleftrightarrow> 1 \<le> rr_limit r \<and> rr_limit r \<le> 2000 \<and>
     (case rr_start_line r of None \<Rightarrow> True | Some line \<Rightarrow> 1 \<le> line)"

definition grep_request_announced :: "grep_request \<Rightarrow> bool" where
  "grep_request_announced r \<longleftrightarrow>
     list_all (\<lambda>v. case v of None \<Rightarrow> True | Some n \<Rightarrow> n \<le> 2000) [gr_before_context r, gr_after_context r, gr_context r] \<and>
     1 \<le> gr_max_matches r \<and> gr_max_matches r \<le> 200"

definition edit_request_announced :: "edit_request \<Rightarrow> bool" where
  "edit_request_announced r \<longleftrightarrow> 1 \<le> length (er_edits r) \<and> length (er_edits r) \<le> 1024"

definition glob_request_announced :: "glob_request \<Rightarrow> bool" where
  "glob_request_announced r \<longleftrightarrow> 1 \<le> gl_max_results r \<and> gl_max_results r \<le> 1000"

definition default_read_limit :: u16 where
  "default_read_limit = MAX_PAGE_LINES"

definition default_max_matches :: u16 where
  "default_max_matches = MAX_GREP_MATCHES"

definition default_max_results :: u16 where
  "default_max_results = MAX_GLOB_RESULTS"

text \<open>
  A decoder does not enforce the limits, the validators do: each accepts what is announced, less the
  combinations of fields that a schema cannot exclude.
\<close>

lemma validators_enforce_limits:
  "read_request_validate r = Inr () \<longleftrightarrow> read_request_announced r \<and> (rr_start_line r = None \<or> rr_cursor r = None)"
  "grep_request_validate g = Inr () \<longleftrightarrow> grep_request_announced g \<and>
     (gr_output_mode g = Content \<or> gr_before_context g = None \<and> gr_after_context g = None \<and> gr_context g = None)"
  "edit_request_validate e = Inr () \<longleftrightarrow> edit_request_announced e \<and>
     list_all (\<lambda>operation. NUL \<notin> set (op_content operation)) (er_edits e)"
  "glob_request_validate gl = Inr () \<longleftrightarrow> glob_request_announced gl"
proof -
  show "read_request_validate r = Inr () \<longleftrightarrow> read_request_announced r \<and> (rr_start_line r = None \<or> rr_cursor r = None)"
    by (auto simp: read_request_validate_ok read_request_announced_def word_le_nat_alt unat_gt_0 Suc_le_eq split: option.splits)
  show "grep_request_validate g = Inr () \<longleftrightarrow> grep_request_announced g \<and>
     (gr_output_mode g = Content \<or> gr_before_context g = None \<and> gr_after_context g = None \<and> gr_context g = None)"
    by (cases "gr_before_context g"; cases "gr_after_context g"; cases "gr_context g")
      (auto simp: grep_request_validate_def grep_request_announced_def MAX_GREP_MATCHES_def MAX_CONTEXT_LINES_def
        word_le_nat_alt word_less_nat_alt unat_gt_0 Suc_le_eq rbind_def)
  show "edit_request_validate e = Inr () \<longleftrightarrow> edit_request_announced e \<and>
     list_all (\<lambda>operation. NUL \<notin> set (op_content operation)) (er_edits e)"
    by (auto simp: edit_request_validate_ok edit_request_announced_def list_all_iff Suc_le_eq)
  show "glob_request_validate gl = Inr () \<longleftrightarrow> glob_request_announced gl"
    by (auto simp: glob_request_validate_ok glob_request_announced_def word_le_nat_alt)
qed

section \<open>The error envelope\<close>

definition ALL_CODES :: "error_code list" where
  "ALL_CODES =
     [CodeInvalidRequest, CodeInvalidSnapshot, CodeInvalidPosition, CodeInvalidRange, CodeOverlappingEdits,
      CodeInvalidUtf8, CodeBinaryFile, CodeFileTooLarge, CodeNotFound, CodeNotAFile, CodePermissionDenied,
      CodeRootEscape, CodeSnapshotConflict, CodeAlreadyExists, CodeInvalidPattern, CodeIo]"

lemma ALL_CODES_complete: "c \<in> set ALL_CODES" "distinct ALL_CODES" "length ALL_CODES = 16"
  by (cases c) (simp_all add: ALL_CODES_def)

datatype protocol_tag = Hashline

record error_response =
  er_protocol :: protocol_tag
  er_error :: protocol_error

definition error_response_new :: "protocol_error \<Rightarrow> error_response" where
  "error_response_new e = \<lparr>er_protocol = Hashline, er_error = e\<rparr>"

section \<open>Properties\<close>

text \<open>
  Property C39.  The schemas the server announces for its tokens are exact: the patterns are the
  strings of the source, and a JSON value satisfies the schema of a snapshot token or of a write
  expectation exactly when the decoder accepts it.  For positions the decoder accepts what the
  schema admits and whose numbers fit into 64 bits, which no pattern can say; the length bound
  loses nothing.
\<close>

theorem schemas_describe_tokens:
  "pattern_text (ss_pattern snapshot_id_json_schema) = SNAPSHOT_ID_PATTERN \<and>
   pattern_text (ss_pattern position_json_schema) = POSITION_PATTERN \<and>
   pattern_text (ss_pattern write_expect_json_schema) = WRITE_EXPECT_PATTERN \<and>
   (schema_admits snapshot_id_json_schema v \<longleftrightarrow> (\<exists>i. snapshot_id_deserialize v = Inr i)) \<and>
   (schema_admits write_expect_json_schema v \<longleftrightarrow> (\<exists>e. write_expect_deserialize v = Inr e)) \<and>
   ((\<exists>p. position_deserialize v = Inr p) \<longleftrightarrow> schema_admits position_json_schema v \<and> numbers_fit v)"
proof -
  have texts: "pattern_text (ss_pattern snapshot_id_json_schema) = SNAPSHOT_ID_PATTERN"
    "pattern_text (ss_pattern position_json_schema) = POSITION_PATTERN"
    "pattern_text (ss_pattern write_expect_json_schema) = WRITE_EXPECT_PATTERN"
    by code_simp+
  have ids: "schema_admits snapshot_id_json_schema v \<longleftrightarrow> (\<exists>i. snapshot_id_deserialize v = Inr i)"
    by (cases v) (auto simp: schema_admits_def snapshot_id_json_schema_def snapshot_id_deserialize_def
        deserialize_token_eq_Inr matches_hex accepts_snapshot_id SNAPSHOT_ID_HEX_LEN_def)
  have absent: "pattern_matches (ss_pattern write_expect_json_schema) s \<longleftrightarrow> s = ''absent'' \<or> length s = 32 \<and> list_all is_lower_hex s" for s
    by (simp only: write_expect_json_schema_def string_schema.simps matches_Alt matches_literal matches_hex)
  have expects: "schema_admits write_expect_json_schema v \<longleftrightarrow> (\<exists>e. write_expect_deserialize v = Inr e)"
    by (cases v) (auto simp: schema_admits_def absent write_expect_deserialize_def deserialize_token_eq_Inr
        accepts_write_expect write_expect_json_schema_def [THEN arg_cong [of _ _ ss_min_length]]
        write_expect_json_schema_def [THEN arg_cong [of _ _ ss_max_length]] SNAPSHOT_ID_HEX_LEN_def)
  have positions: "(\<exists>p. position_deserialize v = Inr p) \<longleftrightarrow> schema_admits position_json_schema v \<and> numbers_fit v"
    by (cases v) (simp_all add: schema_admits_def position_deserialize_def deserialize_token_eq_Inr numbers_fit_def
        position_text_admitted)
  from texts ids expects positions show ?thesis by blast
qed

end
