(* ===== verification/Path_Locks.thy ===== *)
theory Path_Locks
  imports Persist_Atomic
begin

text \<open>
  The lock that serializes writes of one path (\<open>path_lock\<close> of \<open>src/persist.rs\<close>): a table of leaked
  mutexes under a mutex of its own.  The atomic operations run while their thread has the mutex
  of the destination.
\<close>

section \<open>State\<close>

text \<open>
  A leaked mutex is an index into \<open>lt_mutexes\<close>, which gives its owner; \<open>lt_owner\<close> owns the table.
  The keys are paths, compared by components.
\<close>

record lock_table =
  lt_map :: "component list \<Rightarrow> nat option"
  lt_owner :: "nat option"
  lt_mutexes :: "nat option list"

definition no_locks :: lock_table where
  "no_locks = \<lparr>lt_map = Map.empty, lt_owner = None, lt_mutexes = []\<rparr>"

text \<open>Where a thread is: outside, before the table, with the table, before the mutex, with the guard.\<close>

datatype lock_pc = Idle | WantTable path | HasTable path | WantMutex path nat | HasMutex path nat

text \<open>\<open>entry(key).or_insert_with(leak)\<close>\<close>

definition lock_entry :: "path \<Rightarrow> lock_table \<Rightarrow> nat \<times> lock_table" where
  "lock_entry p t =
     (case lt_map t (path_components p) of
        Some m \<Rightarrow> (m, t)
      | None \<Rightarrow>
          let m = length (lt_mutexes t) in
          (m, t\<lparr>lt_map := (lt_map t)(path_components p \<mapsto> m), lt_mutexes := lt_mutexes t @ [None]\<rparr>))"

type_synonym lock_state = "lock_table \<times> (nat \<Rightarrow> lock_pc)"

text \<open>A step of thread \<open>i\<close>; a mutex that another thread has blocks.\<close>

inductive path_lock :: "nat \<Rightarrow> lock_state \<Rightarrow> lock_state \<Rightarrow> bool" where
  enter: "pc i = Idle \<Longrightarrow> path_lock i (t, pc) (t, pc(i := WantTable p))"
| lock_table: "pc i = WantTable p \<Longrightarrow> lt_owner t = None \<Longrightarrow>
    path_lock i (t, pc) (t\<lparr>lt_owner := Some i\<rparr>, pc(i := HasTable p))"
| find_entry: "pc i = HasTable p \<Longrightarrow> lock_entry p t = (m, t') \<Longrightarrow>
    path_lock i (t, pc) (t'\<lparr>lt_owner := None\<rparr>, pc(i := WantMutex p m))"
| lock_mutex: "pc i = WantMutex p m \<Longrightarrow> lt_mutexes t ! m = None \<Longrightarrow>
    path_lock i (t, pc) (t\<lparr>lt_mutexes := (lt_mutexes t)[m := Some i]\<rparr>, pc(i := HasMutex p m))"
| release: "pc i = HasMutex p m \<Longrightarrow>
    path_lock i (t, pc) (t\<lparr>lt_mutexes := (lt_mutexes t)[m := None]\<rparr>, pc(i := Idle))"

inductive lock_reach :: "lock_state \<Rightarrow> bool" where
  lock_start: "lock_reach (no_locks, \<lambda>_. Idle)"
| lock_more: "lock_reach s \<Longrightarrow> path_lock i s s' \<Longrightarrow> lock_reach s'"

section \<open>The invariant\<close>

definition table_ok :: "lock_table \<Rightarrow> bool" where
  "table_ok t \<longleftrightarrow> (\<forall>k m. lt_map t k = Some m \<longrightarrow> m < length (lt_mutexes t)) \<and>
     (\<forall>k k' m. lt_map t k = Some m \<longrightarrow> lt_map t k' = Some m \<longrightarrow> k = k')"

definition threads_ok :: "lock_table \<Rightarrow> (nat \<Rightarrow> lock_pc) \<Rightarrow> bool" where
  "threads_ok t pc \<longleftrightarrow>
     (\<forall>i. lt_owner t = Some i \<longleftrightarrow> (\<exists>p. pc i = HasTable p)) \<and>
     (\<forall>i p m. pc i = WantMutex p m \<or> pc i = HasMutex p m \<longrightarrow> lt_map t (path_components p) = Some m) \<and>
     (\<forall>i m. m < length (lt_mutexes t) \<longrightarrow> (lt_mutexes t ! m = Some i \<longleftrightarrow> (\<exists>p. pc i = HasMutex p m)))"

lemma table_okD: "table_ok t \<Longrightarrow> lt_map t k = Some m \<Longrightarrow> m < length (lt_mutexes t)"
  by (simp add: table_ok_def)

lemma threads_okD:
  assumes "threads_ok t pc"
  shows "lt_owner t = Some i \<longleftrightarrow> (\<exists>p. pc i = HasTable p)"
    and "pc i = WantMutex p m \<or> pc i = HasMutex p m \<Longrightarrow> lt_map t (path_components p) = Some m"
    and "m < length (lt_mutexes t) \<Longrightarrow> lt_mutexes t ! m = Some i \<longleftrightarrow> (\<exists>p. pc i = HasMutex p m)"
  using assms unfolding threads_ok_def by blast+

lemma threads_okI:
  assumes "\<And>i. lt_owner t = Some i \<longleftrightarrow> (\<exists>p. pc i = HasTable p)"
    and "\<And>i p m. pc i = WantMutex p m \<or> pc i = HasMutex p m \<Longrightarrow> lt_map t (path_components p) = Some m"
    and "\<And>i m. m < length (lt_mutexes t) \<Longrightarrow> lt_mutexes t ! m = Some i \<longleftrightarrow> (\<exists>p. pc i = HasMutex p m)"
  shows "threads_ok t pc"
  using assms unfolding threads_ok_def by blast

lemma lock_entry_ok:
  assumes "table_ok t" "lock_entry p t = (m, t')"
  shows "table_ok t'" "lt_map t' (path_components p) = Some m" "lt_owner t' = lt_owner t"
    and "lt_map t k = Some n \<Longrightarrow> lt_map t' k = Some n"
    and "lt_mutexes t' = lt_mutexes t \<or> lt_mutexes t' = lt_mutexes t @ [None]"
  using assms by (auto simp: lock_entry_def table_ok_def Let_def less_SucI split: option.splits if_splits) (metis less_irrefl)+

text \<open>Finding or making the mutex, taking it, and giving it back keep the invariants.\<close>

lemma find_entry_ok:
  assumes ok: "table_ok t" "threads_ok t pc" and at: "pc i = HasTable p" and run: "lock_entry p t = (m, t')"
  shows "table_ok (t'\<lparr>lt_owner := None\<rparr>) \<and> threads_ok (t'\<lparr>lt_owner := None\<rparr>) (pc(i := WantMutex p m))"
proof -
  note e = lock_entry_ok [OF _ run]
  have owner: "lt_owner t = Some i" using threads_okD(1) [OF ok(2)] at by blast
  have held: "lt_mutexes t' ! n = Some j \<longleftrightarrow> (\<exists>p. pc j = HasMutex p n)" if "n < length (lt_mutexes t')" for n j
  proof (cases "n < length (lt_mutexes t)")
    case True
    then show ?thesis using e(5) [OF ok(1)] ok(2) by (auto simp: threads_ok_def nth_append)
  next
    case False
    then have n: "lt_mutexes t' = lt_mutexes t @ [None]" "n = length (lt_mutexes t)" using that e(5) [OF ok(1)] by auto
    have "lt_map t (path_components p) \<noteq> Some n" for p using ok(1) n(2) by (auto simp: table_ok_def)
    then show ?thesis using n ok(2) by (auto simp: threads_ok_def) blast
  qed
  have only: "j = i" if "pc j = HasTable q" for j q
  proof -
    have "lt_owner t = Some j" using threads_okD(1) [OF ok(2)] that by blast
    then show ?thesis using owner by simp
  qed
  have mapped: "lt_map t' (path_components q) = Some n" if "pc j = WantMutex q n \<or> pc j = HasMutex q n" for j q n
    using e(4) [OF ok(1) threads_okD(2) [OF ok(2) that]] .
  have "threads_ok (t'\<lparr>lt_owner := None\<rparr>) (pc(i := WantMutex p m))"
  proof (rule threads_okI)
    fix j show "lt_owner (t'\<lparr>lt_owner := None\<rparr>) = Some j \<longleftrightarrow> (\<exists>q. (pc(i := WantMutex p m)) j = HasTable q)"
      by (auto dest: only)
  next
    fix j q n assume "(pc(i := WantMutex p m)) j = WantMutex q n \<or> (pc(i := WantMutex p m)) j = HasMutex q n"
    then show "lt_map (t'\<lparr>lt_owner := None\<rparr>) (path_components q) = Some n"
      using mapped e(2) [OF ok(1)] by (auto split: if_splits)
  next
    fix j n assume "n < length (lt_mutexes (t'\<lparr>lt_owner := None\<rparr>))"
    then show "lt_mutexes (t'\<lparr>lt_owner := None\<rparr>) ! n = Some j \<longleftrightarrow> (\<exists>q. (pc(i := WantMutex p m)) j = HasMutex q n)"
      using held [of n j] at by auto
  qed
  moreover have "table_ok (t'\<lparr>lt_owner := None\<rparr>)" using e(1) [OF ok(1)] by (simp add: table_ok_def)
  ultimately show ?thesis by blast
qed

lemma lock_mutex_ok:
  assumes ok: "table_ok t" "threads_ok t pc" and at: "pc i = WantMutex p m" and free: "lt_mutexes t ! m = None"
  shows "table_ok (t\<lparr>lt_mutexes := (lt_mutexes t)[m := Some i]\<rparr>) \<and>
    threads_ok (t\<lparr>lt_mutexes := (lt_mutexes t)[m := Some i]\<rparr>) (pc(i := HasMutex p m))"
proof -
  have m: "m < length (lt_mutexes t)" using table_okD [OF ok(1) threads_okD(2) [OF ok(2)]] at by blast
  have "threads_ok (t\<lparr>lt_mutexes := (lt_mutexes t)[m := Some i]\<rparr>) (pc(i := HasMutex p m))"
  proof (rule threads_okI)
    fix j n assume "n < length (lt_mutexes (t\<lparr>lt_mutexes := (lt_mutexes t)[m := Some i]\<rparr>))"
    then show "lt_mutexes (t\<lparr>lt_mutexes := (lt_mutexes t)[m := Some i]\<rparr>) ! n = Some j \<longleftrightarrow>
        (\<exists>q. (pc(i := HasMutex p m)) j = HasMutex q n)"
      using threads_okD(3) [OF ok(2), of n j] at free m by (auto simp: nth_list_update)
  qed (use threads_okD(1,2) [OF ok(2)] threads_okD(2) [OF ok(2), of i p m] at in \<open>auto split: if_splits\<close>)
  moreover have "table_ok (t\<lparr>lt_mutexes := (lt_mutexes t)[m := Some i]\<rparr>)" using ok(1) by (simp add: table_ok_def)
  ultimately show ?thesis by blast
qed

lemma release_ok:
  assumes ok: "table_ok t" "threads_ok t pc" and at: "pc i = HasMutex p m"
  shows "table_ok (t\<lparr>lt_mutexes := (lt_mutexes t)[m := None]\<rparr>) \<and>
    threads_ok (t\<lparr>lt_mutexes := (lt_mutexes t)[m := None]\<rparr>) (pc(i := Idle))"
proof -
  have m: "m < length (lt_mutexes t)" using table_okD [OF ok(1) threads_okD(2) [OF ok(2)]] at by blast
  have "threads_ok (t\<lparr>lt_mutexes := (lt_mutexes t)[m := None]\<rparr>) (pc(i := Idle))"
  proof (rule threads_okI)
    fix j n assume "n < length (lt_mutexes (t\<lparr>lt_mutexes := (lt_mutexes t)[m := None]\<rparr>))"
    then show "lt_mutexes (t\<lparr>lt_mutexes := (lt_mutexes t)[m := None]\<rparr>) ! n = Some j \<longleftrightarrow>
        (\<exists>q. (pc(i := Idle)) j = HasMutex q n)"
      using threads_okD(3) [OF ok(2), of n j] threads_okD(3) [OF ok(2) m, of i] threads_okD(3) [OF ok(2) m, of j] at m
      by (auto simp: nth_list_update)
  qed (use threads_okD(1,2) [OF ok(2)] at in \<open>auto split: if_splits\<close>)
  moreover have "table_ok (t\<lparr>lt_mutexes := (lt_mutexes t)[m := None]\<rparr>)" using ok(1) by (simp add: table_ok_def)
  ultimately show ?thesis by blast
qed

lemma lock_step_ok: "path_lock i s s' \<Longrightarrow> table_ok (fst s) \<and> threads_ok (fst s) (snd s) \<Longrightarrow> table_ok (fst s') \<and> threads_ok (fst s') (snd s')"
proof (induction rule: path_lock.induct)
  case (find_entry pc i p t m t')
  then show ?case using find_entry_ok [of t pc i p m t'] unfolding fst_conv snd_conv by blast
next
  case (lock_mutex pc i p m t)
  then show ?case using lock_mutex_ok [of t pc i p m] unfolding fst_conv snd_conv by blast
next
  case (release pc i p m t)
  then show ?case using release_ok [of t pc i p m] unfolding fst_conv snd_conv by blast
qed (auto simp: threads_ok_def table_ok_def)

lemma lock_reach_ok: "lock_reach s \<Longrightarrow> table_ok (fst s) \<and> threads_ok (fst s) (snd s)"
proof (induction rule: lock_reach.induct)
  case lock_start
  show ?case by (auto simp: no_locks_def table_ok_def threads_ok_def)
next
  case (lock_more s i s')
  then show ?case using lock_step_ok by blast
qed

text \<open>
  What the invariants say of one thread: the mutex it holds is the one the table names for its path,
  a thread that waits for a mutex waits for a writer of the same path, and whoever is inside leaves
  somebody inside a step to take.
\<close>

lemma mutex_owner:
  assumes "table_ok t" "threads_ok t pc" "pc i = HasMutex p m"
  shows "lt_mutexes t ! m = Some i" "m < length (lt_mutexes t)" "lt_map t (path_components p) = Some m"
proof -
  show m: "lt_map t (path_components p) = Some m" using assms(2,3) by (simp add: threads_ok_def)
  then show "m < length (lt_mutexes t)" using assms(1) by (auto simp: table_ok_def)
  then show "lt_mutexes t ! m = Some i" using assms(2,3) unfolding threads_ok_def by blast
qed

lemma mutex_waits:
  assumes "table_ok t" "threads_ok t pc" "pc i = WantMutex p m"
  shows "(\<exists>s'. path_lock i (t, pc) s') \<or> (\<exists>j q. pc j = HasMutex q m \<and> path_components q = path_components p)"
proof (cases "lt_mutexes t ! m")
  case None
  then show ?thesis using lock_mutex [of pc i p m t] assms(3) by blast
next
  case (Some j)
  have m: "lt_map t (path_components p) = Some m" using threads_okD(2) [OF assms(2)] assms(3) by blast
  then have "m < length (lt_mutexes t)" by (rule table_okD [OF assms(1)])
  then obtain q where "pc j = HasMutex q m" using Some threads_okD(3) [OF assms(2)] by blast
  then show ?thesis using mutex_owner(3) [OF assms(1,2)] m assms(1) by (auto simp: table_ok_def)
qed

lemma lock_goes_on:
  assumes "table_ok t" "threads_ok t pc" "pc i \<noteq> Idle"
  shows "\<exists>j s'. pc j \<noteq> Idle \<and> path_lock j (t, pc) s'"
proof (cases "pc i")
  case (WantTable p)
  show ?thesis
  proof (cases "lt_owner t")
    case None
    then show ?thesis using lock_table [of pc i p t] WantTable assms(3) by blast
  next
    case (Some j)
    then obtain q where j: "pc j = HasTable q" using threads_okD(1) [OF assms(2)] by blast
    obtain m t' where "lock_entry q t = (m, t')" by fastforce
    from find_entry [of pc j q, OF j this] show ?thesis using j by (intro exI [of _ j]) auto
  qed
next
  case (HasTable p)
  obtain m t' where "lock_entry p t = (m, t')" by fastforce
  from find_entry [of pc i p, OF HasTable this] show ?thesis using assms(3) by blast
next
  case (WantMutex p m)
  from mutex_waits [OF assms(1,2) this] show ?thesis
  proof
    assume "\<exists>j q. pc j = HasMutex q m \<and> path_components q = path_components p"
    then obtain j q where j: "pc j = HasMutex q m" by blast
    from release [of pc j q m t] show ?thesis using j by (intro exI [of _ j]) auto
  qed (use assms(3) in blast)
next
  case (HasMutex p m)
  with release [of pc i p m t] show ?thesis using assms(3) by blast
qed (use assms(3) in simp)

section \<open>Properties\<close>

text \<open>
  Property C21.  Writers of one path exclude each other and nobody else, under any interleaving of any
  number of threads: two threads that have the guards of paths with the same components are the
  same thread; a thread that waits for a mutex can go on unless a thread has the guard of that
  very path; and the protocol cannot deadlock, since whenever a thread is inside, some thread
  that is inside can take a step.
\<close>

theorem path_lock_exclusive:
  assumes "lock_reach (t, pc)"
  shows "(\<forall>i j p q m n. pc i = HasMutex p m \<and> pc j = HasMutex q n \<and> path_components p = path_components q \<longrightarrow> i = j) \<and>
     (\<forall>i p m. pc i = WantMutex p m \<longrightarrow>
        (\<exists>s'. path_lock i (t, pc) s') \<or> (\<exists>j q. pc j = HasMutex q m \<and> path_components q = path_components p)) \<and>
     (\<forall>i. pc i \<noteq> Idle \<longrightarrow> (\<exists>j s'. pc j \<noteq> Idle \<and> path_lock j (t, pc) s'))"
proof -
  have ok: "table_ok t" "threads_ok t pc" using lock_reach_ok [OF assms] by simp_all
  have exclusive: "i = j" if "pc i = HasMutex p m" "pc j = HasMutex q n" "path_components p = path_components q" for i j p q m n
    using mutex_owner [OF ok that(1)] mutex_owner [OF ok that(2)] that(3) by simp
  show ?thesis using exclusive mutex_waits [OF ok] lock_goes_on [OF ok] by blast
qed

text \<open>
  The lock is one of spellings: a second thread gets the mutex of another spelling of the same file
  while the first one has its own.
\<close>

lemma lock_run:
  assumes "lock_reach (t, pc)" "pc i = Idle" "lt_owner t = None" "lock_entry p t = (m, t')" "lt_mutexes t' ! m = None"
  shows "lock_reach (t'\<lparr>lt_owner := None, lt_mutexes := (lt_mutexes t')[m := Some i]\<rparr>, pc(i := HasMutex p m))"
proof -
  have entry: "lock_entry p (t\<lparr>lt_owner := Some i\<rparr>) = (m, t'\<lparr>lt_owner := Some i\<rparr>)"
    using assms(4) by (auto simp: lock_entry_def Let_def split: option.splits)
  have "lock_reach (t, pc(i := WantTable p))" by (rule lock_more [OF assms(1) enter [where p = p and pc = pc and i = i, OF assms(2)]])
  from lock_more [OF this lock_table [of "pc(i := WantTable p)" i p t]]
  have "lock_reach (t\<lparr>lt_owner := Some i\<rparr>, pc(i := HasTable p))" using assms(3) by simp
  from lock_more [OF this find_entry [of "pc(i := HasTable p)" i p, OF _ entry]]
  have "lock_reach (t'\<lparr>lt_owner := None\<rparr>, pc(i := WantMutex p m))" by simp
  from lock_more [OF this lock_mutex [of "pc(i := WantMutex p m)" i p m]] assms(5) show ?thesis by simp
qed

lemma spellings_not_excluded:
  "\<exists>t pc m n. lock_reach (t, pc) \<and> pc 0 = HasMutex ''/d/f'' m \<and> pc 1 = HasMutex ''/d/../d/f'' n"
proof -
  have ne: "path_components ''/d/../d/f'' \<noteq> path_components ''/d/f''" by code_simp
  let ?t1 = "\<lparr>lt_map = [path_components ''/d/f'' \<mapsto> 0], lt_owner = None, lt_mutexes = [None]\<rparr>"
  have one: "lock_entry ''/d/f'' no_locks = (0, ?t1)" by (simp add: lock_entry_def no_locks_def)
  from lock_run [OF lock_start _ _ one, of 0]
  have first: "lock_reach (?t1\<lparr>lt_mutexes := [Some 0]\<rparr>, (\<lambda>_. Idle)(0 := HasMutex ''/d/f'' 0))"
    by (simp add: no_locks_def)
  let ?t2 = "\<lparr>lt_map = [path_components ''/d/f'' \<mapsto> 0, path_components ''/d/../d/f'' \<mapsto> 1], lt_owner = None, lt_mutexes = [Some 0, None]\<rparr>"
  have "lock_entry ''/d/../d/f'' (?t1\<lparr>lt_mutexes := [Some 0]\<rparr>) = (1, ?t2)" using ne by (simp add: lock_entry_def)
  from lock_run [OF first _ _ this, of 1]
  have "lock_reach (?t2\<lparr>lt_mutexes := [Some 0, Some 1]\<rparr>,
      (\<lambda>_. Idle)(0 := HasMutex ''/d/f'' 0, 1 := HasMutex ''/d/../d/f'' 1))" by simp
  then show ?thesis by (intro exI conjI) (assumption, simp_all)
qed

theorem path_lock_exclusive_witness:
  "\<exists>t pc m n. lock_reach (t, pc) \<and> pc 0 = HasMutex ''/d/f'' m \<and> pc 1 = HasMutex ''/d/../d/f'' n \<and>
     path_components ''/d/f'' \<noteq> path_components ''/d/../d/f''"
proof -
  obtain t pc m n where r: "lock_reach (t, pc)" "pc 0 = HasMutex ''/d/f'' m" "pc 1 = HasMutex ''/d/../d/f'' n"
    using spellings_not_excluded by blast
  have "path_components ''/d/f'' \<noteq> path_components ''/d/../d/f''"
  proof
    assume "path_components ''/d/f'' = path_components ''/d/../d/f''"
    then have "(0::nat) = 1" using path_lock_exclusive [OF r(1)] r(2,3) by blast
    then show False by simp
  qed
  then show ?thesis using r by blast
qed

end
