(* ===== verification/Protocol_Gaps.thy ===== *)
theory Protocol_Gaps
  imports Quiet_Tools Path_Locks Server_Answers
begin

text \<open>
  Where the code and \<open>docs/protocol.md\<close> part: each lemma shows what the code does in a case the
  rules describe differently.
\<close>

text \<open>
  Rules R011 and R017 give every \<open>snapshot_conflict\<close> a payload with the current header.  The
  conflict that the guard before the rename finds has none.
\<close>

lemma late_conflict_has_no_payload:
  "pe_code (persist_protocol_error (DestinationChanged p)) = CodeSnapshotConflict \<and>
   pe_conflict (persist_protocol_error (DestinationChanged p)) = None"
  by (simp add: persist_protocol_error_def protocol_error_new_def)

text \<open>Rule R018: malformed arguments are a structured \<open>invalid_request\<close>.  The code answers with plain text.\<close>

lemma malformed_arguments_are_plain_text:
  assumes "be_read_args be arguments = Inl e"
  shows "dispatch be sv ''read'' arguments w =
    (Inr \<lparr>cr_content = [''Invalid arguments for read: '' @ e], cr_is_error = True\<rparr>, w)"
  using assms
  by (simp add: dispatch_def call_outcome_def comp_simps bad_arguments_def outcome_error_def call_result_of_def Let_def)

text \<open>
  Rule R017 has \<open>permission_denied\<close> for a denied access and \<open>not_a_file\<close> for a path to a non-file.
  The tools \<open>read\<close>, \<open>edit\<close> and \<open>write\<close> report both as \<open>io\<close>.
\<close>

lemma other_errors_are_io:
  "io_kind_of source = IoPermissionDenied \<or> source = is_a_directory \<Longrightarrow>
    pe_code (snapshot_protocol_error operation p (SnIo what q source)) = CodeIo"
  by (auto simp: snapshot_protocol_error_def protocol_error_new_def is_a_directory_def)

text \<open>
  Rule R011: an edit of a missing file reports that it is missing.  The code reports a conflict
  with the header of an empty file, unless the request names the empty snapshot.
\<close>

lemma missing_file_conflicts:
  assumes x: "externs_ok x" and stale: "er_snapshot input \<noteq> content_id x []"
  shows "create_new_file hs x p input durability w =
    (Inl (Err (stale_error (er_path input) [] (er_snapshot input) (content_id x []) 1)), w)"
proof -
  have ok: "text_ok []" by (simp add: text_ok_def)
  have empty: "snapshot_from_bytes x [] = Inr (fresh_snapshot x [] None)"
    using ok by (simp add: snapshot_from_bytes_def validated_text_eq [OF x] validate_text_eq_Inr from_validated_with_stamp_ok [OF x])
  have few: "\<not> CONFLICT_CONTEXT_LINES < length (text_context [] 1)" by (simp add: text_context_short not_less)
  show ?thesis
    using stale few
    by (simp add: create_new_file_def empty comp_simps reference_header_ok [OF ok] reference_context_ok [OF ok] or_default_def
        protocol_error_conflict_def stale_error_def CONFLICT_MSG_def SNAPSHOT_CONFLICT_MESSAGE_def as_protocol_error_def)
qed

text \<open>
  Rule R020: an edit never applies to another snapshot.  The creation of a file that was missing
  when it was looked for replaces whatever has been created there since.
\<close>

lemma newcomer_is_replaced:
  fixes w :: "'z process_scheme"
  assumes run: "undisturbed_process x p w" and newcomer: "content_at (w_fs w) p = Some other"
    and request: "er_snapshot input = content_id x []" "batch_ok [] (er_edits input)" "\<forall>operation\<in>set (er_edits input). utf8_ok (op_content operation)"
    and room: "length (edit_spec [] (map line_edit_of (er_edits input))) \<le> unat (ca_capacity (pr_cache w))"
  shows "\<exists>success w'. create_new_file hs x p input durability w = (Inr success, w') \<and>
    content_at (w_fs w') p = Some (edit_spec [] (map line_edit_of (er_edits input)))"
proof -
  let ?out = "edit_spec [] (map line_edit_of (er_edits input))" and ?h = "host_of w"
  have w: "externs_ok x" "calm_world w" "pr_turns w = []" "writable ?h (w_fs w) p" "roomy (pr_cache w) ?out"
    using run room by (simp_all add: undisturbed_process_def roomy_def)
  have out: "text_ok ?out"
    by (rule edited_text_ok [of "[]" "er_edits input"]) (use request in \<open>simp_all add: apply_reference_edits_eq_Inr\<close>)
  have empty: "snapshot_from_bytes x [] = Inr (fresh_snapshot x [] None)"
    using request(2) by (simp add: snapshot_from_bytes_def validated_text_eq [OF w(1)] validate_text_eq_Inr batch_ok_def
        from_validated_with_stamp_ok [OF w(1)])
  have applied: "apply_versioned_reference_edits [] (content_id x []) input = Inr ?out"
    using request by (simp add: versioned_edit_eq_Inr)
  have dirs: "alone ?h (\<lambda>f c. f = w_fs w \<and> c = pr_cache w) (case path_parent p of
        None \<Rightarrow> ret ()
      | Some parent \<Rightarrow> with_err (\<lambda>e. Err (protocol_error_new CodeIo
          (''Failed to create parent directory for '' @ p @ '': '' @ io_text e))) (create_dir_all parent))
      (case_sum (\<lambda>_ _ _. False) (\<lambda>_ f c. f = w_fs w \<and> c = pr_cache w))"
  proof (cases "path_parent p")
    case None
    then show ?thesis using w(4) by (simp add: writable_def)
  next
    case (Some parent)
    have "preserves (\<lambda>w. shared w = c) (create_dir_all parent)" for c
      by (rule survives_create_dir_all [OF shared_survives(1)])
    note dir = alone_files [OF quiet_directory [OF w(4) Some] this, where C = "pr_cache w"]
    show ?thesis unfolding Some option.case by (rule alone_with_err, rule alone_post [OF dir]) auto
  qed
  have tool: "alone ?h (\<lambda>f c. f = w_fs w \<and> c = pr_cache w) (create_new_file hs x p input durability)
      (\<lambda>r f c. (\<exists>success. r = Inr success \<and> es_snapshot success = content_id x ?out) \<and> stored hs x (fst (snd ?h)) p ?out (w_fs w) f c)"
    unfolding create_new_file_def empty map_err_simps bind_lift_Inr
    using request(1) applied by (simp, intro alone_bind [OF dirs] alone_publish [OF w(1) out w(4,5)]) simp
  obtain r w' where one: "create_new_file hs x p input durability w = (r, w')" by (metis surj_pair)
  note mid = aloneD(4) [OF tool refl w(2,3) _ one, OF conjI [OF refl refl]]
  then obtain success where "r = Inr success" "with_file (path_components p) ?out (w_fs w) (w_fs w')" by (auto simp: stored_def)
  then show ?thesis using one with_file_content(1) by blast
qed

end
