(* ===== verification/Spec2Isabelle.thy ===== *)
theory Spec2Isabelle
  imports Load_Exact Read_Current Wire_Schemas Path_Locks Cross_Tools Protocol_Gaps
begin

text \<open>
  Verification of hashline, a server whose tools read, search and edit text files under content
  identities: a client names the snapshot it saw, and an edit against another snapshot is refused.

  Parts of the program and their theories, in the order of the imports.
  \<^item> \<open>Prelude\<close>, \<open>Utf8\<close>, \<open>Digits\<close>: machine integers at their width, faults (\<open>Err e\<close> for an error value,
    \<open>Panic\<close> for a failed \<open>expect\<close>), slices, UTF-8, decimal and hexadecimal text.
  \<^item> \<open>Wire_Tokens\<close>, \<open>Errors\<close>, \<open>Requests\<close>: the data of \<open>src/protocol.rs\<close>: tokens with \<open>Display\<close> and
    \<open>FromStr\<close>, error codes and payloads, requests with \<open>validate\<close>, headers and summaries.
    \<open>Wire_Schemas\<close>: the hand-written \<open>Serialize\<close>, \<open>Deserialize\<close> and \<open>JsonSchema\<close> of the tokens, and
    the limits the request schemas announce.
  \<^item> \<open>Reference_Text\<close>, \<open>Reference_Edits\<close>, \<open>Edit_Refinement\<close>, \<open>Reference_Versioned\<close>: the reference
    model of \<open>src/protocol.rs\<close> (text, boundaries, edit batches, conflicts), and the specification on
    lists of lines that \<open>apply_reference_edits\<close> refines.
  \<^item> \<open>Effects\<close>: computations with a state and errors; the hash, the newline search, the allocator and
    the JSON printer are the fields of \<open>externs\<close>.  \<open>Snapshots\<close>: the values of \<open>src/snapshot.rs\<close>
    (\<open>Snapshot\<close>, \<open>FileStamp\<close>, \<open>LineOffsets\<close>), with the lazily filled offsets as the state.
  \<^item> \<open>Edit_Engine\<close>: \<open>src/edit/engine.rs\<close>, the fast splice that must agree with the reference model.
    \<open>Page_Render\<close>: \<open>src/render.rs\<close>.  \<open>Workspaces\<close>: \<open>src/util.rs\<close>, path resolution and error mapping.
  \<^item> \<open>Grep_Spans\<close>, \<open>Grep_Search\<close>: \<open>src/grep.rs\<close>; the matcher, the searcher and the schedule of the
    parallel walk are parameters.  \<open>Glob_Listing\<close>: \<open>src/glob.rs\<close>.
  \<^item> \<open>File_World\<close>: the file system the standard library talks to, as inodes and names.  Before every
    call a tick of a script changes the files the way other processes do, moves the clock and
    says whether the call fails and how much a read or a write moves.  \<open>File_Logic\<close>: rely-guarantee
    triples over it.
  \<^item> \<open>Snapshot_Load\<close>: \<open>Snapshot::load\<close> of \<open>src/snapshot.rs\<close> on that file system.  \<open>Load_Rules\<close>,
    \<open>Load_Settled\<close>, \<open>Load_Exact\<close>: no further code; what is known while a load runs.  The assertions on
    the bytes of an open file are the locale \<open>byte_watch\<close>, and a reason to trust a load is the locale
    \<open>load_watch\<close>, which proves the triple of the whole load once.  Its instances are the reasons that
    the checks of the code have: \<open>strict\<close> (change times that advance), \<open>settled\<close> (a stamp that is not
    racy) and \<open>once\<close> (the second read of the path).
  \<^item> \<open>Persistence\<close>, \<open>Temp_Names\<close>, \<open>Persist_Atomic\<close>: \<open>src/persist.rs\<close> on that file system;
    \<open>Path_Locks\<close>: its per-path lock, as steps of threads.
  \<^item> \<open>Snapshot_Cache\<close>, \<open>Cache_Steps\<close>, \<open>Cache_Sound\<close>: \<open>src/cache.rs\<close>.  The state is a world with the
    cache in it; a critical section is one step, before which the other threads of the process
    may have changed the cache.  \<open>Cache_Logic\<close>, \<open>Cache_Coherent\<close>: no further code; rely-guarantee
    triples whose assertions also speak of the cache, and its coherence with the files.  What
    the cache asks of the loader it runs is the locale \<open>settled_loader\<close>, with \<open>Snapshot::load\<close> as its
    instance; tokens are the locale \<open>wire_token\<close>, resolvers of positions \<open>boundary_resolver\<close>.
  \<^item> \<open>Edit_Tool\<close>, \<open>Edit_Atomic\<close>: \<open>src/edit/mod.rs\<close>; \<open>Write_Tool\<close>: \<open>src/write.rs\<close>; \<open>Read_Tool\<close>:
    \<open>src/read.rs\<close>.  \<open>File_Steps\<close> and \<open>Tool_Logic\<close> hold the rules their proofs share: what every
    program over the world leaves invariant, programs that only observe, logs of phases.
  \<^item> \<open>Tool_Listing\<close>, \<open>Server\<close>, \<open>Server_Policy\<close>, \<open>Server_Answers\<close>: \<open>src/server.rs\<close> and the start in
    \<open>src/main.rs\<close>: listing, roots, dispatch.  \<open>Cross_Tools\<close>: a page of one tool used by another.
    \<open>Read_Current\<close>: the whole \<open>read\<close> call, with the cache and the files shared.
  \<^item> \<open>Quiet_Runs\<close>, \<open>Quiet_Persist\<close>, \<open>Quiet_Tools\<close>: no further code; rules for total correctness of
    runs that nobody disturbs and no device fails, for the file system, for publication and for
    the tools with their cache.  \<open>Protocol_Gaps\<close>: runs on which the code and
    \<open>docs/protocol.md\<close> part.

  What the lemmas show.  The reference edit model refines line edits, keeps text valid and never
  panics; the fast engine computes the same result; rendered pages, contexts and cursors are exact;
  tokens and headers can be read back; the parallel search does not depend on its schedule; paths
  stay in the root.  A load returns a content the file had: of any length and under any
  interference where change times advance with every change; on a coarse clock when it is quick
  and its stamp is not racy, or when its stamp is racy and the file was changed once.  A slow
  load on a coarse clock can be torn (\<open>slow_load_can_tear\<close>).  An atomic write
  is one step for whoever looks at the destination.  The tools inherit this: an edit or a write
  replaces exactly the content it was computed from, in one step or not at all.  The cache stays
  in its budget, and it is an accelerator, never an authority: what is served through it, and what
  \<open>read\<close> shows, is a text the path held at a moment during the call, unless the file was changed
  too recently for its time stamps to tell, and provided that the call is quicker than the racy window
  less the granularity of the clock and that the other threads leave the path
  alone (a verified read that they do not leave alone can renew a stale entry).  The schemas of
  the tokens admit exactly what the decoders accept.  Every call of a listed tool is
  answered by a result, whatever the files and the other threads do; the tools announced as
  read-only change no file; a pinned root never changes; the lock of a path has one owner and
  cannot deadlock; positions of a page, sent back to \<open>edit\<close>, name the lines they were shown for.
  The safety properties hold under any interference and would hold of a server that always
  refuses; the quiet theories show that it does not: an edit the reference model allows, or a
  write of a new file, succeeds when nobody else touches the files, leaves every other file as it
  was, and the next read of the path shows the new content under the announced header.

  Bounds.  \<open>read_loop\<close>, \<open>read_all\<close>, \<open>write_all\<close> and \<open>create_dir_all\<close> have termination proofs: an
  interrupted call uses up a tick, and a script is finite (after its end the ticks are quiet).
  \<open>evict\<close> drops an entry in every round and \<open>str_replace\<close> consumes its text.  No other loop needs
  fuel.

  Not modelled.  Symbolic links inside \<open>File_World\<close> (\<open>Workspaces\<close> takes \<open>canonicalize\<close> as a parameter);
  line offsets filled in through one handle of a cached snapshot and seen through another (they
  are a function of the text); poisoned mutexes (no critical section panics); the moment between a call for metadata and the reading of the clock for
  its stamp, which are one step; the size hint \<open>std::fs::read\<close> asks for; changes of the files during
  one \<open>grep\<close> or \<open>glob\<close> call, whose files are a function of the environment; when the workers of
  \<open>grep\<close> quit, so that the entries they deliver are a parameter; tracing; the
  derived JSON decoders and schemas (the hand-written ones of the tokens are), percent decoding and the session of the transport, which are
  parameters of \<open>Server\<close>; \<open>get_info\<close>, a constant; argument parsing and the async runtime; the code
  compiled for other systems than Unix; tests, fixtures and benchmarks.
\<close>

end
